(* ===== verification/Ingest_Prelude.thy ===== *)
theory Ingest_Prelude
  imports
    "HOL-Library.Word"
    "HOL-Library.Char_ord"
    "HOL-Library.List_Lexorder"
    "HOL-Library.Product_Lexorder"
    "HOL-Library.Sublist"
begin

text \<open>
  What the components share: the machine integers of the Rust code, the \<open>?\<close> operator on
  \<open>Result\<close>, durations, and the part of the Rust standard library on strings and decimal
  numbers that the crate uses, with the lemmas about it.

  Conventions. \<open>u8\<close>, \<open>u32\<close> and \<open>u64\<close> are words of that width. \<open>i64\<close> and
  \<open>i128\<close> are \<open>int\<close>, and where an operation of the code can leave the range the wrap-around
  is written out with \<open>wrap_i64\<close>. \<open>usize\<close> counts are \<open>nat\<close>. A Rust \<open>String\<close> is the
  list of its UTF-8 bytes, so that \<open>length\<close> is \<open>str::len\<close> and the order of HOL lists is the
  order of Rust strings; a Rust \<open>char\<close> outside this prelude is the string of its UTF-8 bytes.
\<close>

named_theorems res_simps \<open>equations of the result type\<close>
named_theorems str_simps \<open>equations of the string operations\<close>
named_theorems num_simps \<open>equations of decimal printing and parsing\<close>

section \<open>Machine integers\<close>

type_synonym u8 = "8 word"
type_synonym u32 = "32 word"
type_synonym u64 = "64 word"
type_synonym i64 = int
type_synonym i128 = int

definition i64_min :: i64 where "i64_min = - (2 ^ 63)"
definition i64_max :: i64 where "i64_max = 2 ^ 63 - 1"

definition in_i64 :: "int \<Rightarrow> bool" where
  "in_i64 x \<longleftrightarrow> i64_min \<le> x \<and> x \<le> i64_max"

text \<open>Two's complement wrap-around of the release profile.\<close>

definition wrap_i64 :: "int \<Rightarrow> i64" where
  "wrap_i64 x = (x + 2 ^ 63) mod 2 ^ 64 - 2 ^ 63"

lemma wrap_i64_id [simp]: "in_i64 x \<Longrightarrow> wrap_i64 x = x"
  by (simp add: wrap_i64_def in_i64_def i64_min_def i64_max_def)

lemma wrap_i64_in [simp]: "in_i64 (wrap_i64 x)"
proof -
  have "0 \<le> (x + 2 ^ 63) mod 2 ^ 64" "(x + 2 ^ 63) mod 2 ^ 64 < (2 ^ 64 :: int)"
    by simp_all
  then show ?thesis
    by (simp add: wrap_i64_def in_i64_def i64_min_def i64_max_def)
qed

text \<open>\<open>u64::saturating_sub\<close> and \<open>u64\<close> maximum.\<close>

definition sat_sub_u64 :: "u64 \<Rightarrow> u64 \<Rightarrow> u64" where
  "sat_sub_u64 a b = (if a < b then 0 else a - b)"

lemma unat_sat_sub_u64 [simp]: "unat (sat_sub_u64 a b) = unat a - unat b"
  by (auto simp: sat_sub_u64_def unat_sub_if_size word_less_nat_alt word_size)

section \<open>Results\<close>

text \<open>
  \<open>Result<T, E>\<close> is \<open>'e + 'a\<close>, \<open>Inl\<close> the error. \<open>res_bind\<close> is the \<open>?\<close> operator
  followed by the rest of the function, \<open>res_all\<close> is \<open>collect::<Result<Vec<_>>>()\<close>, which
  stops at the first error, \<open>ok_or\<close> is \<open>Option::ok_or\<close>.
\<close>

fun res_bind :: "'e + 'a \<Rightarrow> ('a \<Rightarrow> 'e + 'b) \<Rightarrow> 'e + 'b" where
  "res_bind (Inl e) f = Inl e"
| "res_bind (Inr x) f = f x"

fun res_all :: "('a \<Rightarrow> 'e + 'b) \<Rightarrow> 'a list \<Rightarrow> 'e + 'b list" where
  "res_all f [] = Inr []"
| "res_all f (x # xs) =
     res_bind (f x) (\<lambda>y. res_bind (res_all f xs) (\<lambda>ys. Inr (y # ys)))"

fun ok_or :: "'e \<Rightarrow> 'a option \<Rightarrow> 'e + 'a" where
  "ok_or e None = Inl e"
| "ok_or e (Some x) = Inr x"

fun res_ok :: "'e + 'a \<Rightarrow> 'a option" where
  "res_ok (Inl e) = None"
| "res_ok (Inr x) = Some x"

definition is_ok :: "'e + 'a \<Rightarrow> bool" where
  "is_ok r \<longleftrightarrow> (case r of Inl _ \<Rightarrow> False | Inr _ \<Rightarrow> True)"

lemma is_ok_simps [simp, res_simps]: "\<not> is_ok (Inl e)" "is_ok (Inr x)"
  by (simp_all add: is_ok_def)

lemma is_ok_iff: "is_ok r \<longleftrightarrow> (\<exists>x. r = Inr x)"
  by (cases r) simp_all

lemma res_bind_Inr [res_simps]: "res_bind r f = Inr y \<longleftrightarrow> (\<exists>x. r = Inr x \<and> f x = Inr y)"
  by (cases r) auto

lemma res_bind_Inl [res_simps]:
  "res_bind r f = Inl e \<longleftrightarrow> r = Inl e \<or> (\<exists>x. r = Inr x \<and> f x = Inl e)"
  by (cases r) auto

lemma res_bind_unit: "res_bind r f = Inr y \<longleftrightarrow> r = Inr () \<and> f () = Inr y"
  by (cases r) auto

lemma res_if_Inl: "(if b then Inl e else r) = Inr y \<longleftrightarrow> \<not> b \<and> r = Inr y"
  by simp

text \<open>Reading off when a chain of checks succeeds.\<close>

lemmas check_simps = res_bind_unit res_if_Inl

lemma ok_or_Inr [res_simps]: "ok_or e m = Inr x \<longleftrightarrow> m = Some x"
  by (cases m) auto

lemma res_all_Inr:
  "res_all f xs = Inr ys \<longleftrightarrow> length ys = length xs \<and> (\<forall>i < length xs. f (xs ! i) = Inr (ys ! i))"
proof (induction xs arbitrary: ys)
  case (Cons x xs)
  show ?case
  proof
    assume "res_all f (x # xs) = Inr ys"
    then obtain y zs where "f x = Inr y" "res_all f xs = Inr zs" "ys = y # zs"
      by (auto simp: res_simps)
    with Cons.IH [of zs] show "length ys = length (x # xs) \<and>
        (\<forall>i < length (x # xs). f ((x # xs) ! i) = Inr (ys ! i))"
      by (auto simp: less_Suc_eq_0_disj)
  next
    assume r: "length ys = length (x # xs) \<and>
        (\<forall>i < length (x # xs). f ((x # xs) ! i) = Inr (ys ! i))"
    then obtain y zs where ys: "ys = y # zs" by (cases ys) auto
    with r have "f x = Inr y" and "length zs = length xs"
      and "\<forall>i < length xs. f (xs ! i) = Inr (zs ! i)" by auto
    with Cons.IH [of zs] ys show "res_all f (x # xs) = Inr ys" by simp
  qed
qed auto

lemma res_all_ok: "(\<forall>x \<in> set xs. is_ok (f x)) \<Longrightarrow> is_ok (res_all f xs)"
  by (induction xs) (auto simp: is_ok_iff)

lemma res_all_map: "(\<And>x. x \<in> set xs \<Longrightarrow> f x = Inr (g x)) \<Longrightarrow> res_all f xs = Inr (map g xs)"
  by (induction xs) auto

lemma find_SomeD: "find P xs = Some x \<Longrightarrow> x \<in> set xs \<and> P x"
  by (induction xs) (auto split: if_splits)

section \<open>Durations and instants\<close>

text \<open>\<open>std::time::Duration\<close> in nanoseconds, ordered as Rust orders it.\<close>

datatype duration = Nanos (nanos: nat)

instantiation duration :: linorder
begin

definition less_eq_duration :: "duration \<Rightarrow> duration \<Rightarrow> bool" where
  "less_eq_duration a b \<longleftrightarrow> nanos a \<le> nanos b"

definition less_duration :: "duration \<Rightarrow> duration \<Rightarrow> bool" where
  "less_duration a b \<longleftrightarrow> nanos a < nanos b"

instance
  by standard (auto simp: less_eq_duration_def less_duration_def duration.expand)

end

definition from_secs :: "nat \<Rightarrow> duration" where
  "from_secs n = Nanos (n * 1000000000)"

definition from_millis :: "nat \<Rightarrow> duration" where
  "from_millis n = Nanos (n * 1000000)"

definition as_millis :: "duration \<Rightarrow> nat" where
  "as_millis d = nanos d div 1000000"

definition as_secs :: "duration \<Rightarrow> nat" where
  "as_secs d = nanos d div 1000000000"

definition dur_mul :: "duration \<Rightarrow> nat \<Rightarrow> duration" where
  "dur_mul d k = Nanos (nanos d * k)"

text \<open>An \<open>Instant\<close> is the monotonic clock in nanoseconds; \<open>elapsed\<close> saturates at zero.\<close>

type_synonym instant = nat

definition elapsed :: "instant \<Rightarrow> instant \<Rightarrow> duration" where
  "elapsed now t = Nanos (now - t)"

lemma duration_le_simps [simp]:
  "Nanos a \<le> Nanos b \<longleftrightarrow> a \<le> b" "Nanos a < Nanos b \<longleftrightarrow> a < b"
  by (simp_all add: less_eq_duration_def less_duration_def)

section \<open>Strings\<close>

fun strip_prefix :: "string \<Rightarrow> string \<Rightarrow> string option" where
  "strip_prefix [] s = Some s"
| "strip_prefix (p # ps) [] = None"
| "strip_prefix (p # ps) (c # cs) = (if p = c then strip_prefix ps cs else None)"

definition strip_suffix :: "string \<Rightarrow> string \<Rightarrow> string option" where
  "strip_suffix p s = map_option rev (strip_prefix (rev p) (rev s))"

definition starts_with :: "string \<Rightarrow> string \<Rightarrow> bool" where
  "starts_with p s \<longleftrightarrow> strip_prefix p s \<noteq> None"

lemma strip_prefix_Some [str_simps]: "strip_prefix p s = Some r \<longleftrightarrow> s = p @ r"
  by (induction p s rule: strip_prefix.induct) auto

lemma strip_prefix_append [simp]: "strip_prefix p (p @ r) = Some r"
  by (simp add: str_simps)

lemma strip_prefix_None [str_simps]: "strip_prefix p s = None \<longleftrightarrow> \<not> prefix p s"
  using strip_prefix_Some [of p s] by (cases "strip_prefix p s") (auto simp: prefix_def)

lemma strip_suffix_Some [str_simps]: "strip_suffix p s = Some r \<longleftrightarrow> s = r @ p"
proof -
  have "strip_suffix p s = Some r \<longleftrightarrow> strip_prefix (rev p) (rev s) = Some (rev r)"
    by (auto simp: strip_suffix_def)
  also have "\<dots> \<longleftrightarrow> rev s = rev p @ rev r"
    by (rule strip_prefix_Some)
  also have "\<dots> \<longleftrightarrow> s = r @ p"
    by (metis rev_append rev_rev_ident)
  finally show ?thesis .
qed

lemma strip_suffix_append [simp]: "strip_suffix p (r @ p) = Some r"
  by (simp add: str_simps)

lemma strip_suffix_None [str_simps]: "strip_suffix p s = None \<longleftrightarrow> \<not> suffix p s"
  using strip_suffix_Some [of p s] by (cases "strip_suffix p s") (auto simp: suffix_def)

text \<open>Suffixes behind a variable middle: decided by the two literals.\<close>

lemma strip_suffix_other:
  assumes "\<not> prefix (rev p) (rev q)" and "\<not> prefix (rev q) (rev p)"
  shows "strip_suffix p (r @ q) = None"
proof -
  have "\<not> suffix p (r @ q)"
    using assms by (auto simp: suffix_to_prefix prefix_append elim: prefix_same_cases)
  then show ?thesis by (simp add: strip_suffix_None)
qed

lemma starts_with_iff [str_simps]: "starts_with p s \<longleftrightarrow> prefix p s"
  by (simp add: starts_with_def str_simps)

text \<open>\<open>str::split(c)\<close>: always at least one piece.\<close>

fun split_on :: "char \<Rightarrow> string \<Rightarrow> string list" where
  "split_on d [] = [[]]"
| "split_on d (c # cs) =
     (if c = d then [] # split_on d cs
      else case split_on d cs of [] \<Rightarrow> [[c]] | w # ws \<Rightarrow> (c # w) # ws)"

lemma split_on_not_Nil [simp]: "split_on d s \<noteq> []"
  by (induction s) (auto split: list.splits)

lemma split_on_word [str_simps]: "d \<notin> set w \<Longrightarrow> split_on d w = [w]"
  by (induction w) auto

lemma split_on_append [str_simps]:
  "d \<notin> set w \<Longrightarrow> split_on d (w @ d # r) = w # split_on d r"
  by (induction w) auto

text \<open>\<open>str::split_once\<close> at the first, \<open>str::rsplit_once\<close> at the last separator.\<close>

fun split_once :: "char \<Rightarrow> string \<Rightarrow> (string \<times> string) option" where
  "split_once d [] = None"
| "split_once d (c # cs) =
     (if c = d then Some ([], cs)
      else map_option (\<lambda>(a, b). (c # a, b)) (split_once d cs))"

definition rsplit_once :: "char \<Rightarrow> string \<Rightarrow> (string \<times> string) option" where
  "rsplit_once d s = map_option (\<lambda>(b, a). (rev a, rev b)) (split_once d (rev s))"

lemma split_once_Some [str_simps]:
  "split_once d s = Some (a, b) \<longleftrightarrow> s = a @ d # b \<and> d \<notin> set a"
proof (induction s arbitrary: a)
  case (Cons c cs)
  then show ?case by (cases a) auto
qed auto

lemma split_once_None [str_simps]: "split_once d s = None \<longleftrightarrow> d \<notin> set s"
  by (induction s) auto

lemma rsplit_once_None [str_simps]: "rsplit_once d s = None \<longleftrightarrow> d \<notin> set s"
  by (simp add: rsplit_once_def split_once_None)

text \<open>\<open>trim_matches(c)\<close> and \<open>trim_start_matches(c)\<close> for one character.\<close>

definition trim_start_matches :: "char \<Rightarrow> string \<Rightarrow> string" where
  "trim_start_matches d s = dropWhile (\<lambda>c. c = d) s"

definition trim_matches :: "char \<Rightarrow> string \<Rightarrow> string" where
  "trim_matches d s = rev (dropWhile (\<lambda>c. c = d) (rev (dropWhile (\<lambda>c. c = d) s)))"

lemma trim_matches_id:
  "s = [] \<or> (hd s \<noteq> d \<and> last s \<noteq> d) \<Longrightarrow> trim_matches d s = s"
proof -
  assume s: "s = [] \<or> (hd s \<noteq> d \<and> last s \<noteq> d)"
  show ?thesis
  proof (cases "s = []")
    case False
    then have "dropWhile (\<lambda>c. c = d) s = s"
      using s by (cases s) auto
    moreover have "dropWhile (\<lambda>c. c = d) (rev s) = rev s"
      using s False by (cases "rev s") (auto simp: last_conv_nth hd_rev [symmetric])
    ultimately show ?thesis by (simp add: trim_matches_def)
  qed (simp add: trim_matches_def)
qed

lemma trim_matches_ends:
  "trim_matches d s = [] \<or> (hd (trim_matches d s) \<noteq> d \<and> last (trim_matches d s) \<noteq> d)"
proof (cases "trim_matches d s = []")
  case False
  let ?u = "dropWhile (\<lambda>c. c = d) s"
  let ?v = "dropWhile (\<lambda>c. c = d) (rev ?u)"
  from False have v: "?v \<noteq> []" by (simp add: trim_matches_def)
  then have "hd ?v \<noteq> d" by (rule hd_dropWhile)
  then have l: "last (trim_matches d s) \<noteq> d"
    using v by (simp add: trim_matches_def last_rev)
  obtain k where "?v = drop k (rev ?u)"
    by (metis dropWhile_eq_drop)
  then have "trim_matches d s = take (length ?u - k) ?u"
    by (simp add: trim_matches_def rev_drop)
  moreover have "?u \<noteq> []" using v by (metis dropWhile.simps(1) rev.simps(1))
  moreover have "hd ?u \<noteq> d" using \<open>?u \<noteq> []\<close> by (rule hd_dropWhile)
  ultimately have "hd (trim_matches d s) \<noteq> d"
    using False by (cases "length ?u - k") (auto simp: hd_conv_nth)
  with l show ?thesis by simp
qed simp

text \<open>
  \<open>str::chars\<close>: each scalar value as the string of its bytes, a lead byte and the
  continuation bytes (\<open>10xxxxxx\<close>) that follow it.
\<close>

definition is_cont :: "char \<Rightarrow> bool" where
  "is_cont c \<longleftrightarrow> (128 :: nat) \<le> of_char c \<and> of_char c < (192 :: nat)"

lemma length_dropWhile_Suc [termination_simp]: "length (dropWhile P xs) < Suc (length xs)"
  by (simp add: length_dropWhile_le less_Suc_eq_le)

fun chars :: "string \<Rightarrow> string list" where
  "chars [] = []"
| "chars (c # cs) = (c # takeWhile is_cont cs) # chars (dropWhile is_cont cs)"

lemma concat_chars [simp, str_simps]: "concat (chars s) = s"
  by (induction s rule: chars.induct) simp_all

lemma chars_ascii: "(\<forall>c \<in> set s. \<not> is_cont c) \<Longrightarrow> chars s = map (\<lambda>c. [c]) s"
proof (induction s)
  case (Cons c s)
  then have "takeWhile is_cont s = []" "dropWhile is_cont s = s"
    by (cases s; simp)+
  with Cons show ?case by simp
qed simp

definition is_ascii_alphanumeric :: "char \<Rightarrow> bool" where
  "is_ascii_alphanumeric c \<longleftrightarrow>
     (CHR ''0'' \<le> c \<and> c \<le> CHR ''9'') \<or> (CHR ''A'' \<le> c \<and> c \<le> CHR ''Z'') \<or> (CHR ''a'' \<le> c \<and> c \<le> CHR ''z'')"

text \<open>\<open>{:?}\<close> of an optional value and the join of pieces, as format strings use them.\<close>

fun join_with :: "string \<Rightarrow> string list \<Rightarrow> string" where
  "join_with d [] = []"
| "join_with d [s] = s"
| "join_with d (s # t # ss) = s @ d @ join_with d (t # ss)"

section \<open>Decimal numbers\<close>

definition digit :: "nat \<Rightarrow> char" where
  "digit d = char_of (48 + d)"

definition digit_val :: "char \<Rightarrow> nat option" where
  "digit_val c = (let n = of_char c in if 48 \<le> n \<and> n \<le> 57 then Some (n - 48) else None)"

definition is_digit :: "char \<Rightarrow> bool" where
  "is_digit c \<longleftrightarrow> (48 :: nat) \<le> of_char c \<and> of_char c \<le> (57 :: nat)"

fun show_nat :: "nat \<Rightarrow> string" where
  "show_nat n = (if n < 10 then [digit n] else show_nat (n div 10) @ [digit (n mod 10)])"

declare show_nat.simps [simp del]

definition show_int :: "int \<Rightarrow> string" where
  "show_int i = (if i < 0 then CHR ''-'' # show_nat (nat (- i)) else show_nat (nat i))"

text \<open>\<open>{:0w$}\<close>: zeros up to the width, after the sign.\<close>

definition pad0 :: "nat \<Rightarrow> string \<Rightarrow> string" where
  "pad0 w s = replicate (w - length s) CHR ''0'' @ s"

definition show_nat_pad :: "nat \<Rightarrow> nat \<Rightarrow> string" where
  "show_nat_pad w n = pad0 w (show_nat n)"

definition show_int_pad :: "nat \<Rightarrow> int \<Rightarrow> string" where
  "show_int_pad w i =
     (if i < 0 then CHR ''-'' # pad0 (w - 1) (show_nat (nat (- i))) else show_nat_pad w (nat i))"

text \<open>
  \<open>str::parse\<close> for unsigned and signed integers of a width: an optional sign (\<open>+\<close> also
  for unsigned types, \<open>-\<close> only for signed ones), at least one digit, no overflow.
\<close>

fun digits_val :: "nat \<Rightarrow> string \<Rightarrow> nat option" where
  "digits_val a [] = Some a"
| "digits_val a (c # cs) =
     (case digit_val c of None \<Rightarrow> None | Some d \<Rightarrow> digits_val (a * 10 + d) cs)"

definition parse_digits :: "string \<Rightarrow> nat option" where
  "parse_digits s = (if s = [] then None else digits_val 0 s)"

definition parse_nat_below :: "nat \<Rightarrow> string \<Rightarrow> nat option" where
  "parse_nat_below bound s =
     (case parse_digits (case s of c # cs \<Rightarrow> if c = CHR ''+'' then cs else s | [] \<Rightarrow> []) of
        None \<Rightarrow> None
      | Some n \<Rightarrow> if n < bound then Some n else None)"

definition parse_int_within :: "int \<Rightarrow> int \<Rightarrow> string \<Rightarrow> int option" where
  "parse_int_within lo hi s =
     (case (case s of c # cs \<Rightarrow>
               if c = CHR ''-'' then map_option (\<lambda>n. - int n) (parse_digits cs)
               else map_option int (parse_digits (if c = CHR ''+'' then cs else s))
             | [] \<Rightarrow> None) of
        None \<Rightarrow> None
      | Some i \<Rightarrow> if lo \<le> i \<and> i \<le> hi then Some i else None)"

definition parse_u8 :: "string \<Rightarrow> nat option" where
  "parse_u8 s = parse_nat_below 256 s"

definition parse_u32 :: "string \<Rightarrow> u32 option" where
  "parse_u32 s = map_option word_of_nat (parse_nat_below (2 ^ 32) s)"

definition parse_u64 :: "string \<Rightarrow> u64 option" where
  "parse_u64 s = map_option word_of_nat (parse_nat_below (2 ^ 64) s)"

definition parse_i64 :: "string \<Rightarrow> i64 option" where
  "parse_i64 s = parse_int_within i64_min i64_max s"

definition parse_i8 :: "string \<Rightarrow> int option" where
  "parse_i8 s = parse_int_within (- 128) 127 s"

lemma of_char_digit: "d < 10 \<Longrightarrow> of_char (digit d) = 48 + d"
  by (simp add: digit_def take_bit_eq_mod)

lemma digit_val_digit [simp, num_simps]: "d < 10 \<Longrightarrow> digit_val (digit d) = Some d"
  by (simp add: digit_val_def of_char_digit)

lemma is_digit_digit [simp, num_simps]: "d < 10 \<Longrightarrow> is_digit (digit d)"
  by (simp add: is_digit_def of_char_digit)

lemma digit_less_iff [num_simps]: "a < 10 \<Longrightarrow> b < 10 \<Longrightarrow> digit a < digit b \<longleftrightarrow> a < b"
  by (simp add: less_char_def of_char_digit)

lemma digit_inj: "a < 10 \<Longrightarrow> b < 10 \<Longrightarrow> digit a = digit b \<longleftrightarrow> a = b"
  by (metis digit_val_digit option.inject)

lemma digit_0 [simp, num_simps]: "digit 0 = CHR ''0''"
  by code_simp

lemma show_nat_digits: "c \<in> set (show_nat n) \<Longrightarrow> is_digit c"
proof (induction n rule: show_nat.induct)
  case (1 n)
  show ?case
  proof (cases "n < 10")
    case True
    with "1.prems" show ?thesis by (subst (asm) show_nat.simps) simp
  next
    case False
    with "1.prems" have "c \<in> set (show_nat (n div 10)) \<or> c = digit (n mod 10)"
      by (subst (asm) show_nat.simps) auto
    with "1.IH" False show ?thesis by auto
  qed
qed

lemma show_nat_not_Nil [simp]: "show_nat n \<noteq> []"
  by (subst show_nat.simps) simp

lemma digits_val_append:
  "digits_val a (xs @ ys) = (case digits_val a xs of None \<Rightarrow> None | Some b \<Rightarrow> digits_val b ys)"
  by (induction a xs rule: digits_val.induct) (auto split: option.splits)

lemma digits_val_show_nat [simp, num_simps]: "digits_val 0 (show_nat n) = Some n"
proof (induction n rule: show_nat.induct)
  case (1 n)
  show ?case
  proof (cases "n < 10")
    case True
    then show ?thesis by (subst show_nat.simps) simp
  next
    case False
    with "1.IH" show ?thesis by (subst show_nat.simps) (simp add: digits_val_append)
  qed
qed

lemma digits_val_zeros: "digits_val 0 (replicate k CHR ''0'' @ s) = digits_val 0 s"
  by (induction k) (simp_all add: digit_val_def)

lemma parse_digits_pad [simp, num_simps]: "parse_digits (show_nat_pad w n) = Some n"
  by (simp add: parse_digits_def show_nat_pad_def pad0_def digits_val_zeros)

lemma show_nat_pad_digits: "c \<in> set (show_nat_pad w n) \<Longrightarrow> is_digit c"
  by (auto simp: show_nat_pad_def pad0_def is_digit_def dest: show_nat_digits split: if_splits)

lemma show_nat_pad_not_Nil [simp]: "show_nat_pad w n \<noteq> []"
  by (simp add: show_nat_pad_def pad0_def)

lemma show_nat_eq_pad: "show_nat n = show_nat_pad 0 n"
  by (simp add: show_nat_pad_def pad0_def)

lemma parse_nat_below_pad [simp, num_simps]:
  "parse_nat_below b (show_nat_pad w n) = (if n < b then Some n else None)"
proof (cases "show_nat_pad w n")
  case (Cons c cs)
  then have "is_digit c" using show_nat_pad_digits [of c w n] by simp
  then have "c \<noteq> CHR ''+''" by (auto simp: is_digit_def)
  then have "(case show_nat_pad w n of c # cs \<Rightarrow> if c = CHR ''+'' then cs else show_nat_pad w n | [] \<Rightarrow> [])
      = show_nat_pad w n"
    using Cons by simp
  then show ?thesis by (simp only: parse_nat_below_def parse_digits_pad option.case)
qed simp

lemma parse_int_within_show [simp, num_simps]:
  "0 \<le> i \<Longrightarrow> parse_int_within lo hi (show_int i) = (if lo \<le> i \<and> i \<le> hi then Some i else None)"
proof (cases "show_nat (nat i)")
  case (Cons c cs)
  assume i: "0 \<le> i"
  from Cons have "is_digit c" using show_nat_digits [of c "nat i"] by simp
  then have "c \<noteq> CHR ''+''" "c \<noteq> CHR ''-''" by (auto simp: is_digit_def)
  moreover have "parse_digits (c # cs) = Some (nat i)"
    unfolding Cons [symmetric] by (simp add: show_nat_eq_pad)
  ultimately show ?thesis
    using Cons i by (simp add: parse_int_within_def show_int_def)
qed simp

lemma unat_less_pow [simp]:
  "unat (x :: 64 word) < 18446744073709551616" "unat (y :: 32 word) < 4294967296"
  using unsigned_less [of x] unsigned_less [of y] by simp_all

lemma parse_u64_show [simp, num_simps]: "parse_u64 (show_nat_pad w (unat x)) = Some x"
  by (simp add: parse_u64_def unat_less_pow)

lemma parse_u32_show [simp, num_simps]: "parse_u32 (show_nat_pad w (unat x)) = Some x"
  by (simp add: parse_u32_def unat_less_pow)

lemma parse_i64_show [simp, num_simps]: "0 \<le> i \<Longrightarrow> i \<le> i64_max \<Longrightarrow> parse_i64 (show_int i) = Some i"
  by (simp add: parse_i64_def i64_min_def)

text \<open>Widths.\<close>

lemma length_show_nat_le: "n < 10 ^ w \<Longrightarrow> 0 < w \<Longrightarrow> length (show_nat n) \<le> w"
proof (induction w arbitrary: n)
  case (Suc w)
  show ?case
  proof (cases "n < 10")
    case True
    then show ?thesis by (subst show_nat.simps) simp
  next
    case False
    with Suc.prems have "n div 10 < 10 ^ w" by simp
    moreover have "0 < w" using Suc.prems False by (cases w) auto
    ultimately have "length (show_nat (n div 10)) \<le> w" by (rule Suc.IH)
    with False show ?thesis by (subst show_nat.simps) simp
  qed
qed simp

lemma length_show_u32: "length (show_nat (unat (x :: u32))) \<le> 10"
  using less_trans [OF unat_less_pow(2) [of x], of "10 ^ 10"] by (intro length_show_nat_le) simp_all

lemma length_show_u64: "length (show_nat (unat (x :: u64))) \<le> 20"
  using less_trans [OF unat_less_pow(1) [of x], of "10 ^ 20"] by (intro length_show_nat_le) simp_all

lemma length_show_nat_pad: "n < 10 ^ w \<Longrightarrow> 0 < w \<Longrightarrow> length (show_nat_pad w n) = w"
  using length_show_nat_le [of n w] by (simp add: show_nat_pad_def pad0_def)

lemma show_nat_pad_Suc:
  assumes "0 < w"
  shows "show_nat_pad (Suc w) n = show_nat_pad w (n div 10) @ [digit (n mod 10)]"
proof (cases "n < 10")
  case True
  have "show_nat n = [digit n]" "show_nat 0 = [digit 0]"
    using True by (simp_all add: show_nat.simps)
  with True assms show ?thesis
    by (cases w) (simp_all add: show_nat_pad_def pad0_def replicate_append_same)
next
  case False
  then show ?thesis
    by (subst (1) show_nat_pad_def, subst show_nat.simps) (simp add: show_nat_pad_def pad0_def)
qed

text \<open>Lexicographic order: same-length prefixes decide first.\<close>

lemma list_less_append_same [simp]: "(xs @ ys < xs @ zs) = ((ys :: 'a::linorder list) < zs)"
  by (induction xs) simp_all

lemma list_less_append_le:
  fixes xs us :: "'a::linorder list"
  assumes "length xs = length us" and "xs < us"
  shows "xs @ ys < us @ vs"
  using assms
proof (induction xs us rule: list_induct2)
  case (Cons x xs u us)
  then show ?case by (auto simp: less_list_code)
qed simp

lemma show_nat_pad_less:
  assumes "m < n" and "n < 10 ^ w" and "0 < w"
  shows "show_nat_pad w m < show_nat_pad w n"
  using assms
proof (induction w arbitrary: m n)
  case (Suc w)
  show ?case
  proof (cases "w = 0")
    case True
    with Suc.prems have "m < 10" "n < 10" by auto
    with Suc.prems True show ?thesis
      by (simp add: show_nat_pad_def pad0_def show_nat.simps [of m] show_nat.simps [of n]
          less_list_code digit_less_iff)
  next
    case False
    then have w: "0 < w" by simp
    have lt: "m div 10 < 10 ^ w" "n div 10 < 10 ^ w"
      using Suc.prems by simp_all
    then have len: "length (show_nat_pad w (m div 10)) = length (show_nat_pad w (n div 10))"
      using w by (simp add: length_show_nat_pad)
    show ?thesis
    proof (cases "m div 10 = n div 10")
      case True
      then have "m mod 10 < n mod 10"
        using Suc.prems(1) by (metis div_mult_mod_eq nat_add_left_cancel_less)
      with True show ?thesis
        by (simp add: show_nat_pad_Suc w less_list_code digit_less_iff)
    next
      case False
      with Suc.prems have "m div 10 < n div 10"
        by (simp add: div_le_mono le_neq_implies_less)
      then have "show_nat_pad w (m div 10) < show_nat_pad w (n div 10)"
        using lt w by (intro Suc.IH) simp_all
      with len show ?thesis
        by (simp add: show_nat_pad_Suc w list_less_append_le)
    qed
  qed
qed simp

lemma show_nat_pad_inj:
  "show_nat_pad w m = show_nat_pad w n \<Longrightarrow> m = n"
  by (metis option.inject parse_digits_pad)

text \<open>Numerals and words hold no separators.\<close>

lemma is_digit_not_sep [simp]:
  "is_digit c \<Longrightarrow> c \<noteq> CHR ''-''" "is_digit c \<Longrightarrow> c \<noteq> CHR ''/''" "is_digit c \<Longrightarrow> c \<noteq> CHR '':''"
  "is_digit c \<Longrightarrow> c \<noteq> CHR ''.''" "is_digit c \<Longrightarrow> c \<noteq> CHR ''o''"
  by (auto simp: is_digit_def)

lemma show_nat_pad_sep [simp, str_simps]:
  "CHR ''-'' \<notin> set (show_nat_pad w n)" "CHR ''/'' \<notin> set (show_nat_pad w n)"
  "CHR '':'' \<notin> set (show_nat_pad w n)" "CHR ''.'' \<notin> set (show_nat_pad w n)"
  using show_nat_pad_digits is_digit_not_sep by blast+

lemma show_nat_sep [simp, str_simps]:
  "CHR ''-'' \<notin> set (show_nat n)" "CHR ''/'' \<notin> set (show_nat n)"
  "CHR '':'' \<notin> set (show_nat n)" "CHR ''.'' \<notin> set (show_nat n)"
  unfolding show_nat_eq_pad by simp_all

lemma show_nat_inj: "show_nat m = show_nat n \<Longrightarrow> m = n"
  unfolding show_nat_eq_pad by (rule show_nat_pad_inj)

text \<open>The first separator splits a string in one way only.\<close>

lemma sep_split:
  "d \<notin> set a \<Longrightarrow> d \<notin> set b \<Longrightarrow> a @ d # x = b @ d # y \<longleftrightarrow> a = b \<and> x = y"
  by (induction a arbitrary: b; case_tac b; auto)

section \<open>Encodings\<close>

text \<open>
  An encoding with a decoder that inverts it on a domain. Interpreted on the serial sequence and on
  the object keys of \<open>naming.rs\<close>.
\<close>

locale codec =
  fixes valid :: "'a \<Rightarrow> bool" and enc :: "'a \<Rightarrow> 'b" and dec :: "'b \<Rightarrow> 'a option"
  assumes dec_enc: "valid x \<Longrightarrow> dec (enc x) = Some x"
begin

lemma enc_inj: "valid x \<Longrightarrow> valid y \<Longrightarrow> enc x = enc y \<Longrightarrow> x = y"
  using dec_enc by (metis option.inject)

lemma inj_on_enc: "inj_on enc {x. valid x}"
  by (auto intro: inj_onI enc_inj)

lemma decode_all: "list_all valid xs \<Longrightarrow> map (dec \<circ> enc) xs = map Some xs"
  by (induction xs) (auto simp: dec_enc)

lemma distinct_enc: "list_all valid xs \<Longrightarrow> distinct (map enc xs) \<longleftrightarrow> distinct xs"
  by (auto simp: distinct_map list_all_iff intro: inj_onI enc_inj)

end

text \<open>An encoding that carries an order key: the code sorts by the encoding and means the key.\<close>

locale ordered_codec = codec valid enc dec
  for valid :: "'a \<Rightarrow> bool" and enc :: "'a \<Rightarrow> 'b::linorder" and dec :: "'b \<Rightarrow> 'a option" +
  fixes key :: "'a \<Rightarrow> 'k::linorder"
  assumes enc_mono: "valid x \<Longrightarrow> valid y \<Longrightarrow> key x < key y \<Longrightarrow> enc x < enc y"
begin

lemma enc_less_iff:
  "valid x \<Longrightarrow> valid y \<Longrightarrow> key x \<noteq> key y \<Longrightarrow> enc x < enc y \<longleftrightarrow> key x < key y"
  using enc_mono by (metis less_asym linorder_neqE)

lemma sorted_enc_iff:
  "list_all valid xs \<Longrightarrow> distinct (map key xs) \<Longrightarrow>
     sorted (map enc xs) \<longleftrightarrow> sorted (map key xs)"
proof (induction xs)
  case (Cons x xs)
  have "enc x \<le> enc y \<longleftrightarrow> key x \<le> key y" if "y \<in> set xs" for y
  proof -
    have "valid x" "valid y" "key x \<noteq> key y"
      using Cons.prems that by (auto simp: list_all_iff)
    then show ?thesis
      using enc_mono [of x y] enc_mono [of y x] by (cases "key x" "key y" rule: linorder_cases) auto
  qed
  with Cons show ?case by simp
qed simp

end

section \<open>Machines\<close>

text \<open>
  A deterministic machine whose nondeterminism is in the events it is fed. An invariant that every
  event keeps holds after every run, and a relation every event respects (a preorder) relates the
  states before and after every run.
\<close>

locale machine =
  fixes step :: "'l \<Rightarrow> 's \<Rightarrow> 's" and inv :: "'s \<Rightarrow> bool" and grows :: "'s \<Rightarrow> 's \<Rightarrow> bool"
  assumes inv_step: "inv s \<Longrightarrow> inv (step l s)"
    and grows_refl: "grows s s"
    and grows_trans: "grows s t \<Longrightarrow> grows t u \<Longrightarrow> grows s u"
    and grows_step: "inv s \<Longrightarrow> grows s (step l s)"
begin

lemma inv_run: "inv s \<Longrightarrow> inv (fold step ls s)"
  by (induction ls arbitrary: s) (auto simp: inv_step)

lemma grows_run: "inv s \<Longrightarrow> grows s (fold step ls s)"
proof (induction ls arbitrary: s)
  case (Cons l ls)
  have "grows (step l s) (fold step ls (step l s))"
    using Cons by (simp add: inv_step)
  with grows_step [OF Cons.prems] show ?case by (auto intro: grows_trans)
qed (simp add: grows_refl)

end

text \<open>
  The same with a guard: an event is taken only where the environment can produce it. The states a
  guarded machine reaches from a start.
\<close>

inductive reach :: "('l \<Rightarrow> 's \<Rightarrow> 's) \<Rightarrow> ('l \<Rightarrow> 's \<Rightarrow> bool) \<Rightarrow> 's \<Rightarrow> 's \<Rightarrow> bool"
  for step :: "'l \<Rightarrow> 's \<Rightarrow> 's" and allowed :: "'l \<Rightarrow> 's \<Rightarrow> bool" and s0 :: 's
where
  reach_refl: "reach step allowed s0 s0"
| reach_step: "reach step allowed s0 s \<Longrightarrow> allowed l s \<Longrightarrow> reach step allowed s0 (step l s)"

lemma reach_trans:
  "reach step allowed t u \<Longrightarrow> reach step allowed s t \<Longrightarrow> reach step allowed s u"
  by (induction rule: reach.induct) (auto intro: reach_step)

lemma reach_mono:
  "reach step G s t \<Longrightarrow> (\<And>l u. G l u \<Longrightarrow> H l u) \<Longrightarrow> reach step H s t"
  by (induction rule: reach.induct) (auto intro: reach.intros)

locale guarded_machine =
  fixes step :: "'l \<Rightarrow> 's \<Rightarrow> 's" and allowed :: "'l \<Rightarrow> 's \<Rightarrow> bool" and inv :: "'s \<Rightarrow> bool"
    and grows :: "'s \<Rightarrow> 's \<Rightarrow> bool"
  assumes inv_guarded: "inv s \<Longrightarrow> allowed l s \<Longrightarrow> inv (step l s)"
    and grows_id: "grows s s"
    and grows_comp: "grows s t \<Longrightarrow> grows t u \<Longrightarrow> grows s u"
    and grows_guarded: "inv s \<Longrightarrow> allowed l s \<Longrightarrow> grows s (step l s)"
begin

lemma inv_reach: "reach step allowed s0 s \<Longrightarrow> inv s0 \<Longrightarrow> inv s"
  by (induction rule: reach.induct) (auto simp: inv_guarded)

lemma grows_reach: "reach step allowed s0 s \<Longrightarrow> inv s0 \<Longrightarrow> grows s0 s"
  by (induction rule: reach.induct) (auto intro: grows_id grows_comp grows_guarded inv_reach)

end

text \<open>
  A concrete machine that follows an abstract one: \<open>event\<close> names the abstract event, if any, that a concrete
  event is in a state, and related states stay related.
\<close>

definition after :: "('m \<Rightarrow> 'a \<Rightarrow> 'a) \<Rightarrow> 'm option \<Rightarrow> 'a \<Rightarrow> 'a" where
  "after step e a = (case e of None \<Rightarrow> a | Some ev \<Rightarrow> step ev a)"

lemma after_simps [simp]: "after step None a = a" "after step (Some ev) a = step ev a"
  by (simp_all add: after_def)

locale simulation =
  fixes cstep :: "'l \<Rightarrow> 'c \<Rightarrow> 'c" and callowed :: "'l \<Rightarrow> 'c \<Rightarrow> bool"
    and astep :: "'m \<Rightarrow> 'a \<Rightarrow> 'a" and aallowed :: "'m \<Rightarrow> 'a \<Rightarrow> bool"
    and ainv :: "'a \<Rightarrow> bool" and rel :: "'c \<Rightarrow> 'a \<Rightarrow> bool" and event :: "'l \<Rightarrow> 'c \<Rightarrow> 'm option"
  assumes ainv_event: "ainv a \<Longrightarrow> aallowed e a \<Longrightarrow> ainv (astep e a)"
    and rel_event: "rel s a \<Longrightarrow> ainv a \<Longrightarrow> callowed l s \<Longrightarrow>
      rel (cstep l s) (after astep (event l s) a) \<and> (\<forall>e. event l s = Some e \<longrightarrow> aallowed e a)"
begin

lemma rel_after:
  assumes "rel s a" and "ainv a" and "callowed l s"
  shows "rel (cstep l s) (after astep (event l s) a)" and "ainv (after astep (event l s) a)"
    and "reach astep aallowed a (after astep (event l s) a)"
  using rel_event [OF assms] assms(2) ainv_event
  by (cases "event l s"; auto intro: reach.intros)+

lemma rel_reach:
  "reach cstep callowed s0 s \<Longrightarrow> rel s0 a0 \<Longrightarrow> ainv a0 \<Longrightarrow>
     \<exists>a. reach astep aallowed a0 a \<and> rel s a \<and> ainv a"
proof (induction rule: reach.induct)
  case reach_refl
  then show ?case by (blast intro: reach.reach_refl)
next
  case (reach_step s l)
  then obtain a where a: "reach astep aallowed a0 a" "rel s a" "ainv a" by blast
  from rel_after [OF a(2,3) reach_step.hyps(2)] reach_trans [OF _ a(1)] show ?case by blast
qed

text \<open>What the relation implies holds in every state the concrete machine reaches.\<close>

lemma rel_invariant:
  "(\<And>s a. rel s a \<Longrightarrow> ainv a \<Longrightarrow> P s) \<Longrightarrow> reach cstep callowed s0 s \<Longrightarrow> rel s0 a0 \<Longrightarrow> ainv a0 \<Longrightarrow> P s"
  using rel_reach by blast

end

sublocale machine \<subseteq> free: guarded_machine step "\<lambda>_ _. True" inv grows
  by unfold_locales (auto simp: inv_step grows_step intro: grows_refl grows_trans)

end
