(* ===== verification/Ingest_Text.thy ===== *)
theory Ingest_Text
  imports Ingest_Prelude
begin

text \<open>
  Text utilities of the Rust standard library beyond the prelude: searching, white space and
  \<open>trim\<close>, ASCII case, hexadecimal output, the \<open>Debug\<close> form of a \<open>Duration\<close>, and the tree a
  \<open>debug_struct\<close> formatter walks.
\<close>

section \<open>Searching\<close>

text \<open>\<open>str::find\<close> for a pattern string: the byte offset of its first occurrence.\<close>

fun find_sub :: "string \<Rightarrow> string \<Rightarrow> nat option" where
  "find_sub p [] = (if p = [] then Some 0 else None)"
| "find_sub p (c # cs) =
     (if starts_with p (c # cs) then Some 0 else map_option Suc (find_sub p cs))"

lemma find_sub_Some:
  "find_sub p s = Some i \<Longrightarrow> \<exists>r. s = take i s @ p @ r \<and> drop i s = p @ r \<and> i + length p \<le> length s"
proof (induction s arbitrary: i)
  case (Cons c cs)
  show ?case
  proof (cases "starts_with p (c # cs)")
    case True
    with Cons.prems show ?thesis
      by (auto simp: starts_with_iff prefix_def dest: arg_cong [where f = length])
  next
    case False
    with Cons.prems obtain j where j: "find_sub p cs = Some j" "i = Suc j" by auto
    from Cons.IH [OF j(1)] obtain r where r: "cs = take j cs @ p @ r" "drop j cs = p @ r"
      "j + length p \<le> length cs" by blast
    then show ?thesis using j(2) by auto
  qed
qed (auto split: if_splits)

lemma find_sub_None: "find_sub p s = None \<longleftrightarrow> \<not> sublist p s"
  by (induction s) (auto simp: starts_with_iff sublist_Cons_right)

lemma find_sub_le: "find_sub p s = Some i \<Longrightarrow> i + length p \<le> length s"
  using find_sub_Some by blast

text \<open>\<open>str::find\<close> for a character predicate, on scalar values; the offset is in bytes.\<close>

fun find_char_in :: "(string \<Rightarrow> bool) \<Rightarrow> string list \<Rightarrow> nat option" where
  "find_char_in P [] = None"
| "find_char_in P (ch # chs) =
     (if P ch then Some 0 else map_option (\<lambda>i. length ch + i) (find_char_in P chs))"

definition find_char :: "(string \<Rightarrow> bool) \<Rightarrow> string \<Rightarrow> nat option" where
  "find_char P s = find_char_in P (chars s)"

lemma find_char_in_le: "find_char_in P chs = Some i \<Longrightarrow> i \<le> length (concat chs)"
  by (induction chs arbitrary: i) (auto split: if_splits)

lemma find_char_le: "find_char P s = Some i \<Longrightarrow> i \<le> length s"
  using find_char_in_le [of P "chars s" i] by (simp add: find_char_def)

lemma chars_append:
  "b = [] \<or> \<not> is_cont (hd b) \<Longrightarrow> chars (a @ b) = chars a @ chars b"
proof (induction a rule: chars.induct)
  case (2 c cs)
  have "takeWhile is_cont (cs @ b) = takeWhile is_cont cs \<and>
      dropWhile is_cont (cs @ b) = dropWhile is_cont cs @ b"
    using "2.prems" by (induction cs) (cases b; auto)+
  with 2 show ?case by simp
qed simp

lemma find_char_append:
  assumes "\<forall>ch \<in> set (chars a). \<not> P ch" and "\<not> is_cont c" and "P (c # takeWhile is_cont cs)"
  shows "find_char P (a @ c # cs) = Some (length a)"
proof -
  have "find_char_in P (chs @ (c # takeWhile is_cont cs) # r) = Some (length (concat chs))"
    if "\<forall>ch \<in> set chs. \<not> P ch" for chs r
    using that assms(3) by (induction chs) auto
  from this [of "chars a" "chars (dropWhile is_cont cs)"] show ?thesis
    using assms by (simp add: find_char_def chars_append)
qed

text \<open>The first occurrence of a pattern that ends in a character it holds only there.\<close>

lemma find_sub_unbordered:
  assumes "\<not> sublist (p @ [e]) a" and "e \<notin> set p"
  shows "find_sub (p @ [e]) (a @ p @ e # b) = Some (length a)"
  using assms(1)
proof (induction a)
  case Nil
  have "starts_with (p @ [e]) (p @ e # b)"
    by (simp add: starts_with_iff prefix_def)
  then show ?case by (cases p) auto
next
  case (Cons c cs)
  have "\<not> starts_with (p @ [e]) ((c # cs) @ p @ e # b)"
  proof
    assume "starts_with (p @ [e]) ((c # cs) @ p @ e # b)"
    then have pr: "prefix (p @ [e]) ((c # cs) @ p @ e # b)" by (simp add: starts_with_iff)
    show False
    proof (cases "length p < length (c # cs)")
      case True
      with pr have "prefix (p @ [e]) (c # cs)"
        by (metis Suc_leI length_append_singleton prefix_length_prefix prefixI)
      with Cons.prems show False by (meson prefix_imp_sublist)
    next
      case False
      from pr have "((c # cs) @ p @ e # b) ! length p = e"
        by (metis nth_append_length prefix_def append.assoc append_Cons)
      moreover have "((c # cs) @ p @ e # b) ! length p = p ! (length p - length (c # cs))"
        using False by (simp only: nth_append) (auto simp: nth_append)
      moreover have "p ! (length p - length (c # cs)) \<in> set p"
        using False by (intro nth_mem) auto
      ultimately show False using assms(2) by simp
    qed
  qed
  moreover have "\<not> sublist (p @ [e]) cs"
    using Cons.prems by (simp add: sublist_Cons_right)
  ultimately show ?case using Cons.IH by simp
qed

section \<open>Case and white space\<close>

definition ascii_lower :: "char \<Rightarrow> char" where
  "ascii_lower c = (if CHR ''A'' \<le> c \<and> c \<le> CHR ''Z'' then char_of (of_char c + (32 :: nat)) else c)"

definition to_ascii_lowercase :: "string \<Rightarrow> string" where
  "to_ascii_lowercase s = map ascii_lower s"

lemma length_lower [simp]: "length (to_ascii_lowercase s) = length s"
  by (simp add: to_ascii_lowercase_def)

text \<open>\<open>char::is_whitespace\<close>, the Unicode property \<open>White_Space\<close>, on the UTF-8 bytes of a scalar.\<close>

definition is_whitespace :: "string \<Rightarrow> bool" where
  "is_whitespace ch \<longleftrightarrow>
     (case map of_char ch of
        [b] \<Rightarrow> (9 \<le> b \<and> b \<le> 13) \<or> b = (32 :: nat)
      | [a, b] \<Rightarrow> a = 0xC2 \<and> (b = 0x85 \<or> b = 0xA0)
      | [a, b, c] \<Rightarrow>
          (a = 0xE1 \<and> b = 0x9A \<and> c = 0x80)
        \<or> (a = 0xE2 \<and> b = 0x80 \<and> (c \<le> 0x8A \<or> c = 0xA8 \<or> c = 0xA9 \<or> c = 0xAF))
        \<or> (a = 0xE2 \<and> b = 0x81 \<and> c = 0x9F)
        \<or> (a = 0xE3 \<and> b = 0x80 \<and> c = 0x80)
      | _ \<Rightarrow> False)"

definition trim :: "string \<Rightarrow> string" where
  "trim s = concat (rev (dropWhile is_whitespace (rev (dropWhile is_whitespace (chars s)))))"

section \<open>Hexadecimal and durations\<close>

definition hex_digit :: "nat \<Rightarrow> char" where
  "hex_digit d = (if d < 10 then char_of (48 + d) else char_of (87 + d))"

fun hex_digits :: "nat \<Rightarrow> nat \<Rightarrow> string" where
  "hex_digits 0 n = []"
| "hex_digits (Suc w) n = hex_digits w (n div 16) @ [hex_digit (n mod 16)]"

lemma length_hex_digits [simp]: "length (hex_digits w n) = w"
  by (induction w arbitrary: n) simp_all

text \<open>
  \<open>{:?}\<close> of a \<open>Duration\<close>: the largest unit that leaves a non-zero integer part, the fraction without
  trailing zeros.
\<close>

definition show_fraction :: "nat \<Rightarrow> nat \<Rightarrow> string" where
  "show_fraction w f =
     (if f = 0 then [] else CHR ''.'' # rev (dropWhile (\<lambda>c. c = CHR ''0'') (rev (show_nat_pad w f))))"

definition show_duration :: "duration \<Rightarrow> string" where
  "show_duration d =
     (let n = nanos d in
      if n \<ge> 1000000000 then show_nat (n div 1000000000) @ show_fraction 9 (n mod 1000000000) @ ''s''
      else if n \<ge> 1000000 then show_nat (n div 1000000) @ show_fraction 6 (n mod 1000000) @ ''ms''
      else if n \<ge> 1000 then
        show_nat (n div 1000) @ show_fraction 3 (n mod 1000) @ [CHR 0xC2, CHR 0xB5, CHR ''s'']
      else show_nat n @ ''ns'')"

section \<open>What \<open>debug_struct\<close> prints\<close>

text \<open>The tree of names and values handed to the formatter; layout and escapes are the library's.\<close>

datatype debug_value =
    DbgStr string
  | DbgNum int
  | DbgBool bool
  | DbgChar string
  | DbgDuration duration
  | DbgNone
  | DbgSome debug_value
  | DbgUnit string
  | DbgTuple string "debug_value list"
  | DbgStruct string "(string \<times> debug_value) list"

text \<open>The strings of a tree, in order: the only texts of the data that can reach a log.\<close>

fun dbg_opt :: "('a \<Rightarrow> debug_value) \<Rightarrow> 'a option \<Rightarrow> debug_value" where
  "dbg_opt f None = DbgNone"
| "dbg_opt f (Some x) = DbgSome (f x)"

fun dbg_strings :: "debug_value \<Rightarrow> string list" where
  "dbg_strings (DbgStr s) = [s]"
| "dbg_strings (DbgNum i) = []"
| "dbg_strings (DbgBool b) = []"
| "dbg_strings (DbgChar c) = [c]"
| "dbg_strings (DbgDuration d) = []"
| "dbg_strings DbgNone = []"
| "dbg_strings (DbgSome v) = dbg_strings v"
| "dbg_strings (DbgUnit n) = []"
| "dbg_strings (DbgTuple n vs) = concat (map dbg_strings vs)"
| "dbg_strings (DbgStruct n fs) = concat (map (\<lambda>f. dbg_strings (snd f)) fs)"

end
