(* ===== verification/Ingest_Error.thy ===== *)
theory Ingest_Error
  imports Ingest_Prelude
begin

text \<open>
  The error taxonomy of \<open>src/error.rs\<close>: one constructor per variant, the \<open>Display\<close> text
  that callers, alarms and progress entries carry, and the classification of input errors.
  \<open>opendal::Error\<close> and \<open>tokio_postgres::Error\<close> are foreign: the model keeps what the
  crate reads of them, the storage error's kind and text, and the database error's server part
  (SQLSTATE, message, hint) and text. The \<open>Injected\<close> variant exists only in a
  \<open>failpoints\<close> build and is left out.
\<close>

datatype storage_kind = NotFound | PermissionDenied | OtherKind string

datatype storage_error = StorageError (storage_kind: storage_kind) (storage_text: string)

datatype sqlstate = UNIQUE_VIOLATION | EXCLUSION_VIOLATION | UNDEFINED_FUNCTION
  | INSUFFICIENT_PRIVILEGE | OtherState string

record db_error =
  db_code :: sqlstate
  db_message :: string
  db_hint :: "string option"

datatype pg_error = PgError (as_db_error: "db_error option") (pg_text: string)

definition describe_db_error :: "pg_error \<Rightarrow> string" where
  "describe_db_error e =
     (case as_db_error e of
        Some db \<Rightarrow>
          (case db_hint db of
             Some hint \<Rightarrow> db_message db @ '' (hint: '' @ hint @ '')''
           | None \<Rightarrow> db_message db)
      | None \<Rightarrow> pg_text e)"

datatype error =
    Schema string
  | UnsupportedType string string
  | Naming string
  | SerialContractViolation string
  | WriterLocked string
  | WriterFenced string
  | Storage storage_error
  | StagingStalled u32 string
  | RotationFailed string error
  | StagingOrderViolation string
  | Database pg_error
  | Config string
  | WriterClosed

text \<open>The \<open>#[error(\<dots>)]\<close> attributes.\<close>

fun display :: "error \<Rightarrow> string" where
  "display (Schema m) = ''schema error: '' @ m"
| "display (UnsupportedType column data_type) =
     ''unsupported arrow type for column `'' @ column @ ''`: '' @ data_type"
| "display (Naming m) = ''naming error: '' @ m"
| "display (SerialContractViolation m) = ''serial contract violation: '' @ m"
| "display (WriterLocked m) = ''writer is locked: '' @ m"
| "display (WriterFenced m) = ''writer was fenced: '' @ m"
| "display (Storage e) = ''staging storage error: '' @ storage_text e"
| "display (StagingStalled attempts last_error) =
     ''staging the current file has failed '' @ show_nat (unat attempts)
       @ '' time(s) and is still being retried; last error: '' @ last_error"
| "display (RotationFailed stage source) =
     ''rotation cannot proceed: '' @ stage @ '' of the current file keeps failing with: ''
       @ display source"
| "display (StagingOrderViolation m) = ''staging order violation: '' @ m"
| "display (Database e) = ''relyt control connection error: '' @ describe_db_error e"
| "display (Config m) = ''configuration error: '' @ m"
| "display WriterClosed = ''writer closed''"

definition is_input_error :: "error \<Rightarrow> bool" where
  "is_input_error e \<longleftrightarrow>
     (case e of Config _ \<Rightarrow> True | Schema _ \<Rightarrow> True | UnsupportedType _ _ \<Rightarrow> True
      | Naming _ \<Rightarrow> True | _ \<Rightarrow> False)"

text \<open>
  \<open>log_input_error\<close> returns the error it was given; what it does beside that is one log
  record (operation and error) for input errors, kept here as the first component.
\<close>

definition log_input_error :: "string \<Rightarrow> error \<Rightarrow> (string \<times> error) list \<times> error" where
  "log_input_error op e = (if is_input_error e then [(op, e)] else [], e)"

type_synonym 'a result = "error + 'a"

end
