(* ===== verification/Arrow_Data.thy ===== *)
theory Arrow_Data
  imports Ingest_Text Ingest_Error
begin

text \<open>
  The Arrow data the crate reads: types, arrays as lists of optional values, schemas and record
  batches (crates \<open>arrow-schema\<close> and \<open>arrow-array\<close>). Only what the code uses of them is kept: the
  type, the values and their validity, the length. Integers are the values an array of the width can
  hold, floats their bits, strings and binaries their bytes. The \<open>Debug\<close> text of a type is the
  library's: functions that print it take it as the argument \<open>dbg\<close>.
\<close>

datatype time_unit = Second | Millisecond | Microsecond | Nanosecond

datatype data_type =
    Boolean | Int8 | Int16 | Int32 | Int64 | Float32 | Float64
  | Utf8 | LargeUtf8 | Date32
  | Timestamp time_unit "string option"
  | Decimal128 nat int
  | Binary | LargeBinary
  | OtherType string

datatype array =
    BooleanArray "bool option list"
  | Int8Array "int option list"
  | Int16Array "int option list"
  | Int32Array "int option list"
  | Int64Array "int option list"
  | Float32Array "32 word option list"
  | Float64Array "64 word option list"
  | StringArray "string option list"
  | LargeStringArray "string option list"
  | Date32Array "int option list"
  | TimestampArray time_unit "string option" "int option list"
  | Decimal128Array nat int "int option list"
  | BinaryArray "string option list"
  | LargeBinaryArray "string option list"
  | OtherArray string "bool list"

fun array_type :: "array \<Rightarrow> data_type" where
  "array_type (BooleanArray _) = Boolean"
| "array_type (Int8Array _) = Int8"
| "array_type (Int16Array _) = Int16"
| "array_type (Int32Array _) = Int32"
| "array_type (Int64Array _) = Int64"
| "array_type (Float32Array _) = Float32"
| "array_type (Float64Array _) = Float64"
| "array_type (StringArray _) = Utf8"
| "array_type (LargeStringArray _) = LargeUtf8"
| "array_type (Date32Array _) = Date32"
| "array_type (TimestampArray u tz _) = Timestamp u tz"
| "array_type (Decimal128Array p s _) = Decimal128 p s"
| "array_type (BinaryArray _) = Binary"
| "array_type (LargeBinaryArray _) = LargeBinary"
| "array_type (OtherArray n _) = OtherType n"

text \<open>Validity per row, and with it the length of the array.\<close>

fun array_valid :: "array \<Rightarrow> bool list" where
  "array_valid (BooleanArray xs) = map (\<lambda>x. x \<noteq> None) xs"
| "array_valid (Int8Array xs) = map (\<lambda>x. x \<noteq> None) xs"
| "array_valid (Int16Array xs) = map (\<lambda>x. x \<noteq> None) xs"
| "array_valid (Int32Array xs) = map (\<lambda>x. x \<noteq> None) xs"
| "array_valid (Int64Array xs) = map (\<lambda>x. x \<noteq> None) xs"
| "array_valid (Float32Array xs) = map (\<lambda>x. x \<noteq> None) xs"
| "array_valid (Float64Array xs) = map (\<lambda>x. x \<noteq> None) xs"
| "array_valid (StringArray xs) = map (\<lambda>x. x \<noteq> None) xs"
| "array_valid (LargeStringArray xs) = map (\<lambda>x. x \<noteq> None) xs"
| "array_valid (Date32Array xs) = map (\<lambda>x. x \<noteq> None) xs"
| "array_valid (TimestampArray _ _ xs) = map (\<lambda>x. x \<noteq> None) xs"
| "array_valid (Decimal128Array _ _ xs) = map (\<lambda>x. x \<noteq> None) xs"
| "array_valid (BinaryArray xs) = map (\<lambda>x. x \<noteq> None) xs"
| "array_valid (LargeBinaryArray xs) = map (\<lambda>x. x \<noteq> None) xs"
| "array_valid (OtherArray _ vs) = vs"

definition array_len :: "array \<Rightarrow> nat" where
  "array_len a = length (array_valid a)"

definition is_null :: "array \<Rightarrow> nat \<Rightarrow> bool" where
  "is_null a row \<longleftrightarrow> \<not> array_valid a ! row"

record field =
  field_name :: string
  field_type :: data_type
  nullable :: bool

type_synonym arrow_schema = "field list"

record record_batch =
  batch_schema :: arrow_schema
  columns :: "array list"
  num_rows :: nat

text \<open>What \<open>RecordBatch::try_new\<close> guarantees of a batch.\<close>

definition batch_ok :: "record_batch \<Rightarrow> bool" where
  "batch_ok b \<longleftrightarrow> map array_type (columns b) = map field_type (batch_schema b)
     \<and> (\<forall>a \<in> set (columns b). array_len a = num_rows b)"

definition is_supported_type :: "data_type \<Rightarrow> bool" where
  "is_supported_type dt \<longleftrightarrow>
     (case dt of
        Boolean \<Rightarrow> True | Int8 \<Rightarrow> True | Int16 \<Rightarrow> True | Int32 \<Rightarrow> True | Int64 \<Rightarrow> True
      | Float32 \<Rightarrow> True | Float64 \<Rightarrow> True | Utf8 \<Rightarrow> True | LargeUtf8 \<Rightarrow> True | Date32 \<Rightarrow> True
      | Timestamp u _ \<Rightarrow> u = Microsecond \<or> u = Millisecond
      | Decimal128 _ _ \<Rightarrow> True | Binary \<Rightarrow> True | LargeBinary \<Rightarrow> True
      | OtherType _ \<Rightarrow> False)"

end
