(* ===== verification/Csv_Format.thy ===== *)
theory Csv_Format
  imports Arrow_Data "HOL-Library.Signed_Division"
begin

text \<open>
  \<open>src/csv.rs\<close>: the CSV writer. Where the code pushes onto \<open>out\<close> the model returns what is pushed.
  The \<open>Display\<close> of floats is the argument \<open>ff\<close>.
\<close>

section \<open>Values\<close>

definition write_quoted :: "string \<Rightarrow> string" where
  "write_quoted v = [CHR 0x22] @ v @ [CHR 0x22]"

definition write_hex_bytea :: "string \<Rightarrow> string" where
  "write_hex_bytea bytes =
     [CHR 0x5C, CHR ''x''] @
     concat (map (\<lambda>b. [hex_digit (of_char b div 16), hex_digit (of_char b mod 16)]) bytes)"

definition quote_char :: "string \<Rightarrow> string" where
  "quote_char ch =
     (if ch = [CHR 0x00] then [] else if ch = [CHR 0x22] then [CHR 0x22, CHR 0x22] else ch)"

definition quote_into :: "string \<Rightarrow> string" where
  "quote_into v =
     [CHR 0x22] @
     (if CHR 0x22 \<notin> set v \<and> CHR 0x00 \<notin> set v then v else concat (map quote_char (chars v)))
     @ [CHR 0x22]"

text \<open>\<open>-scale\<close> on an \<open>i8\<close>, which wraps at the minimum.\<close>

definition neg_i8 :: "int \<Rightarrow> int" where
  "neg_i8 s = (if s = - 128 then - 128 else - s)"

text \<open>The digit loop fills its buffer from the end.\<close>

fun digit_loop :: "nat \<Rightarrow> string \<Rightarrow> string" where
  "digit_loop n acc = (if n > 0 then digit_loop (n div 10) (digit (n mod 10) # acc) else acc)"

declare digit_loop.simps [simp del]

definition write_decimal128 :: "i128 \<Rightarrow> int \<Rightarrow> string" where
  "write_decimal128 raw scale =
     (if scale \<le> 0 then show_int raw @ replicate (nat (neg_i8 scale)) CHR ''0''
      else
        let k = nat scale;
            sign = (if raw < 0 then ''-'' else []);
            n = nat (abs raw);
            digits = (if n > 0 then digit_loop n [] else ''0'')
        in if length digits > k then
             sign @ take (length digits - k) digits @ ''.'' @ drop (length digits - k) digits
           else sign @ ''0.'' @ replicate (k - length digits) CHR ''0'' @ digits)"

text \<open>
  The civil date of a day number. The signed quotient truncates, as Rust's \<open>/\<close> on \<open>i64\<close>; from \<open>doe\<close>
  on everything is unsigned.
\<close>

definition civil :: "int \<Rightarrow> int \<times> nat \<times> nat" where
  "civil days =
     (let z = days + 719468;
          era = (if z \<ge> 0 then z else z - 146096) sdiv 146097;
          doe = nat (z - era * 146097);
          yoe = (doe - doe div 1460 + doe div 36524 - doe div 146096) div 365;
          y = int yoe + era * 400;
          doy = doe - (365 * yoe + yoe div 4 - yoe div 100);
          mp = (5 * doy + 2) div 153;
          d = doy - (153 * mp + 2) div 5 + 1;
          m = (if mp < 10 then mp + 3 else mp - 9)
      in (if m \<le> 2 then y + 1 else y, m, d))"

definition write_date32 :: "int \<Rightarrow> string" where
  "write_date32 days =
     (let (y, m, d) = civil days
      in show_int_pad 4 y @ ''-'' @ show_nat_pad 2 m @ ''-'' @ show_nat_pad 2 d)"

text \<open>
  The trailing zeros of the fraction. The loop is entered with a non-zero fraction and keeps it so;
  the test for it here only makes the function total.
\<close>

fun trim_frac :: "nat \<Rightarrow> nat \<Rightarrow> nat \<times> nat" where
  "trim_frac frac width =
     (if frac \<noteq> 0 \<and> frac mod 10 = 0 then trim_frac (frac div 10) (width - 1) else (frac, width))"

declare trim_frac.simps [simp del]

definition wrap_i32 :: "int \<Rightarrow> int" where
  "wrap_i32 x = (x + 2 ^ 31) mod 2 ^ 32 - 2 ^ 31"

definition write_timestamp_micros :: "i64 \<Rightarrow> bool \<Rightarrow> string" where
  "write_timestamp_micros micros with_offset =
     (let days = micros div 86400000000;
          in_day = nat (micros mod 86400000000);
          secs = in_day div 1000000;
          frac = in_day mod 1000000
      in write_date32 (wrap_i32 days)
         @ '' '' @ show_nat_pad 2 (secs div 3600)
         @ '':'' @ show_nat_pad 2 (secs mod 3600 div 60)
         @ '':'' @ show_nat_pad 2 (secs mod 60)
         @ (if frac \<noteq> 0 then
              (let (f, w) = trim_frac frac 6 in ''.'' @ show_nat_pad w f)
            else [])
         @ (if with_offset then ''+00'' else []))"

section \<open>Columns and rows\<close>

datatype col =
    ColBool "bool option list"
  | ColI8 "int option list"
  | ColI16 "int option list"
  | ColI32 "int option list"
  | ColI64 "int option list"
  | ColF32 "32 word option list"
  | ColF64 "64 word option list"
  | ColStr "string option list"
  | ColLargeStr "string option list"
  | ColDate "int option list"
  | ColTsMicros "int option list" bool
  | ColTsMillis "int option list" bool
  | ColDecimal "int option list" int
  | ColBin "string option list"
  | ColLargeBin "string option list"

fun bind_col :: "(data_type \<Rightarrow> string) \<Rightarrow> array \<Rightarrow> string \<Rightarrow> col result" where
  "bind_col dbg (BooleanArray a) c = Inr (ColBool a)"
| "bind_col dbg (Int8Array a) c = Inr (ColI8 a)"
| "bind_col dbg (Int16Array a) c = Inr (ColI16 a)"
| "bind_col dbg (Int32Array a) c = Inr (ColI32 a)"
| "bind_col dbg (Int64Array a) c = Inr (ColI64 a)"
| "bind_col dbg (Float32Array a) c = Inr (ColF32 a)"
| "bind_col dbg (Float64Array a) c = Inr (ColF64 a)"
| "bind_col dbg (StringArray a) c = Inr (ColStr a)"
| "bind_col dbg (LargeStringArray a) c = Inr (ColLargeStr a)"
| "bind_col dbg (Date32Array a) c = Inr (ColDate a)"
| "bind_col dbg (TimestampArray Microsecond tz a) c = Inr (ColTsMicros a (tz \<noteq> None))"
| "bind_col dbg (TimestampArray Millisecond tz a) c = Inr (ColTsMillis a (tz \<noteq> None))"
| "bind_col dbg (Decimal128Array p scale a) c = Inr (ColDecimal a scale)"
| "bind_col dbg (BinaryArray a) c = Inr (ColBin a)"
| "bind_col dbg (LargeBinaryArray a) c = Inr (ColLargeBin a)"
| "bind_col dbg a c = Inl (UnsupportedType c (dbg (array_type a)))"

record float_format =
  show_f32 :: "32 word \<Rightarrow> string"
  show_f64 :: "64 word \<Rightarrow> string"

definition cell :: "('a \<Rightarrow> string) \<Rightarrow> 'a option list \<Rightarrow> nat \<Rightarrow> string" where
  "cell f a row = (case a ! row of None \<Rightarrow> [] | Some v \<Rightarrow> f v)"

fun write_cell :: "float_format \<Rightarrow> col \<Rightarrow> nat \<Rightarrow> string" where
  "write_cell ff (ColBool a) row =
     cell (\<lambda>v. if v then [CHR 0x22, CHR ''t'', CHR 0x22] else [CHR 0x22, CHR ''f'', CHR 0x22]) a row"
| "write_cell ff (ColI8 a) row = cell (\<lambda>v. write_quoted (show_int v)) a row"
| "write_cell ff (ColI16 a) row = cell (\<lambda>v. write_quoted (show_int v)) a row"
| "write_cell ff (ColI32 a) row = cell (\<lambda>v. write_quoted (show_int v)) a row"
| "write_cell ff (ColI64 a) row = cell (\<lambda>v. write_quoted (show_int v)) a row"
| "write_cell ff (ColF32 a) row = cell (\<lambda>v. write_quoted (show_f32 ff v)) a row"
| "write_cell ff (ColF64 a) row = cell (\<lambda>v. write_quoted (show_f64 ff v)) a row"
| "write_cell ff (ColStr a) row = cell quote_into a row"
| "write_cell ff (ColLargeStr a) row = cell quote_into a row"
| "write_cell ff (ColDate a) row = cell (\<lambda>v. [CHR 0x22] @ write_date32 v @ [CHR 0x22]) a row"
| "write_cell ff (ColTsMicros a tz) row =
     cell (\<lambda>v. [CHR 0x22] @ write_timestamp_micros v tz @ [CHR 0x22]) a row"
| "write_cell ff (ColTsMillis a tz) row =
     cell (\<lambda>v. [CHR 0x22] @ write_timestamp_micros (wrap_i64 (v * 1000)) tz @ [CHR 0x22]) a row"
| "write_cell ff (ColDecimal a scale) row =
     cell (\<lambda>v. [CHR 0x22] @ write_decimal128 v scale @ [CHR 0x22]) a row"
| "write_cell ff (ColBin a) row = cell (\<lambda>v. [CHR 0x22] @ write_hex_bytea v @ [CHR 0x22]) a row"
| "write_cell ff (ColLargeBin a) row = cell (\<lambda>v. [CHR 0x22] @ write_hex_bytea v @ [CHR 0x22]) a row"

definition csv_line :: "string \<Rightarrow> string list \<Rightarrow> string" where
  "csv_line delim cells = join_with delim cells @ [CHR 0x0A]"

definition header :: "string \<Rightarrow> string list \<Rightarrow> string" where
  "header delim names = csv_line delim (map quote_into names)"

definition format_rows ::
  "(data_type \<Rightarrow> string) \<Rightarrow> float_format \<Rightarrow> string \<Rightarrow> record_batch \<Rightarrow> nat list \<Rightarrow> string result" where
  "format_rows dbg ff delim batch rows =
     res_bind (res_all (\<lambda>(a, f). bind_col dbg a (field_name f)) (zip (columns batch) (batch_schema batch)))
       (\<lambda>cols. Inr (concat (map (\<lambda>row. csv_line delim (map (\<lambda>c. write_cell ff c row) cols)) rows)))"

end
