(* ===== verification/Config_Rules.thy ===== *)
theory Config_Rules
  imports Ingest_Text Ingest_Error
begin

text \<open>
  \<open>src/config.rs\<close>: the staging location and its checks, the classification of endpoints, the client
  configuration with its defaults and ranges, and what its \<open>Debug\<close> implementations let through
  (\<open>mask_dsn\<close>, and \<open>mask_secret\<close> of \<open>src/notify.rs\<close>).
\<close>

section \<open>Data\<close>

datatype stream_mode = Upsert | InsertOnly
datatype staging_service = Oss | S3
datatype staging_compression = Gzip | Plain

record staging_config =
  endpoint :: string
  bucket :: string
  key_prefix :: string
  access_key_id :: string
  secret_access_key :: string
  service :: staging_service
  region :: "string option"

datatype staging = Relyt | Customer staging_config

definition customer :: "staging \<Rightarrow> staging_config option" where
  "customer s = (case s of Relyt \<Rightarrow> None | Customer c \<Rightarrow> Some c)"

record csv_config =
  delimiter :: string

record client_config =
  cfg_staging :: staging
  control_dsn :: string
  rotate_size_bytes :: u64
  rotate_interval_max :: duration
  cfg_stream_mode :: stream_mode
  cfg_compression :: staging_compression
  cfg_cluster_id :: "string option"
  gc_interval :: duration
  gc_retain_days :: u32
  gc_retain_min_files :: nat
  lock_heartbeat_interval :: duration
  lock_lease_timeout :: duration
  retry_max :: "int option"
  csv :: csv_config
  staging_refresh_interval :: duration
  rotation_queue_depth :: nat
  staging_error_after_attempts :: u32
  lag_sample_interval :: duration
  state_heartbeat_interval :: duration
  bypass_range_checks :: bool

definition cluster_id_is_unset :: "string \<Rightarrow> bool" where
  "cluster_id_is_unset v \<longleftrightarrow> v = [] \<or> v = ''-1''"

section \<open>Endpoints\<close>

definition KNOWN_ENDPOINTS :: "(string \<times> string list \<times> staging_service) list" where
  "KNOWN_ENDPOINTS =
     [(''s3'', [''.amazonaws.com'', ''.amazonaws.com.cn''], S3),
      (''internal.s3'', [''.amazonaws.com'', ''.amazonaws.com.cn''], S3),
      (''oss'', [''.aliyuncs.com''], Oss),
      (''cos'', [''.myqcloud.com''], S3),
      (''ks3'', [''.ksyuncs.com''], S3),
      (''s3'', [''.ufileos.com''], S3),
      (''tos-s3'', [''.volces.com'', ''.ivolces.com''], S3)]"

text \<open>
  The loops over prefixes and suffixes: \<open>None\<close> is the \<open>continue\<close> of the code, \<open>Some r\<close> its
  \<open>return r\<close>. \<open>endpoint_region\<close> is the match on the text between prefix and suffix.
\<close>

definition region_char :: "char \<Rightarrow> bool" where
  "region_char b \<longleftrightarrow> is_ascii_alphanumeric b \<or> b = CHR ''-''"

definition endpoint_region :: "string \<Rightarrow> string option" where
  "endpoint_region middle =
     (case (case middle of
              [] \<Rightarrow> Some ''us-east-1''
            | m # ms \<Rightarrow> if m = CHR ''.'' \<or> m = CHR ''-'' then Some ms else None) of
        None \<Rightarrow> None
      | Some r \<Rightarrow> if r = [] \<or> \<not> list_all region_char r then None else Some r)"

fun match_suffixes ::
  "staging_service \<Rightarrow> string \<Rightarrow> string list \<Rightarrow> (staging_service \<times> string option) option option" where
  "match_suffixes sv after_prefix [] = None"
| "match_suffixes sv after_prefix (sx # sxs) =
     (case strip_suffix sx after_prefix of
        None \<Rightarrow> match_suffixes sv after_prefix sxs
      | Some middle \<Rightarrow>
          if sv = Oss then Some (Some (Oss, None))
          else (case endpoint_region middle of
                  None \<Rightarrow> Some None
                | Some r \<Rightarrow> Some (Some (sv, Some r))))"

fun match_endpoints ::
  "string \<Rightarrow> (string \<times> string list \<times> staging_service) list \<Rightarrow> (staging_service \<times> string option) option" where
  "match_endpoints host [] = None"
| "match_endpoints host ((px, sxs, sv) # rows) =
     (case strip_prefix px host of
        None \<Rightarrow> match_endpoints host rows
      | Some after_prefix \<Rightarrow>
          (case match_suffixes sv after_prefix sxs of
             None \<Rightarrow> match_endpoints host rows
           | Some r \<Rightarrow> r))"

definition endpoint_host :: "string \<Rightarrow> string" where
  "endpoint_host e =
     (let host = (case strip_prefix ''https://'' e of
                    Some h \<Rightarrow> h
                  | None \<Rightarrow> (case strip_prefix ''http://'' e of Some h \<Rightarrow> h | None \<Rightarrow> e))
      in (case rsplit_once CHR '':'' host of None \<Rightarrow> host | Some (h, _) \<Rightarrow> h))"

definition classify_endpoint :: "string \<Rightarrow> (staging_service \<times> string option) option" where
  "classify_endpoint e = match_endpoints (endpoint_host e) KNOWN_ENDPOINTS"

definition derive_region :: "string \<Rightarrow> string option" where
  "derive_region e = Option.bind (classify_endpoint e) snd"

definition resolve_region :: "staging_config \<Rightarrow> string option" where
  "resolve_region c =
     (case region c of Some r \<Rightarrow> Some r | None \<Rightarrow> derive_region (endpoint c))"

section \<open>Checks on a staging location\<close>

definition bad_credential_char :: "string \<Rightarrow> bool" where
  "bad_credential_char ch \<longleftrightarrow> ch = [CHR '',''] \<or> ch = [CHR 0x22]"

definition check_credential :: "string \<Rightarrow> string \<Rightarrow> unit result" where
  "check_credential name v =
     (if v = [] then Inl (Config (''staging '' @ name @ '' is empty''))
      else case find bad_credential_char (chars v) of
             Some bad \<Rightarrow> Inl (Config (''staging '' @ name @ '' contains `'' @ bad
                           @ ''`, which would corrupt the job options list''))
           | None \<Rightarrow> Inr ())"

definition msg_no_region :: "string \<Rightarrow> string" where
  "msg_no_region e =
     ''staging service is S3 but no region was given and none can be derived from endpoint `'' @ e
     @ ''`; set StagingConfig.region (S3-compatible stores like MinIO/R2 need it explicitly)''"

definition validate_staging :: "staging_config \<Rightarrow> unit result" where
  "validate_staging s =
     res_bind (check_credential ''access_key_id'' (access_key_id s)) (\<lambda>_.
     res_bind (check_credential ''secret_access_key'' (secret_access_key s)) (\<lambda>_.
       if bucket s = [] \<or> endpoint s = [] then Inl (Config ''staging bucket/endpoint must be set'')
       else if service s = S3 \<and> resolve_region s = None then Inl (Config (msg_no_region (endpoint s)))
       else Inr ()))"

section \<open>The client configuration\<close>

definition DEFAULT_ROTATE_SIZE :: u64 where "DEFAULT_ROTATE_SIZE = 64 * 1024 * 1024"
definition MAX_ROTATE_SIZE :: u64 where "MAX_ROTATE_SIZE = 512 * 1024 * 1024"
definition DEFAULT_ROTATE_INTERVAL :: duration where "DEFAULT_ROTATE_INTERVAL = from_secs 15"
definition DEFAULT_RETRY_MAX :: int where "DEFAULT_RETRY_MAX = 15"
definition DEFAULT_GC_INTERVAL :: duration where "DEFAULT_GC_INTERVAL = from_secs 3600"
definition DEFAULT_GC_RETAIN_DAYS :: u32 where "DEFAULT_GC_RETAIN_DAYS = 7"
definition DEFAULT_GC_RETAIN_MIN_FILES :: nat where "DEFAULT_GC_RETAIN_MIN_FILES = 50000"
definition DEFAULT_LOCK_HEARTBEAT :: duration where "DEFAULT_LOCK_HEARTBEAT = from_secs 30"
definition DEFAULT_LOCK_LEASE_TIMEOUT :: duration where "DEFAULT_LOCK_LEASE_TIMEOUT = from_secs 180"
definition DEFAULT_STAGING_REFRESH :: duration where "DEFAULT_STAGING_REFRESH = from_secs (5 * 60)"
definition DEFAULT_ROTATION_QUEUE_DEPTH :: nat where "DEFAULT_ROTATION_QUEUE_DEPTH = 3"
definition DEFAULT_STAGING_ERROR_AFTER_ATTEMPTS :: u32 where
  "DEFAULT_STAGING_ERROR_AFTER_ATTEMPTS = 3"

definition range_dur :: "string \<Rightarrow> duration \<Rightarrow> duration \<Rightarrow> duration \<Rightarrow> unit result" where
  "range_dur name v mn mx =
     (if v < mn \<or> v > mx then
        Inl (Config (name @ '' = '' @ show_duration v @ '' is outside the allowed range [''
          @ show_duration mn @ '', '' @ show_duration mx @ '']''))
      else Inr ())"

definition out_of_range :: "string \<Rightarrow> string \<Rightarrow> string \<Rightarrow> error" where
  "out_of_range name v rng = Config (name @ '' = '' @ v @ '' is outside the allowed range '' @ rng)"

definition msg_rotate_size :: "u64 \<Rightarrow> string" where
  "msg_rotate_size n =
     ''rotate_size_bytes = '' @ show_nat (unat n) @ '' exceeds the ''
     @ show_nat (unat MAX_ROTATE_SIZE div (1024 * 1024))
     @ ''MiB maximum: a rotation renders the whole file in memory and uploads it as one object ''
     @ ''(did you mean MB?)''"

definition msg_lease_timeout :: "duration \<Rightarrow> duration \<Rightarrow> string" where
  "msg_lease_timeout v lo =
     ''lock_lease_timeout = '' @ show_duration v
     @ '' is outside the allowed range                  [3 x lock_heartbeat_interval = ''
     @ show_duration lo @ '', 24h]''"

definition msg_retry_max :: "int \<Rightarrow> string" where
  "msg_retry_max n =
     ''retry_max = '' @ show_int n
     @ '' is negative; use retry_max = None for                      infinite server-side retries''"

definition validate_ranges :: "client_config \<Rightarrow> unit result" where
  "validate_ranges c =
     (if rotate_size_bytes c > MAX_ROTATE_SIZE then Inl (Config (msg_rotate_size (rotate_size_bytes c)))
      else
        res_bind (range_dur ''rotate_interval_max'' (rotate_interval_max c)
          (from_secs 1) (from_secs (6 * 3600))) (\<lambda>_.
        res_bind (range_dur ''gc_interval'' (gc_interval c)
          (from_secs (15 * 60)) (from_secs (7 * 24 * 3600))) (\<lambda>_.
        if \<not> (1 \<le> gc_retain_days c \<and> gc_retain_days c \<le> 365) then
          Inl (out_of_range ''gc_retain_days'' (show_nat (unat (gc_retain_days c))) ''[1, 365]'')
        else if \<not> (3 \<le> gc_retain_min_files c \<and> gc_retain_min_files c \<le> 1000000) then
          Inl (out_of_range ''gc_retain_min_files'' (show_nat (gc_retain_min_files c)) ''[3, 1000000]'')
        else
        res_bind (range_dur ''lock_heartbeat_interval'' (lock_heartbeat_interval c)
          (from_secs 1) (from_secs 600)) (\<lambda>_.
        res_bind (range_dur ''staging_refresh_interval'' (staging_refresh_interval c)
          (from_secs 30) (from_secs (24 * 3600))) (\<lambda>_.
        if \<not> (1 \<le> rotation_queue_depth c \<and> rotation_queue_depth c \<le> 16) then
          Inl (out_of_range ''rotation_queue_depth'' (show_nat (rotation_queue_depth c)) ''[1, 16]'')
        else if \<not> (1 \<le> staging_error_after_attempts c \<and> staging_error_after_attempts c \<le> 10000) then
          Inl (out_of_range ''staging_error_after_attempts''
            (show_nat (unat (staging_error_after_attempts c))) ''[1, 10000]'')
        else
          let lease_floor = dur_mul (lock_heartbeat_interval c) 3 in
          if lock_lease_timeout c < lease_floor \<or> lock_lease_timeout c > from_secs (24 * 3600) then
            Inl (Config (msg_lease_timeout (lock_lease_timeout c) lease_floor))
          else case retry_max c of
                 Some n \<Rightarrow> if n < 0 then Inl (Config (msg_retry_max n)) else Inr ()
               | None \<Rightarrow> Inr ())))))"

definition bad_delimiter :: "string \<Rightarrow> bool" where
  "bad_delimiter d \<longleftrightarrow> d = [CHR 0x22] \<or> d = [CHR 0x0A] \<or> d = [CHR 0x0D]"

definition validate :: "client_config \<Rightarrow> unit result" where
  "validate c =
     res_bind (case cfg_staging c of Customer s \<Rightarrow> validate_staging s | Relyt \<Rightarrow> Inr ()) (\<lambda>_.
       if bad_delimiter (delimiter (csv c)) then
         Inl (Config (''csv delimiter `'' @ delimiter (csv c)
           @ ''` collides with the quoting/record syntax''))
       else if rotate_size_bytes c = 0 then Inl (Config ''rotate_size_bytes must be > 0'')
       else if \<not> bypass_range_checks c then validate_ranges c
       else Inr ())"

definition with_staging :: "staging \<Rightarrow> string \<Rightarrow> client_config" where
  "with_staging s dsn =
     \<lparr>cfg_staging = s, control_dsn = dsn,
      rotate_size_bytes = DEFAULT_ROTATE_SIZE, rotate_interval_max = DEFAULT_ROTATE_INTERVAL,
      cfg_stream_mode = Upsert, cfg_compression = Gzip, cfg_cluster_id = None,
      gc_interval = DEFAULT_GC_INTERVAL, gc_retain_days = DEFAULT_GC_RETAIN_DAYS,
      gc_retain_min_files = DEFAULT_GC_RETAIN_MIN_FILES,
      lock_heartbeat_interval = DEFAULT_LOCK_HEARTBEAT,
      lock_lease_timeout = DEFAULT_LOCK_LEASE_TIMEOUT, retry_max = Some DEFAULT_RETRY_MAX,
      csv = \<lparr>delimiter = '',''\<rparr>, staging_refresh_interval = DEFAULT_STAGING_REFRESH,
      rotation_queue_depth = DEFAULT_ROTATION_QUEUE_DEPTH,
      staging_error_after_attempts = DEFAULT_STAGING_ERROR_AFTER_ATTEMPTS,
      lag_sample_interval = from_secs 30, state_heartbeat_interval = from_secs (4 * 3600),
      bypass_range_checks = False\<rparr>"

definition config_new :: "string \<Rightarrow> client_config" where
  "config_new dsn = with_staging Relyt dsn"

definition with_customer_staging :: "staging_config \<Rightarrow> string \<Rightarrow> client_config" where
  "with_customer_staging s dsn = with_staging (Customer s) dsn"

section \<open>What reaches a log\<close>

definition mask_secret :: "string \<Rightarrow> string" where
  "mask_secret v =
     (let n = length (chars v) in
      if n \<le> 8 then ''******''
      else let keep = (if n \<le> 15 then 2 else 3 :: nat)
           in concat (take keep (chars v)) @ ''***'' @ concat (drop (n - keep) (chars v)))"

text \<open>
  The quoted value of a key=value DSN, after its opening quote: the offset of the closing quote. The
  code walks scalar values; the quote and the backslash are ASCII, and no byte of a longer scalar
  equals them, so the walk over bytes finds the same offset.
\<close>

fun closing_quote :: "bool \<Rightarrow> string \<Rightarrow> nat option" where
  "closing_quote escaped [] = None"
| "closing_quote escaped (c # cs) =
     (if c = CHR 0x27 \<and> \<not> escaped then Some 0
      else map_option Suc (closing_quote (c = CHR 0x5C \<and> \<not> escaped) cs))"

definition password_value_len :: "string \<Rightarrow> nat" where
  "password_value_len v =
     (case strip_prefix [CHR 0x27] v of
        Some quoted \<Rightarrow>
          (case closing_quote False quoted of Some j \<Rightarrow> 1 + j + 1 | None \<Rightarrow> length v)
      | None \<Rightarrow> (case find_char is_whitespace v of Some k \<Rightarrow> k | None \<Rightarrow> length v))"

definition password_at :: "string \<Rightarrow> nat option" where
  "password_at rest = find_sub ''password='' (to_ascii_lowercase rest)"

lemma password_at_le: "password_at rest = Some i \<Longrightarrow> i + 9 \<le> length rest"
  unfolding password_at_def using find_sub_le [of "''password=''" "to_ascii_lowercase rest" i] by simp

function mask_passwords :: "string \<Rightarrow> string" where
  "mask_passwords rest =
     (case password_at rest of
        None \<Rightarrow> rest
      | Some i \<Rightarrow>
          let value = drop (i + 9) rest
          in take (i + 9) rest @ ''***'' @ mask_passwords (drop (password_value_len value) value))"
  by pat_completeness auto

termination
  by (relation "measure length") (auto dest: password_at_le)

declare mask_passwords.simps [simp del]

definition mask_dsn :: "string \<Rightarrow> string" where
  "mask_dsn dsn =
     (case find_sub ''://'' dsn of
        Some scheme_end \<Rightarrow>
          let rest = drop (scheme_end + 3) dsn
          in (case find_sub ''@'' rest of
                Some at \<Rightarrow>
                  (case find_sub '':'' (take at rest) of
                     Some colon \<Rightarrow>
                       take (scheme_end + 3) dsn @ take colon rest @ '':***'' @ drop at rest
                   | None \<Rightarrow> dsn)
              | None \<Rightarrow> dsn)
      | None \<Rightarrow> mask_passwords dsn)"

definition debug_service :: "staging_service \<Rightarrow> debug_value" where
  "debug_service s = DbgUnit (case s of Oss \<Rightarrow> ''Oss'' | S3 \<Rightarrow> ''S3'')"

definition debug_staging_config :: "staging_config \<Rightarrow> debug_value" where
  "debug_staging_config c =
     DbgStruct ''StagingConfig''
       [(''endpoint'', DbgStr (endpoint c)), (''bucket'', DbgStr (bucket c)),
        (''prefix'', DbgStr (key_prefix c)),
        (''access_key_id'', DbgStr (mask_secret (access_key_id c))),
        (''secret_access_key'', DbgStr (mask_secret (secret_access_key c))),
        (''service'', debug_service (service c)),
        (''region'', dbg_opt DbgStr (region c))]"

definition debug_staging :: "staging \<Rightarrow> debug_value" where
  "debug_staging s =
     (case s of Relyt \<Rightarrow> DbgUnit ''Relyt''
      | Customer c \<Rightarrow> DbgTuple ''Customer'' [debug_staging_config c])"

definition debug_client_config :: "client_config \<Rightarrow> debug_value" where
  "debug_client_config c =
     DbgStruct ''ClientConfig''
       [(''staging'', debug_staging (cfg_staging c)),
        (''control_dsn'', DbgStr (mask_dsn (control_dsn c))),
        (''rotate_size_bytes'', DbgNum (uint (rotate_size_bytes c))),
        (''rotate_interval_max'', DbgDuration (rotate_interval_max c)),
        (''stream_mode'', DbgUnit (case cfg_stream_mode c of Upsert \<Rightarrow> ''Upsert'' | InsertOnly \<Rightarrow> ''InsertOnly'')),
        (''staging_compression'', DbgUnit (case cfg_compression c of Gzip \<Rightarrow> ''Gzip'' | Plain \<Rightarrow> ''Plain'')),
        (''cluster_id'', dbg_opt DbgStr (cfg_cluster_id c)),
        (''gc_interval'', DbgDuration (gc_interval c)),
        (''gc_retain_days'', DbgNum (uint (gc_retain_days c))),
        (''gc_retain_min_files'', DbgNum (int (gc_retain_min_files c))),
        (''lock_heartbeat_interval'', DbgDuration (lock_heartbeat_interval c)),
        (''lock_lease_timeout'', DbgDuration (lock_lease_timeout c)),
        (''retry_max'', dbg_opt DbgNum (retry_max c)),
        (''csv'', DbgStruct ''CsvConfig'' [(''delimiter'', DbgChar (delimiter (csv c)))]),
        (''staging_refresh_interval'', DbgDuration (staging_refresh_interval c)),
        (''rotation_queue_depth'', DbgNum (int (rotation_queue_depth c))),
        (''staging_error_after_attempts'', DbgNum (uint (staging_error_after_attempts c))),
        (''lag_sample_interval'', DbgDuration (lag_sample_interval c)),
        (''state_heartbeat_interval'', DbgDuration (state_heartbeat_interval c)),
        (''bypass_range_checks'', DbgBool (bypass_range_checks c))]"

section \<open>The control connection\<close>

text \<open>
  \<open>tokio_postgres::Config\<close> is foreign: its parser is the parameter \<open>parse\<close>, of which the code uses
  the result, its \<open>application_name\<close> and the setter.
\<close>

record 'c pg_config_api =
  pg_parse :: "string \<Rightarrow> pg_error + 'c"
  pg_get_application_name :: "'c \<Rightarrow> string option"
  pg_set_application_name :: "string \<Rightarrow> 'c \<Rightarrow> 'c"

definition APPLICATION_NAME :: string where
  "APPLICATION_NAME = ''relyt-ingest/0.1.0''"

definition control_config :: "'c pg_config_api \<Rightarrow> string \<Rightarrow> 'c result" where
  "control_config api dsn =
     (case pg_parse api dsn of
        Inl e \<Rightarrow> Inl (Config (''control_dsn is not a valid tokio-postgres connection string: ''
                   @ describe_db_error e))
      | Inr cfg \<Rightarrow>
          Inr (if pg_get_application_name api cfg = None
               then pg_set_application_name api APPLICATION_NAME cfg else cfg))"

section \<open>Lemmas\<close>

lemma range_dur_Inr: "range_dur name v mn mx = Inr () \<longleftrightarrow> mn \<le> v \<and> v \<le> mx"
  by (auto simp: range_dur_def not_less)

lemma retry_check_Inr:
  "(case r of Some n \<Rightarrow> if n < 0 then Inl (e n) else Inr () | None \<Rightarrow> Inr ()) = Inr () \<longleftrightarrow>
     (\<forall>n. r = Some n \<longrightarrow> (0 :: int) \<le> n)"
  by (auto split: option.splits)

lemma validate_ranges_Inr:
  "validate_ranges c = Inr () \<longleftrightarrow>
     rotate_size_bytes c \<le> MAX_ROTATE_SIZE
   \<and> from_secs 1 \<le> rotate_interval_max c \<and> rotate_interval_max c \<le> from_secs (6 * 3600)
   \<and> from_secs (15 * 60) \<le> gc_interval c \<and> gc_interval c \<le> from_secs (7 * 24 * 3600)
   \<and> 1 \<le> gc_retain_days c \<and> gc_retain_days c \<le> 365
   \<and> 3 \<le> gc_retain_min_files c \<and> gc_retain_min_files c \<le> 1000000
   \<and> from_secs 1 \<le> lock_heartbeat_interval c \<and> lock_heartbeat_interval c \<le> from_secs 600
   \<and> from_secs 30 \<le> staging_refresh_interval c \<and> staging_refresh_interval c \<le> from_secs (24 * 3600)
   \<and> 1 \<le> rotation_queue_depth c \<and> rotation_queue_depth c \<le> 16
   \<and> 1 \<le> staging_error_after_attempts c \<and> staging_error_after_attempts c \<le> 10000
   \<and> dur_mul (lock_heartbeat_interval c) 3 \<le> lock_lease_timeout c
   \<and> lock_lease_timeout c \<le> from_secs (24 * 3600)
   \<and> (\<forall>n. retry_max c = Some n \<longrightarrow> 0 \<le> n)"
  by (simp only: validate_ranges_def Let_def check_simps range_dur_Inr retry_check_Inr not_less
      de_Morgan_disj not_not conj_assoc)

lemma validate_staging_Inr:
  "validate_staging s = Inr () \<longleftrightarrow>
     is_ok (check_credential ''access_key_id'' (access_key_id s)) \<and>
     is_ok (check_credential ''secret_access_key'' (secret_access_key s)) \<and>
     bucket s \<noteq> [] \<and> endpoint s \<noteq> [] \<and> (service s = S3 \<longrightarrow> resolve_region s \<noteq> None)"
  by (auto simp: validate_staging_def res_simps is_ok_iff)

lemma endpoint_region_Some:
  "endpoint_region mid = Some r \<longleftrightarrow>
     r \<noteq> [] \<and> list_all region_char r \<and>
     ((mid = [] \<and> r = ''us-east-1'') \<or> mid = CHR ''.'' # r \<or> mid = CHR ''-'' # r)"
  by (cases mid)
     (auto simp: endpoint_region_def region_char_def is_ascii_alphanumeric_def less_eq_char_def
       split: option.splits if_splits)

definition row_match ::
  "string \<Rightarrow> staging_service \<Rightarrow> string option \<Rightarrow> string \<Rightarrow> string list \<Rightarrow> bool" where
  "row_match host sv ro px sxs \<longleftrightarrow>
     (\<exists>sx \<in> set sxs. \<exists>mid. host = px @ mid @ sx \<and>
        (if sv = Oss then ro = None else \<exists>r. ro = Some r \<and> endpoint_region mid = Some r))"

lemma match_suffixes_sound:
  "match_suffixes sv ap sxs = Some (Some (sv', ro)) \<Longrightarrow> sv' = sv \<and> row_match (px @ ap) sv ro px sxs"
  by (induction sv ap sxs rule: match_suffixes.induct)
     (auto simp: row_match_def strip_suffix_Some split: option.splits if_splits)

lemma match_endpoints_sound:
  "match_endpoints host rows = Some (sv, ro) \<Longrightarrow>
     \<exists>px sxs. (px, sxs, sv) \<in> set rows \<and> row_match host sv ro px sxs"
proof (induction host rows rule: match_endpoints.induct)
  case (2 host px sxs sv' rows)
  show ?case
  proof (cases "strip_prefix px host")
    case None
    with 2 show ?thesis by auto
  next
    case (Some ap)
    then have h: "host = px @ ap" by (simp add: strip_prefix_Some)
    show ?thesis
    proof (cases "match_suffixes sv' ap sxs")
      case None
      with 2 Some show ?thesis by auto
    next
      case (Some r)
      with \<open>strip_prefix px host = Some ap\<close> "2.prems" have "r = Some (sv, ro)" by simp
      with Some match_suffixes_sound [of sv' ap sxs sv ro px] h show ?thesis by auto
    qed
  qed
qed simp

section \<open>Properties\<close>

lemma row_match_classified:
  assumes "(px, sxs, sv) \<in> set KNOWN_ENDPOINTS" and "row_match host sv ro px sxs"
  shows "match_endpoints host KNOWN_ENDPOINTS = Some (sv, ro)"
proof -
  from assms(2) obtain sx mid where "sx \<in> set sxs" "host = px @ mid @ sx"
    "if sv = Oss then ro = None else \<exists>r. ro = Some r \<and> endpoint_region mid = Some r"
    unfolding row_match_def by blast
  with assms(1) show ?thesis by (auto simp: KNOWN_ENDPOINTS_def strip_suffix_append strip_suffix_other)
qed

text \<open>
  C35. An endpoint is classified exactly by the table of known hosts, whatever the order of its rows: the
  answer is service and region just if the host, freed of scheme and port, is the prefix of a row with that
  service, a middle and one of the suffixes of the row, where OSS carries no region and otherwise the region is
  the non-empty \<open>[A-Za-z0-9-]\<close> text after the separator, or us-east-1 for no middle.
\<close>
theorem classify_endpoint_exact:
  "classify_endpoint e = Some (sv, ro) \<longleftrightarrow>
     (\<exists>px sxs mid sx. (px, sxs, sv) \<in> set KNOWN_ENDPOINTS \<and> sx \<in> set sxs \<and>
        endpoint_host e = px @ mid @ sx \<and>
        (if sv = Oss then ro = None
         else \<exists>r. ro = Some r \<and> r \<noteq> [] \<and> list_all region_char r \<and>
           ((mid = [] \<and> r = ''us-east-1'') \<or> mid = CHR ''.'' # r \<or> mid = CHR ''-'' # r)))"
  (is "_ \<longleftrightarrow> ?rows")
proof -
  have "?rows \<longleftrightarrow> (\<exists>px sxs. (px, sxs, sv) \<in> set KNOWN_ENDPOINTS \<and> row_match (endpoint_host e) sv ro px sxs)"
    unfolding row_match_def endpoint_region_Some by blast
  then show ?thesis
    using match_endpoints_sound row_match_classified unfolding classify_endpoint_def by blast
qed

text \<open>
  A configuration passes validation without the test-only bypass exactly when its staging location
  is sound, its delimiter does not collide with the CSV syntax and every tunable is in its documented
  range; in particular the lease always outlives two missed heartbeats.
\<close>
lemma validate_iff:
  assumes "\<not> bypass_range_checks c"
  shows "validate c = Inr () \<longleftrightarrow>
     (\<forall>s. cfg_staging c = Customer s \<longrightarrow> validate_staging s = Inr ())
   \<and> \<not> bad_delimiter (delimiter (csv c))
   \<and> 0 < rotate_size_bytes c \<and> rotate_size_bytes c \<le> MAX_ROTATE_SIZE
   \<and> from_secs 1 \<le> rotate_interval_max c \<and> rotate_interval_max c \<le> from_secs 21600
   \<and> from_secs 900 \<le> gc_interval c \<and> gc_interval c \<le> from_secs 604800
   \<and> 1 \<le> gc_retain_days c \<and> gc_retain_days c \<le> 365
   \<and> 3 \<le> gc_retain_min_files c \<and> gc_retain_min_files c \<le> 1000000
   \<and> from_secs 1 \<le> lock_heartbeat_interval c \<and> lock_heartbeat_interval c \<le> from_secs 600
   \<and> from_secs 30 \<le> staging_refresh_interval c \<and> staging_refresh_interval c \<le> from_secs 86400
   \<and> 1 \<le> rotation_queue_depth c \<and> rotation_queue_depth c \<le> 16
   \<and> 1 \<le> staging_error_after_attempts c \<and> staging_error_after_attempts c \<le> 10000
   \<and> dur_mul (lock_heartbeat_interval c) 3 \<le> lock_lease_timeout c
   \<and> lock_lease_timeout c \<le> from_secs 86400
   \<and> (\<forall>n. retry_max c = Some n \<longrightarrow> 0 \<le> n)"
proof -
  have st: "(case cfg_staging c of Customer s \<Rightarrow> validate_staging s | Relyt \<Rightarrow> Inr ()) = Inr () \<longleftrightarrow>
      (\<forall>s. cfg_staging c = Customer s \<longrightarrow> validate_staging s = Inr ())"
    by (cases "cfg_staging c") simp_all
  show ?thesis
    using assms
    by (simp add: validate_def check_simps validate_ranges_Inr st word_gt_0)
qed




end
