(* ===== verification/Csv_Roundtrip.thy ===== *)
theory Csv_Roundtrip
  imports Csv_Format Config_Rules
begin

text \<open>
  The CSV text of a file read back. \<open>read_file\<close> is a reader of the dialect the header of
  \<open>src/csv.rs\<close> describes, independent of the writer: records end at a newline, a quoted field is text
  with doubled quotes, a bare empty field is NULL. Reading what the writer wrote gives the cells.
\<close>

section \<open>A reader\<close>

fun read_quoted :: "string \<Rightarrow> (string \<times> string) option" where
  "read_quoted [] = None"
| "read_quoted [c] = (if c = CHR 0x22 then Some ([], []) else None)"
| "read_quoted (c # e # cs) =
     (if c \<noteq> CHR 0x22 then map_option (\<lambda>(t, r). (c # t, r)) (read_quoted (e # cs))
      else if e = CHR 0x22 then map_option (\<lambda>(t, r). (CHR 0x22 # t, r)) (read_quoted cs)
      else Some ([], e # cs))"

fun read_bare :: "string \<Rightarrow> string \<Rightarrow> string \<times> string" where
  "read_bare d [] = ([], [])"
| "read_bare d (c # cs) =
     (if c = CHR 0x0A \<or> starts_with d (c # cs) then ([], c # cs)
      else (\<lambda>(t, r). (c # t, r)) (read_bare d cs))"

definition read_field :: "string \<Rightarrow> string \<Rightarrow> (string option \<times> string) option" where
  "read_field d s =
     (case s of
        c # cs \<Rightarrow>
          if c = CHR 0x22 then map_option (\<lambda>(t, r). (Some t, r)) (read_quoted cs)
          else (let (t, r) = read_bare d s in Some (if t = [] then None else Some t, r))
      | [] \<Rightarrow> Some (None, []))"

text \<open>Records, with the number of fields left as fuel; a field is followed by the delimiter or a newline.\<close>

fun read_record :: "nat \<Rightarrow> string \<Rightarrow> string \<Rightarrow> (string option list \<times> string) option" where
  "read_record 0 d s = None"
| "read_record (Suc k) d s =
     (case read_field d s of
        None \<Rightarrow> None
      | Some (v, r) \<Rightarrow>
          (case strip_prefix [CHR 0x0A] r of
             Some r' \<Rightarrow> Some ([v], r')
           | None \<Rightarrow>
               (case strip_prefix d r of
                  Some r' \<Rightarrow> map_option (\<lambda>(vs, t). (v # vs, t)) (read_record k d r')
                | None \<Rightarrow> None)))"

fun read_records :: "nat \<Rightarrow> nat \<Rightarrow> string \<Rightarrow> string \<Rightarrow> string option list list option" where
  "read_records w n d [] = Some []"
| "read_records w 0 d (c # cs) = None"
| "read_records w (Suc n) d (c # cs) =
     (case read_record w d (c # cs) of
        None \<Rightarrow> None
      | Some (vs, r) \<Rightarrow> map_option (\<lambda>rs. vs # rs) (read_records w n d r))"

text \<open>A text has no more records than bytes and no record more fields than bytes, plus one.\<close>

definition read_file :: "string \<Rightarrow> string \<Rightarrow> string option list list option" where
  "read_file d s = read_records (Suc (length s)) (Suc (length s)) d s"

section \<open>What a cell means\<close>

definition strip_nul :: "string \<Rightarrow> string" where
  "strip_nul v = filter (\<lambda>c. c \<noteq> CHR 0x00) v"

definition value_at :: "('a \<Rightarrow> string) \<Rightarrow> 'a option list \<Rightarrow> nat \<Rightarrow> string option" where
  "value_at f a row = map_option f (a ! row)"

fun cell_text :: "float_format \<Rightarrow> col \<Rightarrow> nat \<Rightarrow> string option" where
  "cell_text ff (ColBool a) row = value_at (\<lambda>v. if v then ''t'' else ''f'') a row"
| "cell_text ff (ColI8 a) row = value_at show_int a row"
| "cell_text ff (ColI16 a) row = value_at show_int a row"
| "cell_text ff (ColI32 a) row = value_at show_int a row"
| "cell_text ff (ColI64 a) row = value_at show_int a row"
| "cell_text ff (ColF32 a) row = value_at (show_f32 ff) a row"
| "cell_text ff (ColF64 a) row = value_at (show_f64 ff) a row"
| "cell_text ff (ColStr a) row = value_at strip_nul a row"
| "cell_text ff (ColLargeStr a) row = value_at strip_nul a row"
| "cell_text ff (ColDate a) row = value_at write_date32 a row"
| "cell_text ff (ColTsMicros a tz) row = value_at (\<lambda>v. write_timestamp_micros v tz) a row"
| "cell_text ff (ColTsMillis a tz) row =
     value_at (\<lambda>v. write_timestamp_micros (wrap_i64 (v * 1000)) tz) a row"
| "cell_text ff (ColDecimal a scale) row = value_at (\<lambda>v. write_decimal128 v scale) a row"
| "cell_text ff (ColBin a) row = value_at write_hex_bytea a row"
| "cell_text ff (ColLargeBin a) row = value_at write_hex_bytea a row"

text \<open>Strings of the program are UTF-8: a scalar of several bytes starts with a byte from 0xC0 on.\<close>

definition utf8 :: "string \<Rightarrow> bool" where
  "utf8 v \<longleftrightarrow> list_all (\<lambda>ch. length ch = 1 \<or> (192 :: nat) \<le> of_char (hd ch)) (chars v)"

fun col_ok :: "float_format \<Rightarrow> col \<Rightarrow> bool" where
  "col_ok ff (ColStr a) = list_all (\<lambda>x. case x of Some v \<Rightarrow> utf8 v | None \<Rightarrow> True) a"
| "col_ok ff (ColLargeStr a) = list_all (\<lambda>x. case x of Some v \<Rightarrow> utf8 v | None \<Rightarrow> True) a"
| "col_ok ff _ = True"

fun rows_of :: "col \<Rightarrow> nat" where
  "rows_of (ColBool a) = length a"
| "rows_of (ColI8 a) = length a"
| "rows_of (ColI16 a) = length a"
| "rows_of (ColI32 a) = length a"
| "rows_of (ColI64 a) = length a"
| "rows_of (ColF32 a) = length a"
| "rows_of (ColF64 a) = length a"
| "rows_of (ColStr a) = length a"
| "rows_of (ColLargeStr a) = length a"
| "rows_of (ColDate a) = length a"
| "rows_of (ColTsMicros a _) = length a"
| "rows_of (ColTsMillis a _) = length a"
| "rows_of (ColDecimal a _) = length a"
| "rows_of (ColBin a) = length a"
| "rows_of (ColLargeBin a) = length a"

text \<open>The \<open>Display\<close> of a float is made of digits, sign, point and letters.\<close>

definition float_plain :: "float_format \<Rightarrow> bool" where
  "float_plain ff \<longleftrightarrow>
     (\<forall>v. CHR 0x22 \<notin> set (show_f32 ff v) \<and> CHR 0x00 \<notin> set (show_f32 ff v)) \<and>
     (\<forall>v. CHR 0x22 \<notin> set (show_f64 ff v) \<and> CHR 0x00 \<notin> set (show_f64 ff v))"

section \<open>Lemmas\<close>

definition esc :: "char \<Rightarrow> string" where
  "esc c = (if c = CHR 0x22 then [CHR 0x22, CHR 0x22] else [c])"

definition quoted :: "string \<Rightarrow> string" where
  "quoted t = [CHR 0x22] @ concat (map esc t) @ [CHR 0x22]"

definition field_text :: "string option \<Rightarrow> string" where
  "field_text v = (case v of None \<Rightarrow> [] | Some t \<Rightarrow> quoted t)"

definition clean :: "string \<Rightarrow> bool" where
  "clean t \<longleftrightarrow> CHR 0x22 \<notin> set t \<and> CHR 0x00 \<notin> set t"

lemma clean_append [simp]: "clean (a @ b) \<longleftrightarrow> clean a \<and> clean b"
  by (auto simp: clean_def)

lemma clean_Nil [simp]: "clean []" and clean_Cons [simp]:
  "clean (c # s) \<longleftrightarrow> c \<noteq> CHR 0x22 \<and> c \<noteq> CHR 0x00 \<and> clean s"
  by (auto simp: clean_def)

lemma clean_digits: "(\<forall>c \<in> set s. is_digit c) \<Longrightarrow> clean s"
  by (induction s) (auto simp: is_digit_def)

lemma clean_show [simp]: "clean (show_nat n)" "clean (show_nat_pad w n)"
  using clean_digits show_nat_digits show_nat_pad_digits by blast+

lemma clean_show_int [simp]: "clean (show_int i)"
  by (simp add: show_int_def)

lemma clean_pad0: "clean s \<Longrightarrow> clean (pad0 w s)"
  by (auto simp: pad0_def clean_def)

lemma clean_show_int_pad [simp]: "clean (show_int_pad w i)"
  by (simp add: show_int_pad_def clean_pad0)

lemma clean_date [simp]: "clean (write_date32 d)"
  by (simp add: write_date32_def split: prod.split)

lemma clean_timestamp [simp]: "clean (write_timestamp_micros v tz)"
  by (simp add: write_timestamp_micros_def Let_def split: prod.split)

lemma clean_sub: "clean s \<Longrightarrow> set t \<subseteq> set s \<Longrightarrow> clean t"
  by (auto simp: clean_def)

lemma clean_digit_loop: "clean acc \<Longrightarrow> clean (digit_loop n acc)"
proof (induction n acc rule: digit_loop.induct)
  case (1 n acc)
  have "clean (digit (n mod 10) # acc)"
    using "1.prems" clean_digits [of "[digit (n mod 10)]"] by simp
  with 1 show ?case by (subst digit_loop.simps) auto
qed

lemma clean_replicate [simp]: "clean (replicate n c) \<longleftrightarrow> n = 0 \<or> clean [c]"
  by (auto simp: clean_def)

lemma clean_decimal [simp]: "clean (write_decimal128 v s)"
proof -
  have "clean (digit_loop n [])" for n by (simp add: clean_digit_loop)
  then have "clean (take k (digit_loop n []))" "clean (drop k (digit_loop n []))" for n k
    using clean_sub set_take_subset set_drop_subset by metis+
  then show ?thesis
    by (auto simp: write_decimal128_def Let_def clean_digit_loop take_Cons' drop_Cons')
qed

lemma hex_digit_clean: "d < 16 \<Longrightarrow> hex_digit d \<noteq> CHR 0x22 \<and> hex_digit d \<noteq> CHR 0x00"
  by (auto simp: hex_digit_def char_of_eq_iff take_bit_eq_mod)

lemma clean_hex [simp]: "clean (write_hex_bytea v)"
proof -
  have "clean (concat (map (\<lambda>b. [hex_digit (of_char b div 16), hex_digit (of_char b mod 16)]) v))"
  proof (induction v)
    case (Cons b v)
    have "(of_char b :: nat) div 16 < 16"
      by (rule less_mult_imp_div_less) simp
    with Cons show ?case by (simp add: hex_digit_clean)
  qed simp
  then show ?thesis by (simp add: write_hex_bytea_def)
qed

lemma esc_clean: "clean t \<Longrightarrow> concat (map esc t) = t"
  by (induction t) (auto simp: esc_def)

lemma chars_shape: "ch \<in> set (chars v) \<Longrightarrow> \<exists>c cs. ch = c # cs \<and> (\<forall>x \<in> set cs. is_cont x)"
  by (induction v rule: chars.induct) (auto dest: set_takeWhileD)

lemma quote_char_bytes:
  assumes "ch \<in> set (chars v)" and "utf8 v"
  shows "quote_char ch = concat (map esc (strip_nul ch))"
proof -
  from chars_shape [OF assms(1)] obtain c cs where ch: "ch = c # cs" "\<forall>x \<in> set cs. is_cont x" by blast
  show ?thesis
  proof (cases "cs = []")
    case True
    with ch show ?thesis by (simp add: quote_char_def esc_def strip_nul_def)
  next
    case False
    with assms ch have "(192 :: nat) \<le> of_char c" by (auto simp: utf8_def list_all_iff)
    then have "\<forall>x \<in> set ch. (128 :: nat) \<le> of_char x" using ch by (auto simp: is_cont_def)
    then have "clean ch" by (auto simp: clean_def)
    then have "strip_nul ch = ch" "concat (map esc ch) = ch"
      by (auto simp: strip_nul_def clean_def filter_id_conv esc_clean)
    with ch(1) False show ?thesis by (simp add: quote_char_def)
  qed
qed

lemma esc_concat:
  "concat (map (\<lambda>ch. concat (map esc (strip_nul ch))) chs) = concat (map esc (strip_nul (concat chs)))"
  by (induction chs) (simp_all add: strip_nul_def)

lemma quote_into_quoted: "utf8 v \<Longrightarrow> quote_into v = quoted (strip_nul v)"
proof (cases "clean v")
  case True
  then have "strip_nul v = v" by (auto simp: strip_nul_def clean_def filter_id_conv)
  with True show ?thesis by (simp add: quote_into_def clean_def quoted_def esc_clean)
next
  case False
  assume u: "utf8 v"
  have "concat (map quote_char (chars v)) = concat (map (\<lambda>ch. concat (map esc (strip_nul ch))) (chars v))"
    using quote_char_bytes [OF _ u] by (metis (mono_tags, lifting) map_eq_conv)
  also have "\<dots> = concat (map esc (strip_nul (concat (chars v))))"
    by (rule esc_concat)
  finally show ?thesis using False by (auto simp: quote_into_def quoted_def clean_def)
qed

lemma cell_field:
  "(\<And>v. a ! row = Some v \<Longrightarrow> g v = quoted (f v)) \<Longrightarrow> cell g a row = field_text (value_at f a row)"
  by (cases "a ! row") (simp_all add: cell_def value_at_def field_text_def)

lemma write_cell_text:
  assumes "float_plain ff" and "col_ok ff c" and "row < rows_of c"
  shows "write_cell ff c row = field_text (cell_text ff c row)"
  using assms
  by (cases c)
     (auto intro!: cell_field simp: write_quoted_def quoted_def esc_clean float_plain_def clean_def [symmetric]
        quote_into_quoted list_all_iff dest!: nth_mem [where n = row] split: option.splits)

section \<open>Reading back\<close>

definition delim_ok :: "string \<Rightarrow> bool" where
  "delim_ok d \<longleftrightarrow> d \<noteq> [] \<and> hd d \<noteq> CHR 0x22 \<and> hd d \<noteq> CHR 0x0A"

lemma read_quoted_Cons:
  "c \<noteq> CHR 0x22 \<Longrightarrow> s \<noteq> [] \<Longrightarrow> read_quoted (c # s) = map_option (\<lambda>(t, r). (c # t, r)) (read_quoted s)"
  by (cases s) simp_all

lemma read_quoted_esc:
  "rest = [] \<or> hd rest \<noteq> CHR 0x22 \<Longrightarrow> read_quoted (concat (map esc t) @ CHR 0x22 # rest) = Some (t, rest)"
proof (induction t)
  case Nil
  then show ?case by (cases rest) simp_all
next
  case (Cons c t)
  then show ?case
    by (cases "c = CHR 0x22") (simp_all add: esc_def read_quoted_Cons)
qed

lemma read_field_text:
  assumes d: "delim_ok d" and rest: "(\<exists>r. rest = d @ r) \<or> (\<exists>r. rest = CHR 0x0A # r)"
  shows "read_field d (field_text v @ rest) = Some (v, rest)"
proof -
  have ne: "rest \<noteq> []" and hd: "hd rest \<noteq> CHR 0x22"
    using d rest by (auto simp: delim_ok_def)
  show ?thesis
  proof (cases v)
    case None
    obtain c cs where r: "rest = c # cs" using ne by (cases rest) auto
    have "c = CHR 0x0A \<or> starts_with d (c # cs)"
      using rest r by (auto simp: starts_with_iff)
    then have "read_bare d rest = ([], rest)" using r by auto
    with None r hd show ?thesis by (simp add: field_text_def read_field_def)
  next
    case (Some t)
    have "read_quoted (concat (map esc t) @ CHR 0x22 # rest) = Some (t, rest)"
      using hd by (intro read_quoted_esc) simp
    with Some show ?thesis by (simp add: field_text_def quoted_def read_field_def)
  qed
qed

lemma read_record_join:
  assumes "delim_ok d" and "vs \<noteq> []" and "length vs \<le> k"
  shows "read_record k d (join_with d (map field_text vs) @ CHR 0x0A # rest) = Some (vs, rest)"
  using assms(2,3)
proof (induction vs arbitrary: k)
  case (Cons v vs)
  then obtain j where k: "k = Suc j" by (cases k) auto
  show ?case
  proof (cases vs)
    case Nil
    then show ?thesis using k read_field_text [OF assms(1), of "CHR 0x0A # rest" v] by simp
  next
    case (Cons w ws)
    let ?r = "join_with d (map field_text vs) @ CHR 0x0A # rest"
    have f: "read_field d (field_text v @ d @ ?r) = Some (v, d @ ?r)"
      by (rule read_field_text [OF assms(1)]) blast
    have n: "strip_prefix [CHR 0x0A] (d @ ?r) = None"
      using assms(1) by (cases d) (auto simp: delim_ok_def)
    have "read_record j d ?r = Some (vs, rest)"
      using Cons.IH [of j] Cons.prems k Cons by simp
    then show ?thesis
      using k f n Cons by simp
  qed
qed simp

lemma length_join: "delim_ok d \<Longrightarrow> length cs \<le> Suc (length (join_with d cs))"
proof (induction d cs rule: join_with.induct)
  case (3 d s t ss)
  then have "1 \<le> length d" by (cases d) (auto simp: delim_ok_def)
  with 3 show ?case by (simp del: One_nat_def)
qed simp_all

lemma read_records_lines:
  assumes "delim_ok d"
  shows "\<forall>vs \<in> set rows. vs \<noteq> [] \<and> length vs \<le> w \<Longrightarrow> length rows \<le> n \<Longrightarrow>
     read_records w n d (concat (map (\<lambda>vs. csv_line d (map field_text vs)) rows)) = Some rows"
proof (induction rows arbitrary: n)
  case (Cons vs rows)
  then obtain m where n: "n = Suc m" by (cases n) auto
  let ?r = "concat (map (\<lambda>vs. csv_line d (map field_text vs)) rows)"
  have rec: "read_record w d (join_with d (map field_text vs) @ CHR 0x0A # ?r) = Some (vs, ?r)"
    using Cons.prems by (intro read_record_join [OF assms]) simp_all
  have "read_records w m d ?r = Some rows" using Cons n by simp
  moreover obtain c cs where "join_with d (map field_text vs) @ CHR 0x0A # ?r = c # cs"
    by (cases "join_with d (map field_text vs) @ CHR 0x0A # ?r") auto
  ultimately show ?case using rec n by (simp add: csv_line_def)
qed (cases n; simp)

lemma read_file_lines:
  assumes d: "delim_ok d" and ne: "\<forall>vs \<in> set rows. vs \<noteq> []"
  shows "read_file d (concat (map (\<lambda>vs. csv_line d (map field_text vs)) rows)) = Some rows"
proof -
  let ?s = "concat (map (\<lambda>vs. csv_line d (map field_text vs)) rows)"
  have le: "length (csv_line d (map field_text vs)) \<le> length ?s" if "vs \<in> set rows" for vs
    using that by (induction rows) auto
  have "length vs \<le> Suc (length ?s)" if "vs \<in> set rows" for vs
    using le [OF that] length_join [OF d, of "map field_text vs"] by (simp add: csv_line_def)
  moreover have "length rows \<le> Suc (length ?s)"
    by (induction rows) (auto simp: csv_line_def)
  ultimately show ?thesis
    unfolding read_file_def using ne by (intro read_records_lines [OF d]) auto
qed

section \<open>Columns of a batch\<close>

fun array_utf8 :: "array \<Rightarrow> bool" where
  "array_utf8 (StringArray a) = list_all (\<lambda>x. case x of Some v \<Rightarrow> utf8 v | None \<Rightarrow> True) a"
| "array_utf8 (LargeStringArray a) = list_all (\<lambda>x. case x of Some v \<Rightarrow> utf8 v | None \<Rightarrow> True) a"
| "array_utf8 _ = True"

definition array_text :: "float_format \<Rightarrow> array \<Rightarrow> nat \<Rightarrow> string option" where
  "array_text ff a row =
     (case bind_col (\<lambda>_. []) a [] of Inr c \<Rightarrow> cell_text ff c row | Inl _ \<Rightarrow> None)"

lemma bind_col_supported:
  assumes "is_supported_type (array_type a)"
  shows "\<exists>c. (\<forall>dbg n. bind_col dbg a n = Inr c) \<and> rows_of c = array_len a \<and> (array_utf8 a \<longrightarrow> col_ok ff c)"
proof (cases a)
  case (TimestampArray u tz vs)
  with assms show ?thesis by (cases u) (auto simp: is_supported_type_def array_len_def)
qed (use assms in \<open>auto simp: is_supported_type_def array_len_def\<close>)

lemma bind_col_unsupported:
  "\<not> is_supported_type (array_type a) \<Longrightarrow> bind_col dbg a n = Inl (UnsupportedType n (dbg (array_type a)))"
proof (cases a)
  case (TimestampArray u tz vs)
  moreover assume "\<not> is_supported_type (array_type a)"
  ultimately show ?thesis by (cases u) (auto simp: is_supported_type_def)
qed (auto simp: is_supported_type_def)

lemma bind_all_supported:
  assumes "\<forall>a \<in> set as. is_supported_type (array_type a)" and "length as = length fs"
  shows "\<exists>cs. res_all (\<lambda>(a, f). bind_col dbg a (field_name f)) (zip as fs) = Inr cs \<and> length cs = length as \<and>
     (\<forall>i < length as. (\<forall>dbg n. bind_col dbg (as ! i) n = Inr (cs ! i)) \<and> rows_of (cs ! i) = array_len (as ! i) \<and>
        (array_utf8 (as ! i) \<longrightarrow> col_ok ff (cs ! i)))"
proof -
  define c where "c a = projr (bind_col (\<lambda>_. []) a [])" for a
  have c: "(\<forall>dbg n. bind_col dbg a n = Inr (c a)) \<and> rows_of (c a) = array_len a \<and> (array_utf8 a \<longrightarrow> col_ok ff (c a))"
    if "a \<in> set as" for a
  proof -
    from that assms(1) bind_col_supported [of a ff] obtain x where x: "\<forall>dbg n. bind_col dbg a n = Inr x"
      "rows_of x = array_len a" "array_utf8 a \<longrightarrow> col_ok ff x" by blast
    then have "c a = x" by (simp add: c_def)
    with x show ?thesis by simp
  qed
  have "res_all (\<lambda>(a, f). bind_col dbg a (field_name f)) (zip as fs) = Inr (map (\<lambda>(a, f). c a) (zip as fs))"
    using c by (intro res_all_map) (auto dest: set_zip_leftD)
  moreover have "map (\<lambda>(a, f). c a) (zip as fs) = map c as"
    using assms(2) by (intro nth_equalityI) simp_all
  ultimately show ?thesis using c by auto
qed

lemma delim_ok_char:
  assumes "chars d = [d]" and "utf8 d" and "\<not> bad_delimiter d"
  shows "delim_ok d"
proof (cases d)
  case Nil
  with assms(1) show ?thesis by simp
next
  case (Cons c cs)
  show ?thesis
  proof (cases cs)
    case Nil
    with Cons assms(3) show ?thesis by (auto simp: delim_ok_def bad_delimiter_def)
  next
    case (Cons e es)
    with \<open>d = c # cs\<close> assms(1,2) have "(192 :: nat) \<le> of_char c" by (simp add: utf8_def del: chars.simps)
    with \<open>d = c # cs\<close> show ?thesis by (auto simp: delim_ok_def)
  qed
qed

section \<open>Properties\<close>

text \<open>The lines of a batch and of the header, as fields.\<close>

lemma format_rows_lines:
  assumes "batch_ok b" and "\<forall>a \<in> set (columns b). is_supported_type (array_type a)"
    and "\<forall>a \<in> set (columns b). array_utf8 a" and "\<forall>r \<in> set rows. r < num_rows b" and "float_plain ff"
  shows "format_rows dbg ff d b rows =
    Inr (concat (map (\<lambda>vs. csv_line d (map field_text vs)) (map (\<lambda>r. map (\<lambda>a. array_text ff a r) (columns b)) rows)))"
proof -
  have len: "length (columns b) = length (batch_schema b)"
    using assms(1) by (metis batch_ok_def length_map)
  from bind_all_supported [OF assms(2) len, of dbg ff] obtain cs where
    cs: "res_all (\<lambda>(a, f). bind_col dbg a (field_name f)) (zip (columns b) (batch_schema b)) = Inr cs"
      "length cs = length (columns b)"
    and c: "\<And>i. i < length (columns b) \<Longrightarrow> (\<forall>dbg n. bind_col dbg (columns b ! i) n = Inr (cs ! i)) \<and>
      rows_of (cs ! i) = array_len (columns b ! i) \<and> (array_utf8 (columns b ! i) \<longrightarrow> col_ok ff (cs ! i))"
    by blast
  have cell: "map (\<lambda>c. write_cell ff c r) cs = map field_text (map (\<lambda>a. array_text ff a r) (columns b))"
    if "r \<in> set rows" for r
  proof (rule nth_equalityI)
    fix i assume "i < length (map (\<lambda>c. write_cell ff c r) cs)"
    then have i: "i < length (columns b)" using cs(2) by simp
    then have "array_len (columns b ! i) = num_rows b" "array_utf8 (columns b ! i)"
      using assms(1,3) by (auto simp: batch_ok_def)
    with c [OF i] assms(4) that have "write_cell ff (cs ! i) r = field_text (cell_text ff (cs ! i) r)"
      by (intro write_cell_text [OF assms(5)]) auto
    then show "map (\<lambda>c. write_cell ff c r) cs ! i
        = map field_text (map (\<lambda>a. array_text ff a r) (columns b)) ! i"
      using i c [OF i] cs(2) by (simp add: array_text_def)
  qed (simp add: cs(2))
  then show ?thesis
    using cs(1) by (simp add: format_rows_def comp_def cong: map_cong)
qed

lemma header_line:
  "\<forall>n \<in> set names. utf8 n \<Longrightarrow> header d names = csv_line d (map field_text (map (\<lambda>n. Some (strip_nul n)) names))"
  by (simp add: header_def comp_def field_text_def quote_into_quoted cong: map_cong)

end
