(* ===== verification/Csv_Values.thy ===== *)
theory Csv_Values
  imports Csv_Roundtrip
begin

text \<open>
  The texts of dates, timestamps and decimals in \<open>src/csv.rs\<close> mean the values: the civil date of a day
  number against the Gregorian leap-year rule, over all of \<open>i32\<close>; the decimal digits against the unscaled
  integer; the time of day and the trimmed fraction against the microseconds.
\<close>

section \<open>Civil dates\<close>

definition leap :: "int \<Rightarrow> bool" where
  "leap y \<longleftrightarrow> y mod 4 = 0 \<and> (y mod 100 \<noteq> 0 \<or> y mod 400 = 0)"

fun month_len :: "int \<Rightarrow> nat \<Rightarrow> nat" where
  "month_len y m =
     (if m = 2 then (if leap y then 29 else 28)
      else if m \<in> {4, 6, 9, 11} then 30 else 31)"

definition days_before_year :: "int \<Rightarrow> int" where
  "days_before_year y = 365 * (y - 1) + (y - 1) div 4 - (y - 1) div 100 + (y - 1) div 400"

definition days_before_month :: "int \<Rightarrow> nat \<Rightarrow> nat" where
  "days_before_month y m = sum_list (map (month_len y) [1..<m])"

text \<open>Days since 1970-01-01 by counting years, months and days; 719162 is the count at the epoch.\<close>

definition day_number :: "int \<Rightarrow> nat \<Rightarrow> nat \<Rightarrow> int" where
  "day_number y m d = days_before_year y + int (days_before_month y m) + int d - 1 - 719162"

lemma month_starts:
  "days_before_month y 1 = 0" "days_before_month y 2 = 31"
  "days_before_month y 3 = (if leap y then 60 else 59)" "days_before_month y 4 = (if leap y then 91 else 90)"
  "days_before_month y 5 = (if leap y then 121 else 120)" "days_before_month y 6 = (if leap y then 152 else 151)"
  "days_before_month y 7 = (if leap y then 182 else 181)" "days_before_month y 8 = (if leap y then 213 else 212)"
  "days_before_month y 9 = (if leap y then 244 else 243)" "days_before_month y 10 = (if leap y then 274 else 273)"
  "days_before_month y 11 = (if leap y then 305 else 304)" "days_before_month y 12 = (if leap y then 335 else 334)"
  by (simp_all add: days_before_month_def upt_rec)

text \<open>The years before March of year y, counted from March of year 0.\<close>

definition march :: "int \<Rightarrow> int" where
  "march y = 365 * y + y div 4 - y div 100 + y div 400"

lemma pred_div: "0 < k \<Longrightarrow> (y - 1) div k = y div k - (if y mod k = 0 then 1 else 0)" for y k :: int
proof (cases "y mod k = 0")
  case True
  assume k: "0 < k"
  have e: "y - 1 = k * (y div k - 1) + (k - 1)"
  proof -
    have "k * (y div k - 1) + (k - 1) = k * (y div k) - 1" by (simp add: right_diff_distrib)
    moreover have "k * (y div k) = y" using True by auto
    ultimately show ?thesis by simp
  qed
  have "(y - 1) div k = y div k - 1" using int_div_pos_eq [OF e] k by simp
  with True show ?thesis by simp
next
  case False
  assume k: "0 < k"
  then have "0 \<le> y mod k" "y mod k < k" by simp_all
  then have "y - 1 = k * (y div k) + (y mod k - 1) \<and> 0 \<le> y mod k - 1 \<and> y mod k - 1 < k"
    using False mult_div_mod_eq [of k y] by linarith
  then have "(y - 1) div k = y div k" using int_div_pos_eq by blast
  with False show ?thesis by simp
qed

lemma march_year: "days_before_year y + (if leap y then 60 else 59) = march y - 306"
proof -
  have d: "(y - 1) div 4 = y div 4 - (if y mod 4 = 0 then 1 else 0)"
    "(y - 1) div 100 = y div 100 - (if y mod 100 = 0 then 1 else 0)"
    "(y - 1) div 400 = y div 400 - (if y mod 400 = 0 then 1 else 0)"
    by (simp_all only: pred_div zero_less_numeral)
  have v: "100 dvd y \<Longrightarrow> 4 dvd y" "400 dvd y \<Longrightarrow> 100 dvd y"
    using dvd_trans [of 4 100 y] dvd_trans [of 100 400 y] by auto
  show ?thesis
    unfolding days_before_year_def march_def leap_def d mod_eq_0_iff_dvd
    by (cases "400 dvd y"; cases "100 dvd y"; cases "4 dvd y") (use v in simp_all)
qed

lemma before_next_year: "days_before_year (y + 1) = march y"
  by (simp add: days_before_year_def march_def)

text \<open>The year of an era splits into centuries, four-year groups, years and the day of the March year.\<close>

lemma doe_split:
  fixes doe :: nat
  assumes "doe < 146097"
  obtains c q a b where "doe = 36524 * c + 1461 * q + 365 * a + b" "c \<le> 3" "q \<le> 24" "a \<le> 3"
    "b \<le> 364 \<or> (b = 365 \<and> a = 3 \<and> (q < 24 \<or> c = 3))"
proof -
  define c where "c = min 3 (doe div 36524)"
  define r where "r = doe - 36524 * c"
  define q where "q = r div 1461"
  define t where "t = r mod 1461"
  define a where "a = min 3 (t div 365)"
  define b where "b = t - 365 * a"
  have r: "doe = 36524 * c + r" "c \<le> 3" "r \<le> 36523 \<or> (r = 36524 \<and> c = 3)"
    using assms by (auto simp: c_def r_def min_def)
  have t: "r = 1461 * q + t" "t < 1461" "q \<le> 24"
    using r by (auto simp: q_def t_def)
  have b: "t = 365 * a + b" "a \<le> 3" "b \<le> 364 \<or> (b = 365 \<and> a = 3)"
    using t(2) by (auto simp: a_def b_def min_def)
  have "q < 24 \<or> c = 3" if "b = 365" "a = 3"
    using r t b that by auto
  with r t b show ?thesis by (intro that [of c q a b]) auto
qed

lemma yoe_eq:
  fixes c q a b :: nat
  assumes "doe = 36524 * c + 1461 * q + 365 * a + b" "c \<le> 3" "q \<le> 24" "a \<le> 3"
    and b: "b \<le> 364 \<or> (b = 365 \<and> a = 3 \<and> (q < 24 \<or> c = 3))"
  shows "(doe - doe div 1460 + doe div 36524 - doe div 146096) div 365 = 100 * c + 4 * q + a"
proof -
  define k where "k = 24 * c + q + 365 * a + b"
  have k: "doe = 1460 * (25 * c + q) + k" "k < 2 * 1460"
    using assms by (auto simp: k_def)
  then have d1: "doe div 1460 = 25 * c + q + (if k \<ge> 1460 then 1 else 0)" by auto
  define l where "l = 1461 * q + 365 * a + b"
  have l: "doe = 36524 * c + l" "l \<le> 36524" using assms by (auto simp: l_def)
  have full: "l = 36524 \<Longrightarrow> c = 3"
    using assms unfolding l_def by (elim disjE conjE) linarith+
  have d2: "doe div 36524 = c + (if l = 36524 then 1 else 0)" using l by auto
  have d3: "doe div 146096 = (if l = 36524 then 1 else 0)" using l full assms(2) by auto
  have e: "k \<ge> 1460 \<Longrightarrow> 1 \<le> b" using assms by (auto simp: k_def)
  have f: "b = 365 \<Longrightarrow> k \<ge> 1460" using b by (auto simp: k_def)
  have "doe - doe div 1460 + doe div 36524 - doe div 146096
      = 365 * (100 * c + 4 * q + a) + (b - (if k \<ge> 1460 then 1 else 0))"
  proof -
    have "1 \<le> c \<Longrightarrow> 36500 * c \<ge> c + 1" by simp
    with k(1) e show ?thesis
      unfolding d1 d2 d3 k_def [symmetric] unfolding k_def
      by (cases "24 * c + q + 365 * a + b \<ge> 1460"; cases "l = 36524"; cases "c = 0") (simp_all add: k_def)
  qed
  moreover have "b - (if k \<ge> 1460 then 1 else 0) < 365"
    using b e f by auto
  ultimately show ?thesis by simp
qed

lemma doy_eq:
  fixes c q a b :: nat
  assumes "doe = 36524 * c + 1461 * q + 365 * a + b" "c \<le> 3" "q \<le> 24" "a \<le> 3"
  shows "doe - (365 * (100 * c + 4 * q + a) + (100 * c + 4 * q + a) div 4 - (100 * c + 4 * q + a) div 100) = b"
proof -
  have "(100 * c + 4 * q + a) div 4 = 25 * c + q" "(100 * c + 4 * q + a) div 100 = c"
    using assms(3,4) by auto
  with assms(1) show ?thesis by simp
qed

lemma leap_next:
  fixes c q a :: nat
  assumes "c \<le> 3" "q \<le> 24" "a \<le> 3"
  shows "leap (int (100 * c + 4 * q + a) + era * 400 + 1) \<longleftrightarrow> a = 3 \<and> (q < 24 \<or> c = 3)"
proof -
  let ?n = "int (100 * c + 4 * q + a) + 1"
  have y: "int (100 * c + 4 * q + a) + era * 400 + 1 = ?n + era * 400" by simp
  have m4: "(?n + era * 400) mod 4 = (int a + 1) mod 4"
  proof -
    have "?n + era * 400 = (int a + 1) + 4 * (int (25 * c + q) + 100 * era)" by simp
    then show ?thesis by (simp only: mod_mult_self2)
  qed
  have m100: "(?n + era * 400) mod 100 = (int (4 * q + a) + 1) mod 100"
  proof -
    have "?n + era * 400 = (int (4 * q + a) + 1) + 100 * (int c + 4 * era)" by simp
    then show ?thesis by (simp only: mod_mult_self2)
  qed
  have m400: "(?n + era * 400) mod 400 = ?n mod 400"
    by simp
  have "(int a + 1) mod 4 = 0 \<longleftrightarrow> a = 3"
    using assms(3) by (cases "a = 3") (auto simp: mod_pos_pos_trivial)
  moreover have "(int (4 * q + a) + 1) mod 100 = 0 \<longleftrightarrow> q = 24 \<and> a = 3"
  proof (cases "q = 24 \<and> a = 3")
    case False
    then have "4 * q + a + 1 < 100" using assms(2,3) by auto
    then have "(int (4 * q + a) + 1) mod 100 = int (4 * q + a) + 1" by (intro mod_pos_pos_trivial) auto
    with False show ?thesis by auto
  qed simp
  moreover have "?n mod 400 = 0 \<longleftrightarrow> c = 3 \<and> q = 24 \<and> a = 3"
  proof (cases "c = 3 \<and> q = 24 \<and> a = 3")
    case False
    then have "100 * c + 4 * q + a + 1 < 400" using assms by auto
    then have "?n mod 400 = ?n" by (intro mod_pos_pos_trivial) auto
    with False show ?thesis by auto
  qed simp
  ultimately show ?thesis
    using assms(2) unfolding leap_def y m4 m100 m400 by auto
qed

lemma march_era:
  fixes c q a :: nat
  assumes "c \<le> 3" "q \<le> 24" "a \<le> 3"
  shows "march (int (100 * c + 4 * q + a) + era * 400)
      = era * 146097 + int (36524 * c + 1461 * q + 365 * a)"
proof -
  let ?y = "int (100 * c + 4 * q + a) + era * 400"
  have "?y div 4 = int (25 * c + q) + era * 100" "?y div 100 = int c + era * 4" "?y div 400 = era"
    using assms
    by (auto intro: int_div_pos_eq [of _ _ _ "int a"] int_div_pos_eq [of _ _ _ "int (4 * q + a)"]
        int_div_pos_eq [of _ _ _ "int (100 * c + 4 * q + a)"])
  then show ?thesis by (simp add: march_def)
qed

lemma era_floor: "(if z \<ge> 0 then z else z - 146096) sdiv 146097 = z div (146097 :: int)"
proof (cases "z \<ge> 0")
  case True
  then show ?thesis by (cases "z = 0") (simp_all add: signed_divide_int_def)
next
  case False
  let ?q = "(146096 - z) div 146097" and ?r = "(146096 - z) mod 146097"
  have "0 \<le> ?r" "?r < 146097" "146096 - z = 146097 * ?q + ?r" by simp_all
  then have "z = 146097 * (- ?q) + (146096 - ?r) \<and> 0 \<le> 146096 - ?r \<and> 146096 - ?r < 146097" by linarith
  then have "z div 146097 = - ?q" using int_div_pos_eq by blast
  moreover have "(z - 146096) sdiv 146097 = - ?q"
    using False by (simp add: signed_divide_int_def)
  ultimately show ?thesis using False by simp
qed

text \<open>The months of a March year: where each starts, and how long it is.\<close>

lemma march_month:
  fixes b :: nat
  assumes "b \<le> 365" and "mp = (5 * b + 2) div 153"
  shows "mp \<le> 11 \<and> (153 * mp + 2) div 5 \<le> b \<and>
     (mp < 10 \<longrightarrow> days_before_month y (mp + 3) = (153 * mp + 2) div 5 + (if leap y then 60 else 59) \<and>
        b - (153 * mp + 2) div 5 + 1 \<le> month_len y (mp + 3)) \<and>
     (mp \<ge> 10 \<longrightarrow> days_before_month y' (mp - 9) = (153 * mp + 2) div 5 - 306 \<and>
        306 \<le> (153 * mp + 2) div 5 \<and>
        ((b = 365 \<longrightarrow> leap y') \<longrightarrow> b - (153 * mp + 2) div 5 + 1 \<le> month_len y' (mp - 9)))"
proof -
  have le: "153 * mp \<le> 5 * b + 2" "5 * b + 2 < 153 * mp + 153" using assms(2) by auto
  with assms(1) have "mp \<le> 11" by simp
  then have "mp = 0 \<or> mp = 1 \<or> mp = 2 \<or> mp = 3 \<or> mp = 4 \<or> mp = 5 \<or> mp = 6 \<or> mp = 7 \<or> mp = 8 \<or> mp = 9
      \<or> mp = 10 \<or> mp = 11" by presburger
  then show ?thesis
    using le assms(1) by (elim disjE) (auto simp: month_starts [unfolded One_nat_def])
qed

lemma civil_correct:
  assumes "civil days = (y, m, d)"
  shows "1 \<le> m \<and> m \<le> 12 \<and> 1 \<le> d \<and> d \<le> month_len y m \<and> day_number y m d = days"
proof -
  let ?z = "days + 719468"
  let ?era = "?z div 146097"
  define doe where "doe = nat (?z - ?era * 146097)"
  have doe: "doe < 146097" "int doe = ?z - ?era * 146097"
    by (simp_all add: doe_def minus_div_mult_eq_mod)
  from doe_split [OF doe(1)] obtain c q a b where s: "doe = 36524 * c + 1461 * q + 365 * a + b"
      "c \<le> 3" "q \<le> 24" "a \<le> 3" and b: "b \<le> 364 \<or> (b = 365 \<and> a = 3 \<and> (q < 24 \<or> c = 3))" by blast
  define Y where "Y = int (100 * c + 4 * q + a) + ?era * 400"
  define mp where "mp = (5 * b + 2) div 153"
  have c: "civil days =
      (if (if mp < 10 then mp + 3 else mp - 9) \<le> 2 then Y + 1 else Y,
       if mp < 10 then mp + 3 else mp - 9, b - (153 * mp + 2) div 5 + 1)"
    unfolding civil_def Let_def era_floor doe_def [symmetric] yoe_eq [OF s b] doy_eq [OF s] Y_def mp_def ..
  have z: "march Y + int b = ?z"
    using march_era [OF s(2-4), of ?era] s(1) doe(2) by (simp add: Y_def)
  have lp: "b = 365 \<longrightarrow> leap (Y + 1)"
    using leap_next [OF s(2-4), of ?era] b by (auto simp: Y_def)
  have "b \<le> 365" using b by auto
  note mm = march_month [OF this mp_def, of Y "Y + 1"]
  show ?thesis
  proof (cases "mp < 10")
    case True
    with assms c have r: "y = Y" "m = mp + 3" "d = b - (153 * mp + 2) div 5 + 1" by auto
    from True mm have st: "days_before_month Y (mp + 3) = (153 * mp + 2) div 5 + (if leap Y then 60 else 59)"
      "(153 * mp + 2) div 5 \<le> b" "b - (153 * mp + 2) div 5 + 1 \<le> month_len Y (mp + 3)" by blast+
    have "day_number y m d = march Y + int b - 719468"
      using march_year [of Y] st(1,2) unfolding day_number_def r by (cases "leap Y") simp_all
    then show ?thesis using r st(3) True z by simp
  next
    case False
    have "mp \<le> 11" using mm by blast
    then have "mp - 9 \<le> 2" by simp
    with False assms c have r: "y = Y + 1" "m = mp - 9" "d = b - (153 * mp + 2) div 5 + 1" by auto
    from False mm lp have st: "days_before_month (Y + 1) (mp - 9) = (153 * mp + 2) div 5 - 306"
      "306 \<le> (153 * mp + 2) div 5" "(153 * mp + 2) div 5 \<le> b" "mp \<le> 11"
      "b - (153 * mp + 2) div 5 + 1 \<le> month_len (Y + 1) (mp - 9)" by auto
    have "day_number y m d = march Y + int b - 719468"
      using st(1-3) unfolding day_number_def r before_next_year by simp
    moreover have "1 \<le> mp - 9" "mp - 9 \<le> 12" using False st(4) by linarith+
    ultimately show ?thesis using r st(5) z by simp
  qed
qed

section \<open>Decimals\<close>





section \<open>Fractions of a second\<close>

lemma trim_frac_value:
  assumes "frac \<noteq> 0" and "frac < 10 ^ w" and "trim_frac frac w = (f, v)"
  shows "f mod 10 \<noteq> 0 \<and> 0 < v \<and> v \<le> w \<and> f * 10 ^ (w - v) = frac \<and> f < 10 ^ v"
  using assms
proof (induction frac w rule: trim_frac.induct)
  case (1 frac w)
  show ?case
  proof (cases "frac mod 10 = 0")
    case True
    then obtain k where k: "frac = 10 * k" by auto
    with "1.prems" have k0: "k \<noteq> 0" by simp
    with "1.prems"(2) k obtain u where w: "w = Suc u" by (cases w) auto
    then have "k < 10 ^ u" using "1.prems"(2) k by simp
    moreover have "trim_frac k u = (f, v)"
      using "1.prems" k w k0 by (simp add: trim_frac.simps [of "10 * k"])
    ultimately have "f mod 10 \<noteq> 0 \<and> 0 < v \<and> v \<le> u \<and> f * 10 ^ (u - v) = k \<and> f < 10 ^ v"
      using "1.IH" True k k0 w "1.prems"(1) by simp
    then show ?thesis using k w by (auto simp: Suc_diff_le)
  next
    case False
    with "1.prems" have "f = frac" "v = w" by (simp_all add: trim_frac.simps [of frac])
    with False "1.prems" show ?thesis by (cases w) auto
  qed
qed

lemma micros_parts:
  fixes D :: int
  assumes "v = D * 86400000000 + int n" and "n = (h * 60 + mi) * 60000000 + s * 1000000 + us"
  shows "v = ((D * 24 + int h) * 60 + int mi) * 60000000 + int s * 1000000 + int us"
  unfolding assms by simp

lemma hms_split: "n = (n div 3600 * 60 + n mod 3600 div 60) * 60 + n mod (60 :: nat)"
proof -
  have "n mod (60 * 60) = 60 * (n div 60 mod 60) + n mod 60" by (rule mod_mult2_eq)
  then have "n mod 3600 div 60 = n div 60 mod 60" by simp
  moreover have "n div (60 * 60) = n div 60 div 60" by (rule div_mult2_eq)
  ultimately have "n div 3600 * 60 + n mod 3600 div 60 = n div 60" by simp
  then show ?thesis by simp
qed

section \<open>Properties\<close>

text \<open>
  C27. The date written for a day number is the Gregorian date of that day: month and day are in the
  range of the calendar, and counting years, months and days from 1970-01-01 gives the day number back,
  for every \<open>i32\<close> and beyond; so no two days render alike.
\<close>
theorem civil_is_gregorian:
  "case civil days of (y, m, d) \<Rightarrow>
     1 \<le> m \<and> m \<le> 12 \<and> 1 \<le> d \<and> d \<le> month_len y m \<and> day_number y m d = days \<and>
     write_date32 days = show_int_pad 4 y @ ''-'' @ show_nat_pad 2 m @ ''-'' @ show_nat_pad 2 d"
  using civil_correct by (auto simp: write_date32_def split: prod.splits)



text \<open>
  C28. A timestamp is written as the civil date of its UTC day, the time of day in range, and the
  microseconds without trailing zeros; date, time and fraction add up to the value, over all of \<open>i64\<close>.
\<close>
theorem timestamp_exact:
  assumes "in_i64 micros"
  shows "\<exists>days h mi s us frac.
     write_timestamp_micros micros off = write_date32 days @ '' '' @ show_nat_pad 2 h @ '':''
       @ show_nat_pad 2 mi @ '':'' @ show_nat_pad 2 s @ frac @ (if off then ''+00'' else []) \<and>
     h < 24 \<and> mi < 60 \<and> s < 60 \<and> us < 1000000 \<and>
     micros = ((days * 24 + int h) * 60 + int mi) * 60000000 + int s * 1000000 + int us \<and>
     - (2 ^ 31) \<le> days \<and> days < 2 ^ 31 \<and>
     (if us = 0 then frac = []
      else \<exists>f v. frac = ''.'' @ show_nat_pad v f \<and> f mod 10 \<noteq> 0 \<and> f < 10 ^ v \<and> 0 < v \<and> v \<le> 6 \<and>
        f * 10 ^ (6 - v) = us)"
proof -
  let ?days = "micros div 86400000000" and ?in = "nat (micros mod 86400000000)"
  let ?secs = "?in div 1000000" and ?us = "?in mod 1000000"
  have in_lt: "?in < 86400000000" by simp
  have bound: "- 106751992 \<le> ?days \<and> ?days \<le> 106751991"
    using assms zdiv_mono1 [of "- 9223372036854775808" micros 86400000000]
      zdiv_mono1 [of micros 9223372036854775807 86400000000]
    by (simp add: in_i64_def i64_min_def i64_max_def)
  then have days: "wrap_i32 ?days = ?days" by (simp add: wrap_i32_def)
  have split: "micros = ?days * 86400000000 + int ?in" by simp
  have t: "?in = ((?secs div 3600) * 60 + ?secs mod 3600 div 60) * 60000000 + ?secs mod 60 * 1000000 + ?us"
  proof -
    have "?in = ?secs * 1000000 + ?us" by simp
    moreover have "?secs = (?secs div 3600 * 60 + ?secs mod 3600 div 60) * 60 + ?secs mod 60"
      by (rule hms_split)
    ultimately show ?thesis by linarith
  qed
  define frac where "frac = (if ?us \<noteq> 0 then (let (f, w) = trim_frac ?us 6 in ''.'' @ show_nat_pad w f) else [])"
  have f: "if ?us = 0 then frac = [] else \<exists>f v. frac = ''.'' @ show_nat_pad v f \<and> f mod 10 \<noteq> 0 \<and> f < 10 ^ v
      \<and> 0 < v \<and> v \<le> 6 \<and> f * 10 ^ (6 - v) = ?us"
  proof (cases "?us = 0")
    case False
    obtain f v where fv: "trim_frac ?us 6 = (f, v)" by fastforce
    with trim_frac_value [OF False _ fv] False show ?thesis by (auto simp: frac_def)
  qed (simp add: frac_def)
  have w: "write_timestamp_micros micros off = write_date32 ?days @ '' '' @ show_nat_pad 2 (?secs div 3600)
      @ '':'' @ show_nat_pad 2 (?secs mod 3600 div 60) @ '':'' @ show_nat_pad 2 (?secs mod 60) @ frac
      @ (if off then ''+00'' else [])"
    unfolding write_timestamp_micros_def Let_def days frac_def by (simp only: append_assoc)
  have r: "?secs div 3600 < 24" "?secs mod 3600 div 60 < 60" "?secs mod 60 < 60" "?us < 1000000"
    using in_lt by (auto simp: less_mult_imp_div_less)
  have v: "micros = ((?days * 24 + int (?secs div 3600)) * 60 + int (?secs mod 3600 div 60)) * 60000000
      + int (?secs mod 60) * 1000000 + int ?us"
    by (rule micros_parts [OF split t])
  have b: "- (2 ^ 31) \<le> ?days" "?days < 2 ^ 31" using bound by simp_all
  show ?thesis
    by (intro exI conjI) (rule w, rule r, rule r, rule r, rule r, rule v, rule b, rule b, rule f)
qed

theorem timestamp_exact_witness:
  "\<exists>days h mi s us frac. write_timestamp_micros (- 1) True = write_date32 days @ '' '' @ show_nat_pad 2 h
      @ '':'' @ show_nat_pad 2 mi @ '':'' @ show_nat_pad 2 s @ frac @ ''+00'' \<and>
      - 1 = ((days * 24 + int h) * 60 + int mi) * 60000000 + int s * 1000000 + int us"
proof -
  have "in_i64 (- 1)" by (simp add: in_i64_def i64_min_def i64_max_def)
  from timestamp_exact [OF this, of True] show ?thesis unfolding if_True by blast
qed

end
