(* ===== verification/Naming_Keys.thy ===== *)
theory Naming_Keys
  imports Ingest_Error
begin

text \<open>
  \<open>src/naming.rs\<close>: the serial sequence encoding, the rules for path segments, the identity of
  a writer with the keys derived from it, and staged files with their object keys, their parser
  and their job identifiers.
\<close>

section \<open>Serial sequence numbers\<close>

definition SEQ_BITS :: nat where "SEQ_BITS = 20"
definition MAX_SEQ :: u32 where "MAX_SEQ = push_bit SEQ_BITS 1 - 1"
definition MAX_EPOCH_MS :: u64 where "MAX_EPOCH_MS = push_bit 43 1 - 1"
definition EPOCH_PAD :: nat where "EPOCH_PAD = 13"
definition SEQ_PAD :: nat where "SEQ_PAD = 7"
definition IDENTIFIER_MAX_LEN :: nat where "IDENTIFIER_MAX_LEN = 128"
definition WRITER_ID_MAX_LEN :: nat where "WRITER_ID_MAX_LEN = 64"

definition encode_serial_seq :: "u64 \<Rightarrow> u32 \<Rightarrow> i64 result" where
  "encode_serial_seq epoch s =
     (if epoch > MAX_EPOCH_MS then
        Inl (Naming (''epoch '' @ show_nat (unat epoch) @ '' exceeds 43 bits''))
      else if s > MAX_SEQ then
        Inl (Naming (''seq '' @ show_nat (unat s) @ '' exceeds 20 bits''))
      else Inr (sint (or (push_bit SEQ_BITS epoch) (ucast s :: u64))))"

definition decode_serial_seq :: "i64 \<Rightarrow> u64 \<times> u32" where
  "decode_serial_seq serial =
     (let v = (word_of_int serial :: u64)
      in (drop_bit SEQ_BITS v, ucast (and v (ucast MAX_SEQ))))"

section \<open>Path segments\<close>

definition segment_char :: "char \<Rightarrow> bool" where
  "segment_char c \<longleftrightarrow> is_ascii_alphanumeric c \<or> c = CHR ''.'' \<or> c = CHR ''_'' \<or> c = CHR ''-''"

definition segment_ok :: "string \<Rightarrow> bool" where
  "segment_ok ch \<longleftrightarrow> (case ch of [c] \<Rightarrow> segment_char c | _ \<Rightarrow> False)"

definition validate_path_segment :: "string \<Rightarrow> string \<Rightarrow> unit result" where
  "validate_path_segment kind v =
     (if v = [] \<or> length v > WRITER_ID_MAX_LEN then
        Inl (Config (kind @ '' must be 1..='' @ show_nat WRITER_ID_MAX_LEN @ '' chars, got ''
               @ show_nat (length v)))
      else if list_all (\<lambda>c. c = CHR ''.'') v then
        Inl (Config (kind @ '' `'' @ v @ ''` is not a valid path segment''))
      else (case find (\<lambda>ch. \<not> segment_ok ch) (chars v) of
              Some bad \<Rightarrow> Inl (Config (kind @ '' contains `'' @ bad
                            @ ''`; allowed characters are [A-Za-z0-9._-]''))
            | None \<Rightarrow> Inr ()))"

definition validate_writer_id :: "string \<Rightarrow> unit result" where
  "validate_writer_id w =
     res_bind (validate_path_segment ''writer_id'' w) (\<lambda>_.
       if starts_with ''_'' w then
         Inl (Config ''writer_id must not start with '_' (reserved for bookkeeping)'')
       else Inr ())"

definition validate_cluster_id :: "string \<Rightarrow> unit result" where
  "validate_cluster_id c = validate_path_segment ''cluster_id'' c"

section \<open>The identity of a writer\<close>

record writer_identity =
  cluster_id :: string
  db_oid :: u32
  rel_oid :: u32
  writer_id :: string

definition ident_path :: "writer_identity \<Rightarrow> string" where
  "ident_path i = cluster_id i @ ''/'' @ show_nat (unat (db_oid i)) @ ''/''
     @ show_nat (unat (rel_oid i)) @ ''/'' @ writer_id i @ ''/''"

definition staging_dir :: "writer_identity \<Rightarrow> string" where
  "staging_dir i = ''staging/'' @ ident_path i"

definition state_key :: "writer_identity \<Rightarrow> string" where
  "state_key i = ''_meta/'' @ ident_path i @ ''state.json''"

definition lock_key :: "writer_identity \<Rightarrow> string" where
  "lock_key i = ''_meta/'' @ ident_path i @ ''lock''"

definition serial_group :: "writer_identity \<Rightarrow> string" where
  "serial_group i = show_nat (unat (db_oid i)) @ '':'' @ show_nat (unat (rel_oid i)) @ '':''
     @ writer_id i"

section \<open>Staged files\<close>

record staged_file =
  epoch_ms :: u64
  seq :: u32
  start_offset :: i64
  end_offset :: i64
  compressed :: bool

definition serial_seq :: "staged_file \<Rightarrow> i64 result" where
  "serial_seq f = encode_serial_seq (epoch_ms f) (seq f)"

definition basename :: "staged_file \<Rightarrow> string" where
  "basename f = show_nat_pad EPOCH_PAD (unat (epoch_ms f)) @ ''-''
     @ show_nat_pad SEQ_PAD (unat (seq f)) @ ''-o'' @ show_int (start_offset f) @ ''-''
     @ show_int (end_offset f) @ (if compressed f then ''.csv.gz'' else ''.csv'')"

definition object_key :: "staged_file \<Rightarrow> writer_identity \<Rightarrow> string" where
  "object_key f i = staging_dir i @ basename f"

definition parse_stem :: "string \<Rightarrow> bool \<Rightarrow> staged_file option" where
  "parse_stem stem gz =
     (case split_on CHR ''-'' stem of
        p1 # p2 # p3 # p4 # [] \<Rightarrow>
          (case (parse_u64 p1, parse_u32 p2, Option.bind (strip_prefix ''o'' p3) parse_i64,
                 parse_i64 p4) of
             (Some e, Some s, Some a, Some b) \<Rightarrow>
               Some \<lparr>epoch_ms = e, seq = s, start_offset = a, end_offset = b, compressed = gz\<rparr>
           | _ \<Rightarrow> None)
      | _ \<Rightarrow> None)"

definition parse_basename :: "string \<Rightarrow> staged_file option" where
  "parse_basename name =
     (case strip_suffix ''.csv.gz'' name of
        Some stem \<Rightarrow> parse_stem stem True
      | None \<Rightarrow>
          (case strip_suffix ''.csv'' name of
             Some stem \<Rightarrow> parse_stem stem False
           | None \<Rightarrow> None))"

definition job_identifier :: "staged_file \<Rightarrow> writer_identity \<Rightarrow> string result" where
  "job_identifier f i =
     (let ident = show_nat (unat (db_oid i)) @ '':'' @ show_nat (unat (rel_oid i)) @ '':''
                @ writer_id i @ '':'' @ show_nat (unat (epoch_ms f)) @ '':''
                @ show_nat (unat (seq f))
      in if length ident > IDENTIFIER_MAX_LEN
         then Inl (Naming (''identifier `'' @ ident @ ''` exceeds ''
                     @ show_nat IDENTIFIER_MAX_LEN @ '' bytes''))
         else Inr ident)"

section \<open>The serial sequence is the pair (epoch, seq)\<close>

lemma MAX_SEQ_val: "unat MAX_SEQ = 1048575"
  by (simp add: MAX_SEQ_def SEQ_BITS_def)

lemma MAX_EPOCH_MS_val: "unat MAX_EPOCH_MS = 8796093022207"
  by (simp add: MAX_EPOCH_MS_def)

lemma MAX_SEQ_le: "s \<le> MAX_SEQ \<longleftrightarrow> unat s < 1048576"
  by (auto simp: word_le_nat_alt MAX_SEQ_val)

lemma MAX_EPOCH_MS_le: "e \<le> MAX_EPOCH_MS \<longleftrightarrow> unat e < 8796093022208"
  by (auto simp: word_le_nat_alt MAX_EPOCH_MS_val)

text \<open>The number the encoding stands for, and the pairs it accepts.\<close>

definition serial_nat :: "u64 \<Rightarrow> u32 \<Rightarrow> nat" where
  "serial_nat e s = unat e * 1048576 + unat s"

definition slot_ok :: "u64 \<Rightarrow> u32 \<Rightarrow> bool" where
  "slot_ok e s \<longleftrightarrow> e \<le> MAX_EPOCH_MS \<and> s \<le> MAX_SEQ"

lemma slot_ok_unat: "slot_ok e s \<longleftrightarrow> unat e < 8796093022208 \<and> unat s < 1048576"
  by (simp add: slot_ok_def MAX_SEQ_le MAX_EPOCH_MS_le)

lemma serial_nat_bound: "slot_ok e s \<Longrightarrow> serial_nat e s < 9223372036854775808"
  by (simp add: slot_ok_unat serial_nat_def)

lemma serial_int_bound: "slot_ok e s \<Longrightarrow> int (serial_nat e s) \<le> i64_max"
proof -
  assume "slot_ok e s"
  then have "int (serial_nat e s) < int 9223372036854775808"
    using serial_nat_bound by (simp only: of_nat_less_iff)
  then show ?thesis by (simp add: i64_max_def)
qed

lemma or_add_nat: "(b :: nat) < 2 ^ n \<Longrightarrow> or (push_bit n a) b = a * 2 ^ n + b"
proof -
  assume "b < 2 ^ n"
  then have "take_bit n b = b" by (rule take_bit_nat_eq_self)
  then have "and (push_bit n a) b = 0"
    by (intro bit_eqI) (metis bit_0_eq bit_and_iff bit_push_bit_iff_nat bit_take_bit_iff
        bot_apply bot_bool_def linorder_not_le)
  then show ?thesis
    by (simp add: disjunctive_add_eq_or [symmetric] push_bit_eq_mult)
qed

lemma unat_encode:
  assumes "slot_ok e s"
  shows "unat (or (push_bit 20 e) (ucast s :: u64)) = serial_nat e s"
proof -
  from assms have e: "unat e < 8796093022208" and s: "unat s < 1048576"
    by (simp_all add: slot_ok_unat)
  have us: "unat (ucast s :: u64) = unat s"
    using s by (simp only: unsigned_ucast_eq) (simp add: take_bit_nat_eq_self)
  have "unat (push_bit 20 e) = take_bit 64 (push_bit 20 (unat e))"
    by (simp only: unsigned_push_bit_eq) simp
  also have "\<dots> = push_bit 20 (unat e)"
    using e by (intro take_bit_nat_eq_self) (simp add: push_bit_eq_mult)
  finally have up: "unat (push_bit 20 e) = push_bit 20 (unat e)" .
  show ?thesis
    using or_add_nat [of "unat s" 20 "unat e"] s
    by (simp only: unsigned_or_eq us up) (simp add: serial_nat_def)
qed

lemma encode_ok: "slot_ok e s \<Longrightarrow> encode_serial_seq e s = Inr (int (serial_nat e s))"
proof -
  assume ok: "slot_ok e s"
  let ?w = "or (push_bit 20 e) (ucast s :: u64)"
  have "sint ?w = signed_take_bit 63 (uint ?w)"
    by (simp only: sint_uint) simp
  also have "uint ?w = int (serial_nat e s)"
    by (simp only: unat_encode [OF ok, symmetric] uint_nat)
  also have "signed_take_bit 63 (int (serial_nat e s)) = int (serial_nat e s)"
  proof (rule signed_take_bit_int_eq_self)
    show "- (2 ^ 63) \<le> int (serial_nat e s)" by simp
    have "int (serial_nat e s) < int 9223372036854775808"
      using serial_nat_bound [OF ok] by (simp only: of_nat_less_iff)
    then show "int (serial_nat e s) < 2 ^ 63" by simp
  qed
  finally show ?thesis
    using ok by (simp only: encode_serial_seq_def slot_ok_def SEQ_BITS_def not_less [symmetric]) simp
qed

lemma encode_err: "\<not> slot_ok e s \<Longrightarrow> \<exists>m. encode_serial_seq e s = Inl (Naming m)"
  by (auto simp: encode_serial_seq_def slot_ok_def)

lemma encode_Inr [res_simps]:
  "encode_serial_seq e s = Inr v \<longleftrightarrow> slot_ok e s \<and> v = int (serial_nat e s)"
proof (cases "slot_ok e s")
  case False
  then obtain m where "encode_serial_seq e s = Inl (Naming m)" using encode_err by blast
  with False show ?thesis by simp
qed (auto simp: encode_ok)

lemma serial_nat_less_iff:
  assumes "slot_ok e s" "slot_ok e' s'"
  shows "serial_nat e s < serial_nat e' s' \<longleftrightarrow> (e, s) < (e', s')"
proof -
  have "unat s < 1048576" "unat s' < 1048576" using assms by (simp_all add: slot_ok_unat)
  then have "serial_nat e s < serial_nat e' s' \<longleftrightarrow>
      unat e < unat e' \<or> (unat e = unat e' \<and> unat s < unat s')"
    unfolding serial_nat_def by linarith
  then show ?thesis
    by (simp add: less_prod_def' word_less_nat_alt word_unat_eq_iff)
qed

lemma serial_nat_inj:
  assumes "slot_ok e s" "slot_ok e' s'" and eq: "serial_nat e s = serial_nat e' s'"
  shows "e = e' \<and> s = s'"
proof (rule linorder_cases [of "(e, s)" "(e', s')"])
  assume "(e, s) < (e', s')"
  then show ?thesis using serial_nat_less_iff [OF assms(1,2)] eq by simp
next
  assume "(e', s') < (e, s)"
  then show ?thesis using serial_nat_less_iff [OF assms(2,1)] eq by simp
qed simp

lemma and_mask_nat: "and (n :: nat) (unat (mask 20 :: u64)) = n mod 1048576"
  using take_bit_eq_mask [of 20 n] by (simp add: take_bit_eq_mod mask_eq_exp_minus_1)

lemma decode_serial_nat:
  assumes "slot_ok e s"
  shows "decode_serial_seq (int (serial_nat e s)) = (e, s)"
proof -
  let ?v = "word_of_int (int (serial_nat e s)) :: u64"
  have b: "unat e < 8796093022208" "unat s < 1048576"
    using assms by (simp_all add: slot_ok_unat)
  have "unat ?v = take_bit 64 (serial_nat e s)"
    by (simp only: of_int_of_nat_eq unsigned_of_nat) simp
  also have "\<dots> = serial_nat e s"
    using serial_nat_bound [OF assms] by (intro take_bit_nat_eq_self) simp
  finally have v: "unat ?v = serial_nat e s" .
  have tb: "take_bit 64 (serial_nat e s) = serial_nat e s"
    using serial_nat_bound [OF assms] by (intro take_bit_nat_eq_self) simp
  have "unat (drop_bit 20 ?v) = serial_nat e s div 1048576"
    by (simp only: unsigned_drop_bit_eq v) (simp add: drop_bit_eq_div tb)
  also have "\<dots> = unat e"
    using b by (simp add: serial_nat_def)
  finally have hi: "drop_bit 20 ?v = e"
    by (simp only: word_unat_eq_iff)
  have m: "(ucast MAX_SEQ :: u64) = mask 20"
    by (simp add: MAX_SEQ_def SEQ_BITS_def mask_eq_exp_minus_1)
  have "unat (and ?v (ucast MAX_SEQ)) = serial_nat e s mod 1048576"
    by (simp only: m unsigned_and_eq v) (simp add: and_mask_nat)
  also have "\<dots> = unat s"
    using b by (simp add: serial_nat_def)
  finally have "unat (ucast (and ?v (ucast MAX_SEQ)) :: u32) = unat s"
    using b by (simp only: unsigned_ucast_eq) (simp add: take_bit_nat_eq_self)
  then have "ucast (and ?v (ucast MAX_SEQ)) = s"
    by (simp only: word_unat_eq_iff)
  with hi show ?thesis
    by (simp only: decode_serial_seq_def Let_def SEQ_BITS_def)
qed

section \<open>What validation accepts\<close>

lemma segment_char_not_cont: "segment_char c \<Longrightarrow> \<not> is_cont c"
  by (auto simp: segment_char_def is_ascii_alphanumeric_def is_cont_def less_eq_char_def)

lemma segment_char_seps [simp]:
  "\<not> segment_char CHR ''/''" "\<not> segment_char CHR '':''"
  by (simp_all add: segment_char_def is_ascii_alphanumeric_def less_eq_char_def)

lemma segment_ok_chars: "(\<forall>ch \<in> set (chars v). segment_ok ch) \<longleftrightarrow> (\<forall>c \<in> set v. segment_char c)"
proof
  assume ok: "\<forall>ch \<in> set (chars v). segment_ok ch"
  show "\<forall>c \<in> set v. segment_char c"
  proof
    fix c assume "c \<in> set v"
    then obtain ch where ch: "ch \<in> set (chars v)" "c \<in> set ch"
      by (metis UN_E concat_chars set_concat)
    with ok have "segment_ok ch" by blast
    with ch(2) show "segment_char c"
      by (cases ch rule: remdups_adj.cases) (auto simp: segment_ok_def)
  qed
next
  assume ok: "\<forall>c \<in> set v. segment_char c"
  then have "chars v = map (\<lambda>c. [c]) v"
    using segment_char_not_cont by (intro chars_ascii) blast
  with ok show "\<forall>ch \<in> set (chars v). segment_ok ch"
    by (auto simp: segment_ok_def)
qed

lemma validate_path_segment_Inr:
  "validate_path_segment k v = Inr () \<longleftrightarrow>
     v \<noteq> [] \<and> length v \<le> 64 \<and> (\<exists>c \<in> set v. c \<noteq> CHR ''.'') \<and> (\<forall>c \<in> set v. segment_char c)"
proof (cases "find (\<lambda>ch. \<not> segment_ok ch) (chars v)")
  case None
  then have "\<forall>c \<in> set v. segment_char c"
    by (simp add: find_None_iff segment_ok_chars [symmetric])
  with None show ?thesis
    by (auto simp: validate_path_segment_def WRITER_ID_MAX_LEN_def list_all_iff)
next
  case (Some ch)
  then have "\<not> (\<forall>c \<in> set v. segment_char c)"
    unfolding segment_ok_chars [symmetric] by (auto dest: find_SomeD)
  with Some show ?thesis
    by (auto simp: validate_path_segment_def)
qed

lemma validate_path_segment_err: "validate_path_segment k v = Inl e \<Longrightarrow> \<exists>m. e = Config m"
  by (auto simp: validate_path_segment_def split: if_splits option.splits)

lemma validate_writer_id_Inr:
  "validate_writer_id w = Inr () \<longleftrightarrow>
     w \<noteq> [] \<and> length w \<le> 64 \<and> (\<exists>c \<in> set w. c \<noteq> CHR ''.'') \<and> (\<forall>c \<in> set w. segment_char c)
     \<and> hd w \<noteq> CHR ''_''"
  by (cases w)
     (auto simp: validate_writer_id_def res_simps str_simps validate_path_segment_Inr prefix_def)

definition valid_ident :: "writer_identity \<Rightarrow> bool" where
  "valid_ident i \<longleftrightarrow> is_ok (validate_cluster_id (cluster_id i)) \<and> is_ok (validate_writer_id (writer_id i))"

lemma valid_ident_seps:
  assumes "valid_ident i"
  shows "CHR ''/'' \<notin> set (cluster_id i)" "CHR ''/'' \<notin> set (writer_id i)"
    "CHR '':'' \<notin> set (writer_id i)" "length (writer_id i) \<le> 64"
  using assms segment_char_seps
  by (auto simp: valid_ident_def is_ok_iff validate_cluster_id_def validate_path_segment_Inr
      validate_writer_id_Inr)

section \<open>Keys\<close>

lemma ident_path_inj:
  assumes i: "CHR ''/'' \<notin> set (cluster_id i)" "CHR ''/'' \<notin> set (writer_id i)"
    and j: "CHR ''/'' \<notin> set (cluster_id j)" "CHR ''/'' \<notin> set (writer_id j)"
    and eq: "ident_path i @ x = ident_path j @ y"
  shows "i = j \<and> x = y"
proof -
  have "cluster_id i = cluster_id j \<and> show_nat (unat (db_oid i)) = show_nat (unat (db_oid j))
      \<and> show_nat (unat (rel_oid i)) = show_nat (unat (rel_oid j)) \<and> writer_id i = writer_id j \<and> x = y"
    using eq i j by (simp add: ident_path_def sep_split)
  then show ?thesis
    by (auto dest!: show_nat_inj simp: word_unat_eq_iff intro: writer_identity.equality)
qed

lemma parse_stem_basename:
  assumes "0 \<le> start_offset f" "start_offset f \<le> i64_max" "0 \<le> end_offset f" "end_offset f \<le> i64_max"
  shows "parse_stem (show_nat_pad EPOCH_PAD (unat (epoch_ms f)) @ ''-''
     @ show_nat_pad SEQ_PAD (unat (seq f)) @ ''-o'' @ show_int (start_offset f) @ ''-''
     @ show_int (end_offset f)) gz
   = Some \<lparr>epoch_ms = epoch_ms f, seq = seq f, start_offset = start_offset f,
           end_offset = end_offset f, compressed = gz\<rparr>"
proof -
  have n: "CHR ''-'' \<notin> set (show_int (start_offset f))" "CHR ''-'' \<notin> set (show_int (end_offset f))"
    using assms by (simp_all add: show_int_def)
  then have o: "CHR ''-'' \<notin> set (CHR ''o'' # show_int (start_offset f))" by simp
  show ?thesis
    using n assms split_on_append [OF o] by (simp add: parse_stem_def str_simps)
qed

lemma parse_basename_basename:
  assumes "0 \<le> start_offset f" "start_offset f \<le> i64_max" "0 \<le> end_offset f" "end_offset f \<le> i64_max"
  shows "parse_basename (basename f) = Some f"
proof (cases "compressed f")
  case True
  have "basename f = (show_nat_pad EPOCH_PAD (unat (epoch_ms f)) @ ''-''
     @ show_nat_pad SEQ_PAD (unat (seq f)) @ ''-o'' @ show_int (start_offset f) @ ''-''
     @ show_int (end_offset f)) @ ''.csv.gz''" (is "_ = ?s @ _")
    using True by (simp add: basename_def)
  then have "strip_suffix ''.csv.gz'' (basename f) = Some ?s"
    by (simp only: strip_suffix_append)
  then show ?thesis
    using parse_stem_basename [OF assms, of True] True by (simp add: parse_basename_def)
next
  case False
  have "basename f = (show_nat_pad EPOCH_PAD (unat (epoch_ms f)) @ ''-''
     @ show_nat_pad SEQ_PAD (unat (seq f)) @ ''-o'' @ show_int (start_offset f) @ ''-''
     @ show_int (end_offset f)) @ ''.csv''" (is "_ = ?s @ _")
    using False by (simp add: basename_def)
  then have "strip_suffix ''.csv'' (basename f) = Some ?s" and e: "basename f = ?s @ ''.csv''"
    by (simp_all only: strip_suffix_append)
  moreover have "strip_suffix ''.csv.gz'' (basename f) = None"
    unfolding e by (auto simp: strip_suffix_None suffix_def append_eq_append_conv2 Cons_eq_append_conv)
  ultimately show ?thesis
    using parse_stem_basename [OF assms, of False] False by (simp add: parse_basename_def)
qed

text \<open>Offsets that \<open>append\<close> lets through, and files whose name decodes.\<close>

definition offsets_ok :: "staged_file \<Rightarrow> bool" where
  "offsets_ok f \<longleftrightarrow> 0 \<le> start_offset f \<and> start_offset f \<le> end_offset f \<and> end_offset f \<le> i64_max"

definition file_ok :: "staged_file \<Rightarrow> bool" where
  "file_ok f \<longleftrightarrow> slot_ok (epoch_ms f) (seq f) \<and> offsets_ok f"

definition slot :: "staged_file \<Rightarrow> u64 \<times> u32" where
  "slot f = (epoch_ms f, seq f)"

definition parse_key :: "writer_identity \<Rightarrow> string \<Rightarrow> staged_file option" where
  "parse_key i k = Option.bind (strip_prefix (staging_dir i) k) parse_basename"

text \<open>The fixed-width part of a name: what comes after it does not change the order.\<close>

definition slot_name :: "staged_file \<Rightarrow> string" where
  "slot_name f = show_nat_pad 13 (unat (epoch_ms f)) @ CHR ''-'' # show_nat_pad 7 (unat (seq f))"

lemma basename_slot_name:
  "basename f = slot_name f @ ''-o'' @ show_int (start_offset f) @ ''-'' @ show_int (end_offset f)
     @ (if compressed f then ''.csv.gz'' else ''.csv'')"
  by (simp add: basename_def slot_name_def EPOCH_PAD_def SEQ_PAD_def)

lemma slot_widths:
  assumes "slot_ok (epoch_ms f) (seq f)"
  shows "length (show_nat_pad 13 (unat (epoch_ms f))) = 13"
    "length (show_nat_pad 7 (unat (seq f))) = 7"
  using assms by (simp_all add: slot_ok_unat length_show_nat_pad)

lemma slot_name_less:
  assumes ok: "slot_ok (epoch_ms f) (seq f)" "slot_ok (epoch_ms g) (seq g)" and lt: "slot f < slot g"
  shows "slot_name f < slot_name g"
proof (cases "epoch_ms f = epoch_ms g")
  case True
  with lt have "unat (seq f) < unat (seq g)"
    by (simp add: slot_def word_less_nat_alt)
  then have "show_nat_pad 7 (unat (seq f)) < show_nat_pad 7 (unat (seq g))"
    using ok by (intro show_nat_pad_less) (simp_all add: slot_ok_unat)
  with True show ?thesis by (simp add: slot_name_def less_list_code)
next
  case False
  with lt have "unat (epoch_ms f) < unat (epoch_ms g)"
    by (auto simp: slot_def less_prod_def' word_less_nat_alt)
  then have "show_nat_pad 13 (unat (epoch_ms f)) < show_nat_pad 13 (unat (epoch_ms g))"
    using ok by (intro show_nat_pad_less) (simp_all add: slot_ok_unat)
  then show ?thesis
    unfolding slot_name_def using ok by (intro list_less_append_le) (simp_all add: slot_widths)
qed

lemma length_slot_name: "slot_ok (epoch_ms f) (seq f) \<Longrightarrow> length (slot_name f) = 21"
  by (simp add: slot_name_def slot_widths)

lemma slot_name_inj:
  assumes "slot_ok (epoch_ms f) (seq f)" "slot_ok (epoch_ms g) (seq g)" "slot_name f = slot_name g"
  shows "slot f = slot g"
  using assms slot_name_less [of f g] slot_name_less [of g f]
  by (metis less_irrefl linorder_neqE)

interpretation serial: ordered_codec "\<lambda>(e, s). slot_ok e s"
  "\<lambda>(e, s). projr (encode_serial_seq e s)" "\<lambda>v. Some (decode_serial_seq v)" "\<lambda>x. x"
  by unfold_locales
     (auto simp: encode_ok decode_serial_nat serial_nat_less_iff simp del: of_nat_unat)

interpretation file_key: ordered_codec file_ok "\<lambda>f. object_key f i" "parse_key i" slot for i
proof unfold_locales
  fix f assume "file_ok f"
  then show "parse_key i (object_key f i) = Some f"
    by (simp add: parse_key_def object_key_def file_ok_def offsets_ok_def parse_basename_basename)
next
  fix f g assume "file_ok f" "file_ok g" "slot f < slot g"
  then show "object_key f i < object_key g i"
    unfolding object_key_def basename_slot_name list_less_append_same
    by (intro list_less_append_le slot_name_less) (simp_all add: file_ok_def length_slot_name)
qed

section \<open>Properties\<close>

text \<open>
  C23. The serial sequence is an exact encoding of (epoch, seq): where encoding succeeds the value is
  a non-negative \<open>i64\<close>, decoding gives the pair back, and the numeric order the server sorts by is
  the order of the pairs.
\<close>
theorem serial_seq_faithful:
  assumes "encode_serial_seq e s = Inr v" and "encode_serial_seq e' s' = Inr v'"
  shows "0 \<le> v \<and> v \<le> i64_max \<and> decode_serial_seq v = (e, s) \<and> (v < v' \<longleftrightarrow> (e, s) < (e', s'))"
proof -
  from assms have ok: "slot_ok e s" "slot_ok e' s'"
    and v: "v = int (serial_nat e s)" "v' = int (serial_nat e' s')"
    by (simp_all add: res_simps)
  have "v \<le> i64_max"
    using serial_int_bound [OF ok(1)] by (simp only: v)
  then show ?thesis
    using ok by (simp add: v decode_serial_nat serial_nat_less_iff)
qed

theorem serial_seq_faithful_witness:
  "encode_serial_seq 1724500000000 1 = Inr 1808269312000000001 \<and>
   decode_serial_seq 1808269312000000001 = (1724500000000, 1)"
proof -
  have a: "encode_serial_seq 1724500000000 1 = Inr 1808269312000000001" by code_simp
  show ?thesis using a serial_seq_faithful [OF a a] by simp
qed

text \<open>
  C24. A staged file is identified entirely by its name: parsing the name of a file whose offsets are
  not negative gives the file back, for every epoch, sequence number and suffix.
\<close>
theorem parse_basename_roundtrip:
  assumes "0 \<le> start_offset f" and "0 \<le> end_offset f"
    and "start_offset f \<le> i64_max" and "end_offset f \<le> i64_max"
  shows "parse_basename (basename f) = Some f"
  using assms by (simp add: parse_basename_basename)

theorem parse_basename_roundtrip_witness:
  "parse_basename (basename \<lparr>epoch_ms = 1700000000000, seq = 7, start_offset = 10,
      end_offset = 20, compressed = True\<rparr>)
   = Some \<lparr>epoch_ms = 1700000000000, seq = 7, start_offset = 10, end_offset = 20, compressed = True\<rparr>"
  by (rule parse_basename_roundtrip) (simp_all add: i64_max_def)

text \<open>
  C25. Sorting the object keys of a writer directory as strings, as the object store lists them, is
  sorting the files by (epoch, seq).
\<close>
theorem object_keys_sorted:
  assumes "list_all file_ok fs" and "distinct (map slot fs)"
  shows "sorted (map (\<lambda>f. object_key f i) fs) \<longleftrightarrow> sorted (map slot fs)"
  using assms by (rule file_key.sorted_enc_iff)

theorem object_keys_sorted_witness:
  "sorted (map (\<lambda>f. object_key f \<lparr>cluster_id = ''c'', db_oid = 1, rel_oid = 2, writer_id = ''w''\<rparr>)
     [\<lparr>epoch_ms = 99, seq = 0, start_offset = 0, end_offset = 4, compressed = False\<rparr>,
      \<lparr>epoch_ms = 100, seq = 0, start_offset = 5, end_offset = 9, compressed = True\<rparr>])"
  by (subst object_keys_sorted)
     (simp_all add: file_ok_def slot_ok_unat offsets_ok_def i64_max_def slot_def)

text \<open>
  C32. No staged object is a key prefix of another: two staged keys of validated writers, one a prefix
  of the other, belong to the same writer and the same (epoch, seq).
\<close>
theorem staged_keys_prefix_free:
  assumes "valid_ident i" "valid_ident j"
    and "slot_ok (epoch_ms f) (seq f)" "slot_ok (epoch_ms g) (seq g)"
    and "prefix (object_key f i) (object_key g j)"
  shows "i = j \<and> slot f = slot g"
proof -
  from assms(5) obtain z where "object_key g j = object_key f i @ z" by (auto simp: prefix_def)
  then have "ident_path i @ basename f @ z = ident_path j @ basename g"
    by (simp add: object_key_def staging_dir_def)
  then have "i = j" and b: "basename f @ z = basename g"
    using ident_path_inj valid_ident_seps assms(1,2) by metis+
  have "take 21 (basename f @ z) = slot_name f" "take 21 (basename g) = slot_name g"
    using assms(3,4) by (simp_all add: basename_slot_name length_slot_name)
  with b have "slot_name f = slot_name g" by simp
  then have "slot f = slot g" using assms(3,4) by (intro slot_name_inj)
  with \<open>i = j\<close> show ?thesis by simp
qed

theorem staged_keys_prefix_free_witness:
  "\<not> prefix
     (object_key \<lparr>epoch_ms = 1, seq = 1, start_offset = 0, end_offset = 4, compressed = False\<rparr>
        \<lparr>cluster_id = ''c'', db_oid = 1, rel_oid = 2, writer_id = ''w''\<rparr>)
     (object_key \<lparr>epoch_ms = 1, seq = 10, start_offset = 0, end_offset = 4, compressed = True\<rparr>
        \<lparr>cluster_id = ''c'', db_oid = 1, rel_oid = 2, writer_id = ''w''\<rparr>)"
  (is "\<not> prefix (object_key ?f ?i) (object_key ?g ?i)")
proof
  assume p: "prefix (object_key ?f ?i) (object_key ?g ?i)"
  have "valid_ident ?i" by code_simp
  with p show False
    using staged_keys_prefix_free [of ?i ?i ?f ?g] by (simp add: slot_ok_unat slot_def)
qed

text \<open>
  C36. The job identifier is an idempotency key: for a validated writer it is always produced, within
  the server's 128 bytes, and equal identifiers name the same table, writer, epoch and seq.
\<close>
theorem job_identifier_unique:
  assumes "valid_ident i" "valid_ident j"
  shows "\<exists>s t. job_identifier f i = Inr s \<and> job_identifier g j = Inr t \<and>
     length s \<le> 128 \<and>
     (s = t \<longleftrightarrow> db_oid i = db_oid j \<and> rel_oid i = rel_oid j \<and> writer_id i = writer_id j \<and> slot f = slot g)"
proof -
  let ?id = "\<lambda>f i. show_nat (unat (db_oid i)) @ '':'' @ show_nat (unat (rel_oid i)) @ '':''
      @ writer_id i @ '':'' @ show_nat (unat (epoch_ms f)) @ '':'' @ show_nat (unat (seq f))"
  have len: "length (?id f i) \<le> 118" if "valid_ident i" for f i
    using valid_ident_seps(4) [OF that] length_show_u32 [of "db_oid i"] length_show_u32 [of "rel_oid i"]
      length_show_u64 [of "epoch_ms f"] length_show_u32 [of "seq f"]
    by (simp del: of_nat_unat)
  have ok: "job_identifier f i = Inr (?id f i)" if "valid_ident i" for f i
    using len [OF that, of f] by (simp add: job_identifier_def IDENTIFIER_MAX_LEN_def)
  have eq: "?id f i = ?id g j \<longleftrightarrow>
      db_oid i = db_oid j \<and> rel_oid i = rel_oid j \<and> writer_id i = writer_id j \<and> slot f = slot g"
    using valid_ident_seps(3) [OF assms(1)] valid_ident_seps(3) [OF assms(2)]
    by (auto simp: sep_split slot_def word_unat_eq_iff dest: show_nat_inj)
  show ?thesis
    using ok assms len [OF assms(1), of f] eq by auto
qed

theorem job_identifier_unique_witness:
  "job_identifier \<lparr>epoch_ms = 1, seq = 23, start_offset = 0, end_offset = 0, compressed = True\<rparr>
     \<lparr>cluster_id = ''c'', db_oid = 1, rel_oid = 2, writer_id = ''w''\<rparr> \<noteq>
   job_identifier \<lparr>epoch_ms = 12, seq = 3, start_offset = 0, end_offset = 0, compressed = True\<rparr>
     \<lparr>cluster_id = ''c'', db_oid = 1, rel_oid = 2, writer_id = ''w''\<rparr>"
  (is "job_identifier ?f ?i \<noteq> job_identifier ?g ?i")
proof -
  have "valid_ident ?i" by code_simp
  then show ?thesis using job_identifier_unique [of ?i ?i ?f ?g] by (auto simp: slot_def)
qed

text \<open>
  A path segment accepted by \<open>validate_path_segment\<close> is exactly 1 to 64 bytes of
  \<open>[A-Za-z0-9._-]\<close>, not all dots; then the staging directory splits at \<open>/\<close> into precisely its
  five segments, so an identity can not climb out of \<open>staging/\<close>.
\<close>
lemma valid_identity_segments:
  "valid_ident i \<Longrightarrow> split_on CHR ''/'' (staging_dir i) =
     [''staging'', cluster_id i, show_nat (unat (db_oid i)), show_nat (unat (rel_oid i)),
      writer_id i, []] \<and>
   (\<forall>s \<in> {cluster_id i, writer_id i}. 1 \<le> length s \<and> length s \<le> 64 \<and> s \<noteq> ''.'' \<and> s \<noteq> ''..''
      \<and> (\<forall>c \<in> set s. segment_char c))"
proof -
  assume v: "valid_ident i"
  have dot: "(\<exists>c \<in> set s. c \<noteq> CHR ''.'') \<Longrightarrow> s \<noteq> ''.'' \<and> s \<noteq> ''..''" for s by auto
  have "split_on CHR ''/'' (''staging'' @ CHR ''/'' # ident_path i) =
     ''staging'' # split_on CHR ''/'' (ident_path i)"
    by (rule split_on_append) simp
  then show ?thesis
    using v valid_ident_seps(1,2) [OF v]
    by (auto simp: staging_dir_def ident_path_def split_on_append valid_ident_def is_ok_iff
        validate_cluster_id_def validate_path_segment_Inr validate_writer_id_Inr Suc_le_eq)
qed

end
