(* ===== verification/Recovery.thy ===== *)
theory Recovery
  imports Naming_Keys "HOL-Library.Multiset"
begin

text \<open>
  \<open>src/recovery.rs\<close>: what \<open>open_table\<close> computes from the LIST of the staging directory and
  the watermark of the serial group, and the epoch of a fresh writer session.
\<close>

record recovery_plan =
  kafka_resume_offset :: "i64 option"
  backfill :: "staged_file list"
  max_staged :: "(u64 \<times> u32) option"

definition above_watermark :: "i64 option \<Rightarrow> i64 \<Rightarrow> bool" where
  "above_watermark watermark s = (case watermark of None \<Rightarrow> True | Some w \<Rightarrow> s > w)"

fun collect_backfill :: "i64 option \<Rightarrow> staged_file list \<Rightarrow> staged_file list result" where
  "collect_backfill watermark [] = Inr []"
| "collect_backfill watermark (f # fs) =
     res_bind (serial_seq f) (\<lambda>s.
     res_bind (collect_backfill watermark fs) (\<lambda>rest.
       Inr (if above_watermark watermark s then f # rest else rest)))"

definition max_list :: "i64 list \<Rightarrow> i64 option" where
  "max_list xs = (case xs of [] \<Rightarrow> None | y # ys \<Rightarrow> Some (fold max ys y))"

text \<open>
  \<open>sort_unstable_by_key\<close> promises a sorted permutation; the stable sort is the one modelled. The
  two differ only on files with equal \<open>(epoch, seq)\<close>, which the code reports in its log.
\<close>

definition plan_recovery :: "staged_file list \<Rightarrow> i64 option \<Rightarrow> recovery_plan result" where
  "plan_recovery files watermark =
     (let staged = sort_key (\<lambda>f. (epoch_ms f, seq f)) files;
          resume = max_list (map (\<lambda>f. wrap_i64 (end_offset f + 1)) staged);
          top = (if staged = [] then None else Some (epoch_ms (last staged), seq (last staged)))
      in res_bind (collect_backfill watermark staged) (\<lambda>bf.
           Inr \<lparr>kafka_resume_offset = resume, backfill = bf, max_staged = top\<rparr>))"

definition next_epoch :: "u64 \<Rightarrow> (u64 \<times> u32) option \<Rightarrow> u64" where
  "next_epoch now_ms mx =
     (case mx of
        Some (max_epoch, _) \<Rightarrow> if now_ms \<le> max_epoch then max_epoch + 1 else now_ms
      | None \<Rightarrow> now_ms)"

section \<open>Lemmas\<close>

lemma fold_max: "fold max ys (y :: int) = Max (set (y # ys))"
  by (simp only: Max.set_eq_fold)

lemma max_list_Max: "max_list xs = (if xs = [] then None else Some (Max (set xs)))"
  by (cases xs) (simp_all only: max_list_def fold_max list.case if_True if_False list.distinct simp_thms)

text \<open>The files the server may still need: those whose serial sequence is above the watermark.\<close>

definition pending :: "i64 option \<Rightarrow> staged_file \<Rightarrow> bool" where
  "pending w f \<longleftrightarrow> above_watermark w (int (serial_nat (epoch_ms f) (seq f)))"

lemma collect_backfill_ok:
  "list_all (\<lambda>f. slot_ok (epoch_ms f) (seq f)) fs \<Longrightarrow>
     collect_backfill w fs = Inr (filter (pending w) fs)"
  by (induction fs) (simp_all add: serial_seq_def encode_ok pending_def)

lemma collect_backfill_err:
  "\<not> list_all (\<lambda>f. slot_ok (epoch_ms f) (seq f)) fs \<Longrightarrow> \<exists>m. collect_backfill w fs = Inl (Naming m)"
proof (induction fs)
  case (Cons f fs)
  show ?case
  proof (cases "slot_ok (epoch_ms f) (seq f)")
    case True
    with Cons show ?thesis by (auto simp: serial_seq_def encode_ok)
  next
    case False
    then show ?thesis using encode_err by (auto simp: serial_seq_def) fastforce
  qed
qed simp

lemma sort_key_Nil [simp]: "sort_key k xs = [] \<longleftrightarrow> xs = []"
  by (metis length_0_conv length_sort)

lemma last_sorted_ge: "sorted xs \<Longrightarrow> x \<in> set xs \<Longrightarrow> x \<le> last (xs :: 'a::linorder list)"
proof (induction xs)
  case (Cons y ys)
  then show ?case by (cases ys) auto
qed simp

lemma Max_map_Suc: "xs \<noteq> [] \<Longrightarrow> Max ((\<lambda>f. g f + 1) ` set xs) = Max (g ` set xs) + (1 :: int)"
proof -
  assume "xs \<noteq> []"
  then have "Max ((\<lambda>x. x + 1) ` (g ` set xs)) = Max (g ` set xs) + 1"
    by (intro mono_Max_commute [symmetric]) (auto simp: mono_def)
  then show ?thesis by (simp add: image_image)
qed

lemma max_list_ends:
  assumes "\<forall>f \<in> set fs. offsets_ok f \<and> end_offset f < i64_max"
  shows "max_list (map (\<lambda>f. wrap_i64 (end_offset f + 1)) fs) =
     (if fs = [] then None else Some (Max (end_offset ` set fs) + 1))"
proof -
  have "map (\<lambda>f. wrap_i64 (end_offset f + 1)) fs = map (\<lambda>f. end_offset f + 1) fs"
    using assms by (auto simp: in_i64_def offsets_ok_def i64_min_def i64_max_def)
  then show ?thesis by (simp add: max_list_Max Max_map_Suc)
qed

lemma epoch_succ_less: "slot_ok e q \<Longrightarrow> e < e + 1"
proof -
  assume "slot_ok e q"
  then have "unat e < 8796093022208" by (simp add: slot_ok_unat)
  then have "unat (e + 1) = unat e + 1"
    by (simp only: unat_word_ariths) simp
  then show ?thesis by (simp only: word_less_nat_alt)
qed

text \<open>What an accepted plan says of the listing.\<close>

lemma plan_recovery_facts:
  assumes "plan_recovery fs w = Inr p"
  shows "\<forall>f \<in> set fs. slot_ok (epoch_ms f) (seq f)"
    and "backfill p = filter (pending w) (sort_key slot fs)"
    and "\<forall>f \<in> set fs. \<exists>t. max_staged p = Some t \<and> epoch_ms f \<le> fst t"
    and "max_staged p = Some t \<Longrightarrow> \<exists>f \<in> set fs. t = slot f"
proof -
  let ?s = "sort_key slot fs"
  have key: "(\<lambda>f. (epoch_ms f, seq f)) = slot" by (simp add: slot_def fun_eq_iff)
  have ok: "list_all (\<lambda>f. slot_ok (epoch_ms f) (seq f)) ?s"
  proof (rule ccontr)
    assume "\<not> ?thesis"
    then obtain m where "collect_backfill w ?s = Inl (Naming m)"
      using collect_backfill_err by blast
    with assms show False by (simp add: plan_recovery_def Let_def key)
  qed
  then show "\<forall>f \<in> set fs. slot_ok (epoch_ms f) (seq f)" by (simp add: list_all_iff)
  have p: "backfill p = filter (pending w) ?s" "max_staged p = (if ?s = [] then None else Some (slot (last ?s)))"
    using assms collect_backfill_ok [OF ok] by (auto simp: plan_recovery_def Let_def key slot_def)
  then show "backfill p = filter (pending w) ?s" by blast
  have l: "epoch_ms f \<le> fst (slot (last ?s)) \<and> ?s \<noteq> []" if "f \<in> set fs" for f
  proof -
    from that have ne: "?s \<noteq> []" by auto
    have "slot f \<le> last (map slot ?s)" using that by (intro last_sorted_ge) auto
    with ne show ?thesis by (auto simp: last_map slot_def less_eq_prod_def)
  qed
  then show "\<forall>f \<in> set fs. \<exists>t. max_staged p = Some t \<and> epoch_ms f \<le> fst t" using p(2) by simp
  show "max_staged p = Some t \<Longrightarrow> \<exists>f \<in> set fs. t = slot f"
    using p(2) last_in_set [of ?s] by (auto split: if_splits)
qed

section \<open>Properties\<close>

text \<open>
  C17. Recovery computes what its header promises: the resume offset is one past the largest end offset
  of all staged files, whatever their epoch and watermark; the backfill is exactly the files whose
  serial sequence is above the watermark, oldest first; the top pair is the largest one staged.
\<close>
theorem plan_recovery_correct:
  assumes "\<forall>f \<in> set fs. file_ok f \<and> end_offset f < i64_max"
  shows "\<exists>p. plan_recovery fs w = Inr p \<and>
     kafka_resume_offset p = (if fs = [] then None else Some (Max (end_offset ` set fs) + 1)) \<and>
     mset (backfill p) = filter_mset (pending w) (mset fs) \<and>
     sorted (map slot (backfill p)) \<and>
     max_staged p = (if fs = [] then None else Some (Max (slot ` set fs)))"
proof -
  let ?s = "sort_key slot fs"
  have key: "(\<lambda>f. (epoch_ms f, seq f)) = slot" by (simp add: slot_def fun_eq_iff)
  have bf: "collect_backfill w ?s = Inr (filter (pending w) ?s)"
    using assms by (intro collect_backfill_ok) (simp add: list_all_iff file_ok_def)
  have mx: "max_list (map (\<lambda>f. wrap_i64 (end_offset f + 1)) ?s)
      = (if fs = [] then None else Some (Max (end_offset ` set fs) + 1))"
    using assms max_list_ends [of ?s] by (simp add: file_ok_def)
  have top: "slot (last ?s) = Max (slot ` set fs)" if "fs \<noteq> []"
  proof -
    have ne: "?s \<noteq> []" using that by simp
    then have l: "slot (last ?s) = last (map slot ?s)" by (simp add: last_map)
    have "x \<le> last (map slot ?s)" if "x \<in> slot ` set fs" for x
      using that by (intro last_sorted_ge) simp_all
    moreover have "slot (last ?s) \<in> slot ` set fs"
      using ne last_in_set [OF ne] by simp
    ultimately show ?thesis using l by (intro Max_eqI [symmetric]) auto
  qed
  have "sorted (map slot (filter (pending w) ?s))"
    by (metis filter_sort sorted_sort_key)
  moreover have "mset (filter (pending w) ?s) = filter_mset (pending w) (mset fs)" by simp
  moreover have "(if ?s = [] then None else Some (epoch_ms (last ?s), seq (last ?s)))
      = (if fs = [] then None else Some (Max (slot ` set fs)))"
    using top by (auto simp: slot_def [symmetric])
  ultimately show ?thesis
    by (simp only: plan_recovery_def Let_def key bf mx res_bind.simps sum.inject) auto
qed

theorem plan_recovery_correct_witness:
  "\<exists>p. plan_recovery
      [\<lparr>epoch_ms = 200, seq = 0, start_offset = 5, end_offset = 7, compressed = True\<rparr>,
       \<lparr>epoch_ms = 100, seq = 6, start_offset = 8, end_offset = 9, compressed = True\<rparr>]
      (Some 104857606) = Inr p \<and> kafka_resume_offset p = Some 10 \<and> max_staged p = Some (200, 0)"
  using plan_recovery_correct [of
      "[\<lparr>epoch_ms = 200, seq = 0, start_offset = 5, end_offset = 7, compressed = True\<rparr>,
       \<lparr>epoch_ms = 100, seq = 6, start_offset = 8, end_offset = 9, compressed = True\<rparr>]" "Some 104857606"]
  by (auto simp: file_ok_def slot_ok_unat offsets_ok_def i64_max_def slot_def max_def less_eq_prod_def)

text \<open>
  Anti-rollback: however the wall clock moved, the epoch of a new session is at least the clock
  and makes every serial sequence of the session larger than the one of any file of the listing.
\<close>
lemma next_epoch_outranks:
  assumes "plan_recovery fs w = Inr p" and "f \<in> set fs"
    and "serial_seq f = Inr old" and "encode_serial_seq (next_epoch now (max_staged p)) s = Inr new"
  shows "old < new \<and> now \<le> next_epoch now (max_staged p)"
proof -
  note facts = plan_recovery_facts [OF assms(1)]
  from facts(3) assms(2) obtain t where t: "max_staged p = Some t" "epoch_ms f \<le> fst t" by blast
  from facts(4) [OF t(1)] facts(1) have "slot_ok (fst t) (snd t)" by (auto simp: slot_def)
  then have "fst t < fst t + 1" by (rule epoch_succ_less)
  with t have "epoch_ms f < next_epoch now (max_staged p) \<and> now \<le> next_epoch now (max_staged p)"
    by (cases t) (auto simp: next_epoch_def)
  then show ?thesis
    using assms(3,4) serial_nat_less_iff
    by (auto simp: serial_seq_def res_simps less_prod_def')
qed

end
