(* ===== verification/Staging_Store.thy ===== *)
theory Staging_Store
  imports Config_Rules Naming_Keys
begin

text \<open>
  \<open>src/state.rs\<close>, \<open>src/lock.rs\<close> and \<open>src/staging.rs\<close>: the records kept under \<open>_meta/\<close>, the store
  operations of the crate over an object store it is given, and the swappable staging location.

  The object store (\<open>opendal::Operator\<close>) and JSON (\<open>serde_json\<close>) are foreign. They are the parameters
  \<open>operator\<close> and \<open>json_api\<close>; \<open>store_laws\<close>, \<open>json_state_law\<close> and \<open>json_lock_law\<close> state what the crate
  relies on.
\<close>

section \<open>State and lock records\<close>

definition STATE_VERSION :: u32 where "STATE_VERSION = 1"

record state_file =
  sf_v :: u32
  resume_offset :: "i64 option"
  max_epoch_used :: u64
  sf_cluster_id :: string
  sf_database :: string
  sf_schema :: string
  sf_table :: string
  sf_writer_id :: string
  updated_at_ms :: u64

record lock_file =
  lf_v :: u32
  instance_uuid :: string
  pid :: u32
  host :: string
  acquired_at_ms :: u64
  heartbeat_at_ms :: u64

definition LOCK_VERSION :: u32 where "LOCK_VERSION = 1"

definition UNKNOWN_HOST :: string where "UNKNOWN_HOST = ''unknown-host''"

text \<open>
  What a process reads from its machine: the wall clock, the kernel's host name file, the HOSTNAME
  variable, its pid, the pids that have an entry under /proc, and whether it runs on Linux.
\<close>

record machine_env =
  wall_clock :: "u64 option"
  kernel_hostname :: "string option"
  env_hostname :: "string option"
  own_pid :: u32
  live_pids :: "u32 list"
  target_linux :: bool

definition now_ms :: "machine_env \<Rightarrow> u64" where
  "now_ms m = (case wall_clock m of Some t \<Rightarrow> t | None \<Rightarrow> 0)"

definition hostname :: "machine_env \<Rightarrow> string" where
  "hostname m =
     (let fallback = (case env_hostname m of Some h \<Rightarrow> h | None \<Rightarrow> UNKNOWN_HOST) in
      case kernel_hostname m of
        Some h \<Rightarrow> if trim h \<noteq> [] then trim h else fallback
      | None \<Rightarrow> fallback)"

text \<open>The two hashes come from the seeded hasher of the standard library: arguments here.\<close>

definition new_instance_uuid :: "machine_env \<Rightarrow> u64 \<Rightarrow> u64 \<Rightarrow> string" where
  "new_instance_uuid m r1 r2 =
     hostname m @ '':'' @ show_nat (unat (own_pid m)) @ '':''
     @ hex_digits 16 (unat r1) @ hex_digits 16 (unat r2)"

definition lock_new :: "machine_env \<Rightarrow> string \<Rightarrow> lock_file" where
  "lock_new m uuid =
     \<lparr>lf_v = LOCK_VERSION, instance_uuid = uuid, pid = own_pid m, host = hostname m,
      acquired_at_ms = now_ms m, heartbeat_at_ms = now_ms m\<rparr>"

definition is_stale :: "machine_env \<Rightarrow> lock_file \<Rightarrow> u64 \<Rightarrow> bool" where
  "is_stale m l lease_timeout_ms \<longleftrightarrow> sat_sub_u64 (now_ms m) (heartbeat_at_ms l) > lease_timeout_ms"

definition provably_dead_on_this_host :: "machine_env \<Rightarrow> lock_file \<Rightarrow> bool" where
  "provably_dead_on_this_host m l \<longleftrightarrow>
     (if \<not> target_linux m then False
      else if host l = UNKNOWN_HOST \<or> host l \<noteq> hostname m then False
      else pid l \<notin> set (live_pids m))"

definition lock_describe :: "machine_env \<Rightarrow> lock_file \<Rightarrow> string" where
  "lock_describe m l =
     ''held by '' @ instance_uuid l @ '' (pid '' @ show_nat (unat (pid l)) @ '') on '' @ host l
     @ '', last heartbeat ''
     @ show_nat (unat (sat_sub_u64 (now_ms m) (heartbeat_at_ms l)) div 1000) @ ''s ago''"

section \<open>The parameters\<close>

record entry =
  entry_name :: string
  entry_is_dir :: bool

record 's operator =
  op_write :: "string \<Rightarrow> string \<Rightarrow> 's \<Rightarrow> (storage_error + unit) \<times> 's"
  op_read :: "string \<Rightarrow> 's \<Rightarrow> (storage_error + string) \<times> 's"
  op_list :: "string \<Rightarrow> 's \<Rightarrow> (storage_error + entry list) \<times> 's"
  op_delete :: "string \<Rightarrow> 's \<Rightarrow> (storage_error + unit) \<times> 's"

record json_api =
  state_to_bytes :: "state_file \<Rightarrow> string"
  state_from_bytes :: "string \<Rightarrow> string + state_file"
  lock_to_bytes :: "lock_file \<Rightarrow> string"
  lock_from_bytes :: "string \<Rightarrow> string + lock_file"

definition json_state_law :: "json_api \<Rightarrow> state_file \<Rightarrow> bool" where
  "json_state_law j st \<longleftrightarrow> state_from_bytes j (state_to_bytes j st) = Inr st"

definition json_lock_law :: "json_api \<Rightarrow> lock_file \<Rightarrow> bool" where
  "json_lock_law j l \<longleftrightarrow> lock_from_bytes j (lock_to_bytes j l) = Inr l"

text \<open>
  \<open>obj\<close> reads off the objects a store holds. A write that answers Ok has replaced exactly its object,
  one that fails may or may not have; reads and lists change nothing, a read answers the object, and
  NotFound only for an absent one; a delete that answers Ok has removed exactly its object.
\<close>

definition store_laws :: "'s operator \<Rightarrow> ('s \<Rightarrow> string \<Rightarrow> string option) \<Rightarrow> bool" where
  "store_laws oper obj \<longleftrightarrow>
     (\<forall>k b s r s'. op_write oper k b s = (r, s') \<longrightarrow>
        obj s' = (obj s)(k \<mapsto> b) \<or> (\<not> is_ok r \<and> obj s' = obj s))
   \<and> (\<forall>k s r s'. op_read oper k s = (r, s') \<longrightarrow> obj s' = obj s \<and>
        (case r of Inr b \<Rightarrow> obj s k = Some b
         | Inl e \<Rightarrow> storage_kind e = NotFound \<longrightarrow> obj s k = None))
   \<and> (\<forall>d s. obj (snd (op_list oper d s)) = obj s)
   \<and> (\<forall>k s r s'. op_delete oper k s = (r, s') \<longrightarrow>
        obj s' = (obj s)(k := None) \<or> (\<not> is_ok r \<and> obj s' = obj s))"

section \<open>Store operations\<close>

definition lift_storage :: "(storage_error + 'a) \<times> 's \<Rightarrow> 'a result \<times> 's" where
  "lift_storage r = (case r of (Inl e, s) \<Rightarrow> (Inl (Storage e), s) | (Inr x, s) \<Rightarrow> (Inr x, s))"

definition put :: "'s operator \<Rightarrow> string \<Rightarrow> string \<Rightarrow> 's \<Rightarrow> unit result \<times> 's" where
  "put oper key bytes s = lift_storage (op_write oper key bytes s)"

fun sort_entries :: "entry list \<Rightarrow> staged_file list \<times> string list" where
  "sort_entries [] = ([], [])"
| "sort_entries (en # ens) =
     (let (staged, unknown) = sort_entries ens in
      if entry_is_dir en then (staged, unknown)
      else case parse_basename (entry_name en) of
             Some f \<Rightarrow> (f # staged, unknown)
           | None \<Rightarrow> (staged, entry_name en # unknown))"

definition list_staged ::
  "'s operator \<Rightarrow> writer_identity \<Rightarrow> 's \<Rightarrow> (staged_file list \<times> string list) result \<times> 's" where
  "list_staged oper ident s =
     (case op_list oper (staging_dir ident) s of
        (Inl e, s') \<Rightarrow> (Inl (Storage e), s')
      | (Inr entries, s') \<Rightarrow> (Inr (sort_entries entries), s'))"

definition msg_corrupt :: "string \<Rightarrow> string \<Rightarrow> string \<Rightarrow> string \<Rightarrow> string" where
  "msg_corrupt what key e hint =
     ''corrupt writer '' @ what @ '' at `'' @ key @ ''`: '' @ e @ ''; refusing to guess ''
     @ [CHR 0xE2, CHR 0x80, CHR 0x94] @ hint"

definition read_state ::
  "'s operator \<Rightarrow> json_api \<Rightarrow> writer_identity \<Rightarrow> 's \<Rightarrow> state_file option result \<times> 's" where
  "read_state oper j ident s =
     (case op_read oper (state_key ident) s of
        (Inr bytes, s') \<Rightarrow>
          (case state_from_bytes j bytes of
             Inl e \<Rightarrow> (Inl (Config (msg_corrupt ''state'' (state_key ident) e
                        '' delete the object explicitly to start fresh'')), s')
           | Inr st \<Rightarrow> (Inr (Some st), s'))
      | (Inl e, s') \<Rightarrow>
          if storage_kind e = NotFound then (Inr None, s') else (Inl (Storage e), s'))"

definition write_state ::
  "'s operator \<Rightarrow> json_api \<Rightarrow> writer_identity \<Rightarrow> state_file \<Rightarrow> 's \<Rightarrow> unit result \<times> 's" where
  "write_state oper j ident st s =
     lift_storage (op_write oper (state_key ident) (state_to_bytes j st) s)"

definition delete_staged ::
  "'s operator \<Rightarrow> writer_identity \<Rightarrow> staged_file \<Rightarrow> 's \<Rightarrow> unit result \<times> 's" where
  "delete_staged oper ident f s = lift_storage (op_delete oper (object_key f ident) s)"

definition read_lock ::
  "'s operator \<Rightarrow> json_api \<Rightarrow> writer_identity \<Rightarrow> 's \<Rightarrow> lock_file option result \<times> 's" where
  "read_lock oper j ident s =
     (case op_read oper (lock_key ident) s of
        (Inr bytes, s') \<Rightarrow>
          (case lock_from_bytes j bytes of
             Inl e \<Rightarrow> (Inl (Config (msg_corrupt ''lock'' (lock_key ident) e
                        ''                          delete the object explicitly to force-release'')), s')
           | Inr l \<Rightarrow> (Inr (Some l), s'))
      | (Inl e, s') \<Rightarrow>
          if storage_kind e = NotFound then (Inr None, s') else (Inl (Storage e), s'))"

definition write_lock ::
  "'s operator \<Rightarrow> json_api \<Rightarrow> writer_identity \<Rightarrow> lock_file \<Rightarrow> 's \<Rightarrow> unit result \<times> 's" where
  "write_lock oper j ident l s =
     lift_storage (op_write oper (lock_key ident) (lock_to_bytes j l) s)"

definition delete_lock :: "'s operator \<Rightarrow> writer_identity \<Rightarrow> 's \<Rightarrow> unit result \<times> 's" where
  "delete_lock oper ident s = lift_storage (op_delete oper (lock_key ident) s)"

definition delete_state :: "'s operator \<Rightarrow> writer_identity \<Rightarrow> 's \<Rightarrow> unit result \<times> 's" where
  "delete_state oper ident s = lift_storage (op_delete oper (state_key ident) s)"

section \<open>The staging location\<close>

definition normalize_root :: "string \<Rightarrow> string" where
  "normalize_root px =
     (let trimmed = trim_matches CHR ''/'' px in
      if trimmed = [] then ''/'' else ''/'' @ trimmed @ ''/'')"

text \<open>What \<open>StagingStore::new\<close> hands to the builder of the service.\<close>

record op_config =
  oc_service :: staging_service
  oc_endpoint :: string
  oc_bucket :: string
  oc_root :: string
  oc_key_id :: string
  oc_secret :: string
  oc_region :: "string option"
  oc_ec2_metadata :: bool

definition op_config_of :: "staging_config \<Rightarrow> op_config result" where
  "op_config_of c =
     (let base = \<lparr>oc_service = service c, oc_endpoint = ''https://'' @ endpoint c, oc_bucket = bucket c,
                  oc_root = normalize_root (key_prefix c), oc_key_id = access_key_id c,
                  oc_secret = secret_access_key c, oc_region = None, oc_ec2_metadata = True\<rparr>
      in case service c of
           Oss \<Rightarrow> Inr base
         | S3 \<Rightarrow>
             res_bind (ok_or (Config (''no region for S3 endpoint `'' @ endpoint c @ ''`''))
                         (resolve_region c)) (\<lambda>r.
               Inr (base \<lparr>oc_region := Some r, oc_ec2_metadata := False\<rparr>)))"

definition store_new :: "(op_config \<Rightarrow> storage_error + 'o) \<Rightarrow> staging_config \<Rightarrow> 'o result" where
  "store_new mk c =
     res_bind (op_config_of c) (\<lambda>oc. case mk oc of Inl e \<Rightarrow> Inl (Storage e) | Inr oper \<Rightarrow> Inr oper)"

definition staging_url_base :: "staging_config \<Rightarrow> string" where
  "staging_url_base c =
     (let px = trim_matches CHR ''/'' (key_prefix c) in
      if px = [] then ''s3://'' @ endpoint c @ ''/'' @ bucket c
      else ''s3://'' @ endpoint c @ ''/'' @ bucket c @ ''/'' @ px)"

record 'o staging_live =
  live_cfg :: staging_config
  live_store :: 'o
  url_base :: string

definition live_build ::
  "(op_config \<Rightarrow> storage_error + 'o) \<Rightarrow> staging_config \<Rightarrow> 'o staging_live result" where
  "live_build mk c =
     res_bind (store_new mk c) (\<lambda>st.
       Inr \<lparr>live_cfg = c, live_store = st, url_base = staging_url_base c\<rparr>)"

record 'o staging_handle =
  current :: "'o staging_live"
  managed_dsn :: "string option"

definition handle_new ::
  "(op_config \<Rightarrow> storage_error + 'o) \<Rightarrow> staging_config \<Rightarrow> string option \<Rightarrow> 'o staging_handle result" where
  "handle_new mk c dsn =
     res_bind (live_build mk c) (\<lambda>live. Inr \<lparr>current = live, managed_dsn = dsn\<rparr>)"

definition msg_location_changed :: "string \<Rightarrow> string \<Rightarrow> string" where
  "msg_location_changed was now =
     ''staging location changed on the server (was `'' @ was @ ''`, now `'' @ now
     @ ''`); bucket and prefix are fixed for the life of a process, restart the writer to move''"

definition apply_staging ::
  "(op_config \<Rightarrow> storage_error + 'o) \<Rightarrow> staging_config \<Rightarrow> 'o staging_handle \<Rightarrow>
     bool result \<times> 'o staging_handle" where
  "apply_staging mk fresh h =
     (let cur = live_cfg (current h) in
      if endpoint fresh \<noteq> endpoint cur \<or> bucket fresh \<noteq> bucket cur
         \<or> key_prefix fresh \<noteq> key_prefix cur \<or> service fresh \<noteq> service cur
      then (Inl (Config (msg_location_changed (url_base (current h)) (staging_url_base fresh))), h)
      else if access_key_id fresh = access_key_id cur \<and> secret_access_key fresh = secret_access_key cur
         \<and> region fresh = region cur
      then (Inr False, h)
      else case live_build mk fresh of
             Inl e \<Rightarrow> (Inl e, h)
           | Inr live \<Rightarrow> (Inr True, h \<lparr>current := live\<rparr>))"

section \<open>Lemmas\<close>

lemma store_write:
  "store_laws oper obj \<Longrightarrow> op_write oper k b s = (r, s') \<Longrightarrow>
     obj s' = (obj s)(k \<mapsto> b) \<or> (\<not> is_ok r \<and> obj s' = obj s)"
  unfolding store_laws_def by blast

lemma store_read:
  "store_laws oper obj \<Longrightarrow> op_read oper k s = (r, s') \<Longrightarrow> obj s' = obj s \<and>
     (case r of Inr b \<Rightarrow> obj s k = Some b | Inl e \<Rightarrow> storage_kind e = NotFound \<longrightarrow> obj s k = None)"
  unfolding store_laws_def by blast

lemma store_list: "store_laws oper obj \<Longrightarrow> obj (snd (op_list oper d s)) = obj s"
  by (simp add: store_laws_def)

lemma store_delete:
  "store_laws oper obj \<Longrightarrow> op_delete oper k s = (r, s') \<Longrightarrow>
     obj s' = (obj s)(k := None) \<or> (\<not> is_ok r \<and> obj s' = obj s)"
  unfolding store_laws_def by blast

text \<open>Bookkeeping and staged objects live apart.\<close>

lemma meta_keys_apart [simp]:
  "state_key i \<noteq> object_key f j" "lock_key i \<noteq> object_key f j"
  "object_key f j \<noteq> state_key i" "object_key f j \<noteq> lock_key i"
  by (simp_all add: state_key_def lock_key_def object_key_def staging_dir_def)

lemma state_lock_apart:
  "valid_ident i \<Longrightarrow> valid_ident j \<Longrightarrow> state_key i \<noteq> lock_key j"
  using ident_path_inj [of i j "''state.json''" "''lock''"] valid_ident_seps
  by (auto simp: state_key_def lock_key_def)

text \<open>The two answers of the state read, by what the object holds.\<close>

lemma read_state_cases:
  assumes "store_laws oper obj" and "read_state oper j ident s = (r, s')"
  shows "obj s' = obj s \<and>
     (case r of
        Inr None \<Rightarrow> obj s (state_key ident) = None
      | Inr (Some st) \<Rightarrow> (\<exists>b. obj s (state_key ident) = Some b \<and> state_from_bytes j b = Inr st)
      | Inl e \<Rightarrow> (\<exists>se. e = Storage se \<and> storage_kind se \<noteq> NotFound) \<or>
          (\<exists>b m t. obj s (state_key ident) = Some b \<and> state_from_bytes j b = Inl m \<and> e = Config t))"
proof (cases "op_read oper (state_key ident) s")
  case (Pair a s'')
  note rd = store_read [OF assms(1) Pair]
  show ?thesis
  proof (cases a)
    case (Inl e)
    with Pair assms(2) rd show ?thesis by (auto simp: read_state_def split: if_splits)
  next
    case (Inr b)
    with Pair assms(2) rd show ?thesis by (cases "state_from_bytes j b") (auto simp: read_state_def)
  qed
qed

section \<open>A store to compute with\<close>

text \<open>The instance the witnesses run on: a map that never fails, and a JSON that keeps one number.\<close>

definition map_operator :: "(string \<Rightarrow> string option) operator" where
  "map_operator =
     \<lparr>op_write = (\<lambda>k b s. (Inr (), s(k \<mapsto> b))),
      op_read = (\<lambda>k s. (case s k of Some b \<Rightarrow> Inr b | None \<Rightarrow> Inl (StorageError NotFound ''absent''), s)),
      op_list = (\<lambda>d s. (Inr [], s)),
      op_delete = (\<lambda>k s. (Inr (), s(k := None)))\<rparr>"

lemma map_operator_laws: "store_laws map_operator (\<lambda>s. s)"
  by (auto simp: store_laws_def map_operator_def split: option.splits)

definition epoch_json :: "state_file \<Rightarrow> lock_file \<Rightarrow> json_api" where
  "epoch_json st l =
     \<lparr>state_to_bytes = (\<lambda>s. show_nat_pad 0 (unat (max_epoch_used s))),
      state_from_bytes = (\<lambda>b. case parse_u64 b of Some e \<Rightarrow> Inr (st \<lparr>max_epoch_used := e\<rparr>)
                                | None \<Rightarrow> Inl ''expected value''),
      lock_to_bytes = (\<lambda>s. show_nat_pad 0 (unat (heartbeat_at_ms s))),
      lock_from_bytes = (\<lambda>b. case parse_u64 b of Some e \<Rightarrow> Inr (l \<lparr>heartbeat_at_ms := e\<rparr>)
                                | None \<Rightarrow> Inl ''expected value'')\<rparr>"

lemma epoch_json_laws: "json_state_law (epoch_json st l) st" "json_lock_law (epoch_json st l) l"
  by (simp_all add: json_state_law_def json_lock_law_def epoch_json_def)

definition demo_ident :: writer_identity where
  "demo_ident = \<lparr>cluster_id = ''1024'', db_oid = 13727, rel_oid = 54321, writer_id = ''w-0''\<rparr>"

definition demo_state :: state_file where
  "demo_state = \<lparr>sf_v = 1, resume_offset = Some 41, max_epoch_used = 1700000000000,
     sf_cluster_id = ''1024'', sf_database = ''d'', sf_schema = ''public'', sf_table = ''t'',
     sf_writer_id = ''w-0'', updated_at_ms = 1700000000001\<rparr>"

definition demo_lock :: lock_file where
  "demo_lock = \<lparr>lf_v = 1, instance_uuid = ''h:1:0'', pid = 1, host = ''h'',
     acquired_at_ms = 1700000000000, heartbeat_at_ms = 1700000000000\<rparr>"

definition demo_file :: staged_file where
  "demo_file = \<lparr>epoch_ms = 1700000000000, seq = 0, start_offset = 0, end_offset = 41, compressed = True\<rparr>"

section \<open>Properties\<close>

text \<open>
  C30. The state read is fail-loud: it answers "fresh writer" only when the object is absent, a state
  only when the stored bytes parse to it, and an object that does not parse is a configuration error.
\<close>
theorem read_state_fail_loud:
  assumes "store_laws oper obj" and "read_state oper j ident s = (r, s')"
  shows "obj s' = obj s \<and>
     (case r of
        Inr None \<Rightarrow> obj s (state_key ident) = None
      | Inr (Some st) \<Rightarrow> (\<exists>b. obj s (state_key ident) = Some b \<and> state_from_bytes j b = Inr st)
      | Inl e \<Rightarrow> (\<exists>se. e = Storage se \<and> storage_kind se \<noteq> NotFound) \<or>
          (\<exists>b m t. obj s (state_key ident) = Some b \<and> state_from_bytes j b = Inl m \<and> e = Config t))"
  using assms by (rule read_state_cases)

theorem read_state_fail_loud_witness:
  "is_ok (fst (read_state map_operator (epoch_json demo_state demo_lock) demo_ident (\<lambda>k. None))) \<and>
   \<not> is_ok (fst (read_state map_operator (epoch_json demo_state demo_lock) demo_ident
       (\<lambda>k. Some ''{not json'')))"
proof -
  let ?j = "epoch_json demo_state demo_lock" and ?bad = "\<lambda>k :: string. Some ''{not json''"
  obtain r s' where rs: "read_state map_operator ?j demo_ident ?bad = (r, s')" by fastforce
  have "parse_u64 ''{not json'' = None"
    by (simp add: parse_u64_def parse_nat_below_def parse_digits_def digit_val_def)
  then have "r \<noteq> Inr x" for x
    using read_state_fail_loud [OF map_operator_laws rs]
    by (cases x) (auto simp: epoch_json_def)
  then show ?thesis
    using rs by (auto simp: is_ok_iff read_state_def map_operator_def)
qed

text \<open>
  C31. What \<open>write_state\<close> has stored is what the next read answers, if it answers at all; neither it nor
  the deletion of a staged file touches any other object, so GC can not remove the state or the lease.
\<close>
theorem state_object_isolated:
  assumes "store_laws oper obj" and "json_state_law j st"
    and "write_state oper j ident st s = (Inr (), s1)"
    and "delete_staged oper ident f s1 = (d, s2)"
    and "read_state oper j ident s2 = (Inr answer, s3)"
  shows "answer = Some st \<and> obj s2 (lock_key ident') = obj s1 (lock_key ident') \<and>
     (\<forall>k. k \<noteq> state_key ident \<and> k \<noteq> object_key f ident \<longrightarrow> obj s3 k = obj s k)"
proof -
  obtain r1 where w: "op_write oper (state_key ident) (state_to_bytes j st) s = (Inr r1, s1)"
    using assms(3) by (auto simp: write_state_def lift_storage_def split: prod.splits sum.splits)
  obtain r2 where dl: "op_delete oper (object_key f ident) s1 = (r2, s2)"
    using assms(4) by (auto simp: delete_staged_def lift_storage_def split: prod.splits sum.splits)
  have o1: "obj s1 = (obj s)(state_key ident \<mapsto> state_to_bytes j st)"
    using store_write [OF assms(1) w] by simp
  have o2: "obj s2 k = obj s1 k" if "k \<noteq> object_key f ident" for k
    using store_delete [OF assms(1) dl] that by auto
  have "obj s2 (state_key ident) = Some (state_to_bytes j st)"
    by (simp add: o2 o1)
  with read_state_cases [OF assms(1,5)] assms(2) o1 o2 show ?thesis
    by (cases answer) (auto simp: json_state_law_def)
qed

theorem state_object_isolated_witness:
  "fst (read_state map_operator (epoch_json demo_state demo_lock) demo_ident
     (snd (delete_staged map_operator demo_ident demo_file
       (snd (write_state map_operator (epoch_json demo_state demo_lock) demo_ident demo_state (\<lambda>k. None))))))
   = Inr (Some demo_state)"
proof -
  let ?j = "epoch_json demo_state demo_lock"
  note law = epoch_json_laws(1) [of demo_state demo_lock]
  obtain s1 where w: "write_state map_operator ?j demo_ident demo_state (\<lambda>k. None) = (Inr (), s1)"
    by (simp add: write_state_def lift_storage_def map_operator_def)
  obtain s2 where d: "delete_staged map_operator demo_ident demo_file s1 = (Inr (), s2)"
    by (simp add: delete_staged_def lift_storage_def map_operator_def)
  obtain answer s3 where r: "read_state map_operator ?j demo_ident s2 = (Inr answer, s3)"
    using w d law
    by (auto simp: write_state_def delete_staged_def read_state_def lift_storage_def map_operator_def
        json_state_law_def)
  have "answer = Some demo_state"
    using state_object_isolated [OF map_operator_laws law w d r, of demo_ident] by blast
  then show ?thesis by (simp only: w d r fst_conv snd_conv)
qed

text \<open>Every swap of credentials keeps the location, and the snapshot is always built from its own config.\<close>

definition same_location :: "'o staging_handle \<Rightarrow> 'o staging_handle \<Rightarrow> bool" where
  "same_location h h' \<longleftrightarrow>
     endpoint (live_cfg (current h')) = endpoint (live_cfg (current h)) \<and>
     bucket (live_cfg (current h')) = bucket (live_cfg (current h)) \<and>
     key_prefix (live_cfg (current h')) = key_prefix (live_cfg (current h)) \<and>
     service (live_cfg (current h')) = service (live_cfg (current h)) \<and>
     url_base (current h') = url_base (current h) \<and> managed_dsn h' = managed_dsn h"

definition live_built :: "(op_config \<Rightarrow> storage_error + 'o) \<Rightarrow> 'o staging_handle \<Rightarrow> bool" where
  "live_built mk h \<longleftrightarrow> live_build mk (live_cfg (current h)) = Inr (current h)"

lemma live_build_Inr:
  "live_build mk c = Inr live \<Longrightarrow> live_cfg live = c \<and> url_base live = staging_url_base c"
  by (auto simp: live_build_def res_simps)

interpretation handle: machine "\<lambda>c h. snd (apply_staging mk c h)" "live_built mk" same_location
  for mk :: "op_config \<Rightarrow> storage_error + 'o"
proof unfold_locales
  fix h c
  assume "live_built mk h"
  then show "live_built mk (snd (apply_staging mk c h))"
    by (auto simp: live_built_def apply_staging_def Let_def split: sum.splits dest: live_build_Inr)
next
  fix h c
  assume b: "live_built mk h"
  then show "same_location h (snd (apply_staging mk c h))"
    using live_build_Inr [of mk "live_cfg (current h)" "current h"]
    by (auto simp: live_built_def same_location_def apply_staging_def Let_def staging_url_base_def
        split: sum.splits dest!: live_build_Inr)
qed (auto simp: same_location_def)

text \<open>
  Whatever configs the server answers over the life of a process, the staging location and the URL
  base every published object derives from never change, and the store in use is always the one built
  from the credentials of the same snapshot.
\<close>
lemma staging_location_fixed:
  assumes "handle_new mk c dsn = Inr h"
  shows "same_location h (fold (\<lambda>c h. snd (apply_staging mk c h)) cs h) \<and>
     live_built mk (fold (\<lambda>c h. snd (apply_staging mk c h)) cs h)"
proof -
  from assms obtain live where "live_build mk c = Inr live" "h = \<lparr>current = live, managed_dsn = dsn\<rparr>"
    by (auto simp: handle_new_def res_simps)
  then have "live_built mk h"
    using live_build_Inr [of mk c live] by (simp add: live_built_def)
  then show ?thesis using handle.grows_run handle.inv_run by blast
qed

end
