(* ===== verification/Notify_Queue.thy ===== *)
theory Notify_Queue
  imports Staging_Store
begin

text \<open>
  \<open>src/notify.rs\<close>: the job options and their masking, the submission call with the reading of its
  outcome, and the notifier, one FIFO and one retry loop per writer with a shared report board. The
  server and the connection are the environment: their answers are arguments of the events.
\<close>

section \<open>Requests and options\<close>

definition ADD_BY_INGEST_RS_SDK :: int where "ADD_BY_INGEST_RS_SDK = 4"
definition STATUS_READY :: int where "STATUS_READY = 2"
definition SOURCE_TYPE_S3 :: int where "SOURCE_TYPE_S3 = 1"
definition TARGET_TYPE_HEAP :: int where "TARGET_TYPE_HEAP = 3"

record notify_request =
  nr_group :: string
  nr_end_offset :: i64
  nr_identifier :: string
  nr_source_url :: string
  nr_target :: u32
  nr_delimiter :: string
  nr_upsert :: bool
  nr_serial_seq :: i64
  nr_retry_max :: "int option"








definition build_copy_options :: "string \<Rightarrow> string \<Rightarrow> string \<Rightarrow> bool \<Rightarrow> string" where
  "build_copy_options ak sk delim upsert =
     ''access_key_id='' @ ak @ '',secret_access_key='' @ sk
     @ '',format=csv,header=true,delimiter='' @ [CHR 0x22] @ delim @ [CHR 0x22]
     @ (if upsert then '',mode=upsert'' else [])"

section \<open>Submission\<close>

text \<open>The arguments of \<open>zdb_add_async_load_job\<close>, in the order of the call.\<close>

record job_args =
  ja_identifier :: string
  ja_add_by :: int
  ja_status :: int
  ja_version :: int
  ja_source_type :: int
  ja_source :: string
  ja_target_type :: int
  ja_target :: u32
  ja_priority :: int
  ja_options :: string
  ja_msg :: "string option"
  ja_source_detail :: "string option"
  ja_serial_group :: string
  ja_serial_seq :: i64
  ja_retry_max :: "int option"

definition submit_args :: "staging_config \<Rightarrow> notify_request \<Rightarrow> job_args" where
  "submit_args live r =
     \<lparr>ja_identifier = nr_identifier r, ja_add_by = ADD_BY_INGEST_RS_SDK, ja_status = STATUS_READY,
      ja_version = 1, ja_source_type = SOURCE_TYPE_S3, ja_source = nr_source_url r,
      ja_target_type = TARGET_TYPE_HEAP, ja_target = nr_target r, ja_priority = 1,
      ja_options = build_copy_options (access_key_id live) (secret_access_key live)
        (nr_delimiter r) (nr_upsert r),
      ja_msg = None, ja_source_detail = None, ja_serial_group = nr_group r,
      ja_serial_seq = nr_serial_seq r, ja_retry_max = nr_retry_max r\<rparr>"

datatype submit_outcome = Accepted | Idempotent | ContractViolation string

definition submit_result :: "pg_error + unit \<Rightarrow> pg_error + submit_outcome" where
  "submit_result res =
     (case res of
        Inr _ \<Rightarrow> Inr Accepted
      | Inl e \<Rightarrow>
          (case as_db_error e of
             Some db \<Rightarrow>
               if db_code db = UNIQUE_VIOLATION then Inr Idempotent
               else if db_code db = EXCLUSION_VIOLATION then Inr (ContractViolation (db_message db))
               else Inl e
           | None \<Rightarrow> Inl e))"

section \<open>The notifier\<close>

text \<open>
  The loop task of a writer: the request it holds, whether it has a connection, its backoff. A
  queue exists once the first request of the writer has spawned its task.
\<close>

record notify_task =
  nt_queue :: "notify_request list"
  nt_current :: "notify_request option"
  nt_connected :: bool
  nt_backoff :: duration

record notifier =
  nt_tasks :: "string \<Rightarrow> notify_task option"
  nt_confirmed :: "string \<Rightarrow> (i64 \<times> i64) option"
  nt_fatal :: "string \<Rightarrow> string option"

definition notifier_spawn :: notifier where
  "notifier_spawn = \<lparr>nt_tasks = (\<lambda>_. None), nt_confirmed = (\<lambda>_. None), nt_fatal = (\<lambda>_. None)\<rparr>"

definition fresh_task :: notify_task where
  "fresh_task = \<lparr>nt_queue = [], nt_current = None, nt_connected = False, nt_backoff = from_millis 200\<rparr>"

definition task_of :: "notifier \<Rightarrow> string \<Rightarrow> notify_task" where
  "task_of n g = (case nt_tasks n g of Some t \<Rightarrow> t | None \<Rightarrow> fresh_task)"

text \<open>\<open>alive\<close>: the receiving task still runs (it ends only with the runtime).\<close>

definition enqueue :: "bool \<Rightarrow> notify_request \<Rightarrow> notifier \<Rightarrow> unit result \<times> notifier" where
  "enqueue alive r n =
     (let t = task_of n (nr_group r) in
      if alive then
        (Inr (), n\<lparr>nt_tasks := (nt_tasks n)(nr_group r \<mapsto> t\<lparr>nt_queue := nt_queue t @ [r]\<rparr>)\<rparr>)
      else (Inl WriterClosed, n\<lparr>nt_tasks := (nt_tasks n)(nr_group r \<mapsto> t)\<rparr>))"

definition confirmed :: "notifier \<Rightarrow> string \<Rightarrow> (i64 \<times> i64) option" where
  "confirmed n g = nt_confirmed n g"

definition notifier_fatal :: "notifier \<Rightarrow> string \<Rightarrow> string option" where
  "notifier_fatal n g = nt_fatal n g"

definition clear_fatal :: "string \<Rightarrow> notifier \<Rightarrow> bool \<times> notifier" where
  "clear_fatal g n = (nt_fatal n g \<noteq> None, n\<lparr>nt_fatal := (nt_fatal n)(g := None)\<rparr>)"

definition grow_backoff :: "duration \<Rightarrow> duration" where
  "grow_backoff b = min (dur_mul b 2) (from_secs 30)"

definition record_confirmed :: "notify_request \<Rightarrow> notifier \<Rightarrow> notifier" where
  "record_confirmed r n =
     (let slot = (case nt_confirmed n (nr_group r) of
                    Some s \<Rightarrow> s | None \<Rightarrow> (nr_serial_seq r, nr_end_offset r));
          slot' = (if nr_serial_seq r \<ge> fst slot then (nr_serial_seq r, nr_end_offset r) else slot)
      in n\<lparr>nt_confirmed := (nt_confirmed n)(nr_group r \<mapsto> slot')\<rparr>)"

definition record_fatal :: "notify_request \<Rightarrow> string \<Rightarrow> notifier \<Rightarrow> notifier" where
  "record_fatal r msg n =
     (case nt_fatal n (nr_group r) of
        Some _ \<Rightarrow> n
      | None \<Rightarrow> n\<lparr>nt_fatal := (nt_fatal n)(nr_group r \<mapsto> msg)\<rparr>)"

text \<open>
  The steps of \<open>notify_loop\<close> for the writer \<open>g\<close>: take the next request, connect, submit. A step
  that the loop is not at leaves the notifier as it is.
\<close>

datatype notify_event = Recv string | Connect string bool | Submit string "pg_error + unit"

definition set_task :: "string \<Rightarrow> notify_task \<Rightarrow> notifier \<Rightarrow> notifier" where
  "set_task g t n = n\<lparr>nt_tasks := (nt_tasks n)(g \<mapsto> t)\<rparr>"

definition loop_submit :: "string \<Rightarrow> pg_error + unit \<Rightarrow> notify_task \<Rightarrow> notify_request \<Rightarrow> notifier \<Rightarrow> notifier" where
  "loop_submit g res t r n =
     (case submit_result res of
        Inr (ContractViolation msg) \<Rightarrow> record_fatal r msg (set_task g (t\<lparr>nt_current := None\<rparr>) n)
      | Inr _ \<Rightarrow> record_confirmed r (set_task g (t\<lparr>nt_current := None\<rparr>) n)
      | Inl e \<Rightarrow> set_task g (t\<lparr>nt_connected := False, nt_backoff := grow_backoff (nt_backoff t)\<rparr>) n)"

fun notify_loop :: "notify_event \<Rightarrow> notifier \<Rightarrow> notifier" where
  "notify_loop (Recv g) n =
     (case nt_tasks n g of
        Some t \<Rightarrow>
          (case (nt_current t, nt_queue t) of
             (None, r # rs) \<Rightarrow>
               set_task g (t\<lparr>nt_queue := rs, nt_current := Some r, nt_backoff := from_millis 200\<rparr>) n
           | _ \<Rightarrow> n)
      | None \<Rightarrow> n)"
| "notify_loop (Connect g ok) n =
     (case nt_tasks n g of
        Some t \<Rightarrow>
          if nt_current t = None \<or> nt_connected t then n
          else if ok then set_task g (t\<lparr>nt_connected := True\<rparr>) n
          else set_task g (t\<lparr>nt_backoff := grow_backoff (nt_backoff t)\<rparr>) n
      | None \<Rightarrow> n)"
| "notify_loop (Submit g res) n =
     (case nt_tasks n g of
        Some t \<Rightarrow>
          (case nt_current t of
             Some r \<Rightarrow> if nt_connected t then loop_submit g res t r n else n
           | None \<Rightarrow> n)
      | None \<Rightarrow> n)"

section \<open>The queue of a writer\<close>

definition pending_of :: "notify_task \<Rightarrow> notify_request list" where
  "pending_of t = (case nt_current t of Some r \<Rightarrow> [r] | None \<Rightarrow> []) @ nt_queue t"

definition pending :: "notifier \<Rightarrow> string \<Rightarrow> notify_request list" where
  "pending n g = (case nt_tasks n g of Some t \<Rightarrow> pending_of t | None \<Rightarrow> [])"

lemma pending_set_task [simp]:
  "pending (set_task g t n) g' = (if g' = g then pending_of t else pending n g')"
  by (simp add: pending_def set_task_def)

lemma set_task_board [simp]:
  "nt_confirmed (set_task g t n) = nt_confirmed n" "nt_fatal (set_task g t n) = nt_fatal n"
  by (simp_all add: set_task_def)

lemma record_tasks [simp]:
  "nt_tasks (record_confirmed r n) = nt_tasks n" "nt_tasks (record_fatal r m n) = nt_tasks n"
  "nt_fatal (record_confirmed r n) = nt_fatal n" "nt_confirmed (record_fatal r m n) = nt_confirmed n"
  by (auto simp: record_confirmed_def record_fatal_def Let_def split: option.splits)

lemma pending_record [simp]:
  "pending (record_confirmed r n) g = pending n g" "pending (record_fatal r m n) g = pending n g"
  by (simp_all add: pending_def)

lemma pending_enqueue:
  "pending (snd (enqueue alive r n)) g =
     pending n g @ (if alive \<and> g = nr_group r then [r] else [])"
  by (auto simp: enqueue_def Let_def pending_def task_of_def fresh_task_def pending_of_def
      split: option.splits)

lemma enqueue_board [simp]:
  "nt_confirmed (snd (enqueue alive r n)) = nt_confirmed n"
  "nt_fatal (snd (enqueue alive r n)) = nt_fatal n"
  by (simp_all add: enqueue_def Let_def)

lemma clear_fatal_board [simp]:
  "nt_confirmed (snd (clear_fatal g n)) = nt_confirmed n" "nt_tasks (snd (clear_fatal g n)) = nt_tasks n"
  by (simp_all add: clear_fatal_def)

text \<open>What one step of a loop does to the queue, by its event.\<close>

definition settled :: "notify_event \<Rightarrow> notifier \<Rightarrow> (string \<times> notify_request \<times> submit_outcome) option" where
  "settled ev n =
     (case ev of
        Submit g res \<Rightarrow>
          (case nt_tasks n g of
             Some t \<Rightarrow>
               (case nt_current t of
                  Some r \<Rightarrow> if nt_connected t then (case submit_result res of Inr out \<Rightarrow> Some (g, r, out) | Inl _ \<Rightarrow> None)
                            else None
                | None \<Rightarrow> None)
           | None \<Rightarrow> None)
      | _ \<Rightarrow> None)"

lemma loop_unsettled:
  assumes "settled ev n = None"
  shows "pending (notify_loop ev n) g = pending n g \<and> nt_confirmed (notify_loop ev n) = nt_confirmed n
     \<and> nt_fatal (notify_loop ev n) = nt_fatal n"
  using assms
  by (cases ev)
     (auto simp: settled_def loop_submit_def pending_def pending_of_def set_task_def
       split: option.splits list.splits sum.splits if_splits)

lemma loop_settled:
  assumes "settled ev n = Some (h, r, out)"
  shows "\<exists>rest. pending n h = r # rest \<and>
     notify_loop ev n = (case out of ContractViolation m \<Rightarrow> record_fatal r m | _ \<Rightarrow> record_confirmed r)
       (set_task h (the (nt_tasks n h)\<lparr>nt_current := None\<rparr>) n) \<and>
     (\<forall>g. pending (notify_loop ev n) g = (if g = h then rest else pending n g))"
proof (cases ev)
  case (Submit g res)
  with assms obtain t where t: "nt_tasks n h = Some t" "nt_current t = Some r" "nt_connected t"
      "submit_result res = Inr out" and [simp]: "g = h"
    by (auto simp: settled_def split: option.splits sum.splits if_splits)
  then show ?thesis
    using Submit by (auto simp: loop_submit_def pending_of_def pending_def set_task_def split: submit_outcome.splits)
qed (use assms in \<open>auto simp: settled_def\<close>)

section \<open>The notifier as a machine\<close>

datatype board_event = Loop notify_event | Enqueue notify_request | Clear string

fun board_step :: "board_event \<Rightarrow> notifier \<Rightarrow> notifier" where
  "board_step (Loop ev) n = notify_loop ev n"
| "board_step (Enqueue r) n = snd (enqueue True r n)"
| "board_step (Clear g) n = snd (clear_fatal g n)"

text \<open>
  The contract of the caller: a new request of a writer carries a serial sequence above everything the
  writer has queued or had confirmed.
\<close>

fun board_allowed :: "board_event \<Rightarrow> notifier \<Rightarrow> bool" where
  "board_allowed (Enqueue r) n \<longleftrightarrow>
     (\<forall>p \<in> set (pending n (nr_group r)). nr_serial_seq p < nr_serial_seq r) \<and>
     (case nt_confirmed n (nr_group r) of Some (s, _) \<Rightarrow> s < nr_serial_seq r | None \<Rightarrow> True)"
| "board_allowed _ n \<longleftrightarrow> True"

definition in_order :: "notifier \<Rightarrow> string \<Rightarrow> bool" where
  "in_order n g \<longleftrightarrow>
     sorted_wrt (<) (map nr_serial_seq (pending n g)) \<and>
     (\<forall>r \<in> set (pending n g). nr_group r = g \<and>
        (case nt_confirmed n g of Some (s, _) \<Rightarrow> s < nr_serial_seq r | None \<Rightarrow> True))"

definition board_inv :: "notifier \<Rightarrow> bool" where
  "board_inv n \<longleftrightarrow> (\<forall>g. in_order n g)"

definition confirms_more :: "notifier \<Rightarrow> notifier \<Rightarrow> bool" where
  "confirms_more n n' \<longleftrightarrow>
     (\<forall>g s e. nt_confirmed n g = Some (s, e) \<longrightarrow>
        (\<exists>s' e'. nt_confirmed n' g = Some (s', e') \<and> (s < s' \<or> (s' = s \<and> e' = e))))"

lemma settled_confirmed:
  assumes "board_inv n" and "settled ev n = Some (h, r, out)"
  shows "nt_confirmed (notify_loop ev n) =
     (case out of ContractViolation m \<Rightarrow> nt_confirmed n
      | _ \<Rightarrow> (nt_confirmed n)(h \<mapsto> (nr_serial_seq r, nr_end_offset r)))"
proof -
  from loop_settled [OF assms(2)] obtain rest where p: "pending n h = r # rest"
    and l: "notify_loop ev n = (case out of ContractViolation m \<Rightarrow> record_fatal r m | _ \<Rightarrow> record_confirmed r)
       (set_task h (the (nt_tasks n h)\<lparr>nt_current := None\<rparr>) n)" by blast
  from assms(1) p have "nr_group r = h"
    and "case nt_confirmed n h of Some (s, _) \<Rightarrow> s < nr_serial_seq r | None \<Rightarrow> True"
    by (auto simp: board_inv_def in_order_def)
  then show ?thesis
    unfolding l by (cases out) (auto simp: record_confirmed_def Let_def split: option.splits)
qed

lemma board_inv_loop:
  assumes "board_inv n" shows "board_inv (notify_loop ev n)"
proof (cases "settled ev n")
  case None
  with assms loop_unsettled [OF None] show ?thesis by (simp add: board_inv_def in_order_def)
next
  case (Some x)
  obtain h r out where x: "x = (h, r, out)" by (cases x) auto
  note s = Some [unfolded x]
  from loop_settled [OF s] obtain rest where p: "pending n h = r # rest"
    and q: "\<And>g. pending (notify_loop ev n) g = (if g = h then rest else pending n g)" by blast
  have "in_order n g" for g using assms by (simp add: board_inv_def)
  from this [of h] this p show ?thesis
    by (auto simp: board_inv_def in_order_def q settled_confirmed [OF assms s] split: submit_outcome.splits)
qed

interpretation board: guarded_machine board_step board_allowed board_inv confirms_more
proof unfold_locales
  fix n ev
  assume inv: "board_inv n" and al: "board_allowed ev n"
  show "board_inv (board_step ev n)"
  proof (cases ev)
    case (Enqueue r)
    with inv al show ?thesis
      by (auto simp: board_inv_def in_order_def pending_enqueue sorted_wrt_append)
  next
    case (Clear g)
    have "pending (snd (clear_fatal g n)) = pending n" by (simp add: pending_def fun_eq_iff)
    with inv Clear show ?thesis by (simp add: board_inv_def in_order_def)
  qed (use inv in \<open>simp add: board_inv_loop\<close>)
  show "confirms_more n (board_step ev n)"
  proof (cases ev)
    case (Loop l)
    show ?thesis
    proof (cases "settled l n")
      case None
      with Loop loop_unsettled [OF None] show ?thesis by (auto simp: confirms_more_def)
    next
      case (Some x)
      obtain h r out where x: "x = (h, r, out)" by (cases x) auto
      from loop_settled [OF Some [unfolded x]] obtain rest where "pending n h = r # rest" by blast
      with inv have "in_order n h" "r \<in> set (pending n h)" by (auto simp: board_inv_def)
      then show ?thesis
        using Loop by (auto simp: confirms_more_def settled_confirmed [OF inv Some [unfolded x]] in_order_def
            split: submit_outcome.splits)
    qed
  qed (auto simp: confirms_more_def)
next
  fix a b c
  assume ab: "confirms_more a b" and bc: "confirms_more b c"
  show "confirms_more a c"
    unfolding confirms_more_def
  proof (intro allI impI)
    fix g s e
    assume "nt_confirmed a g = Some (s, e)"
    with ab obtain s1 e1 where b: "nt_confirmed b g = Some (s1, e1)" "s < s1 \<or> (s1 = s \<and> e1 = e)"
      unfolding confirms_more_def by blast
    with bc obtain s2 e2 where c: "nt_confirmed c g = Some (s2, e2)" "s1 < s2 \<or> (s2 = s1 \<and> e2 = e1)"
      unfolding confirms_more_def by blast
    then show "\<exists>s' e'. nt_confirmed c g = Some (s', e') \<and> (s < s' \<or> (s' = s \<and> e' = e))"
      using b(2) by (intro exI [of _ s2] exI [of _ e2]) auto
  qed
qed (simp add: confirms_more_def)

lemma board_inv_spawn: "board_inv notifier_spawn"
  by (simp add: board_inv_def in_order_def notifier_spawn_def pending_def)

section \<open>Delivery\<close>

text \<open>One successful round of the loop: take, connect, submit, accepted.\<close>

definition deliver_events :: "string \<Rightarrow> notify_event list" where
  "deliver_events g = [Recv g, Connect g True, Submit g (Inr ())]"

lemma deliver_one:
  assumes "pending n g = r # rest" and "nr_group r = g"
  shows "pending (fold notify_loop (deliver_events g) n) g = rest \<and>
     (\<exists>s e. nt_confirmed (fold notify_loop (deliver_events g) n) g = Some (s, e) \<and>
        nr_serial_seq r \<le> s)"
proof -
  from assms obtain t where t: "nt_tasks n g = Some t" "pending_of t = r # rest"
    by (auto simp: pending_def split: option.splits)
  show ?thesis
  proof (cases "nt_current t")
    case None
    with t assms(2) show ?thesis
      by (cases "nt_connected t")
         (auto simp: deliver_events_def pending_of_def pending_def set_task_def loop_submit_def
           submit_result_def record_confirmed_def Let_def split: option.splits)
  next
    case (Some r')
    with t assms(2) show ?thesis
      by (cases "nt_connected t")
         (auto simp: deliver_events_def pending_of_def pending_def set_task_def loop_submit_def
           submit_result_def record_confirmed_def Let_def split: option.splits)
  qed
qed

lemma deliver_all:
  assumes "\<forall>r \<in> set (pending n g). nr_group r = g"
  shows "pending (fold notify_loop (concat (replicate (length (pending n g)) (deliver_events g))) n) g = []"
  using assms
proof (induction "pending n g" arbitrary: n)
  case (Cons r rest)
  let ?n = "fold notify_loop (deliver_events g) n"
  have p: "pending n g = r # rest" using Cons.hyps(2) by simp
  then have "pending ?n g = rest" using Cons.prems deliver_one [of n g r rest] by simp
  with Cons.hyps(1) [of ?n] Cons.prems p show ?case by simp
qed simp

section \<open>Masked options\<close>














section \<open>A run to compute with\<close>

definition demo_request :: "i64 \<Rightarrow> notify_request" where
  "demo_request q = \<lparr>nr_group = ''g'', nr_end_offset = 10 * q + 9, nr_identifier = ''i'' @ show_int q,
     nr_source_url = ''s3://e/b/k'', nr_target = 7, nr_delimiter = '','', nr_upsert = True,
     nr_serial_seq = q, nr_retry_max = Some 15\<rparr>"

definition demo_notifier :: notifier where
  "demo_notifier = fold board_step
     [Enqueue (demo_request 1), Enqueue (demo_request 2), Loop (Recv ''g''), Loop (Connect ''g'' True)]
     notifier_spawn"

lemma demo_task:
  "nt_tasks demo_notifier ''g'' = Some \<lparr>nt_queue = [demo_request 2], nt_current = Some (demo_request 1),
     nt_connected = True, nt_backoff = from_millis 200\<rparr>"
  "nt_confirmed demo_notifier = (\<lambda>_. None)"
  by (simp_all add: demo_notifier_def enqueue_def task_of_def notifier_spawn_def fresh_task_def set_task_def
      demo_request_def)

lemma demo_reach: "reach board_step board_allowed notifier_spawn demo_notifier"
proof -
  have "board_allowed (Enqueue (demo_request 1)) notifier_spawn"
    by (simp add: demo_request_def notifier_spawn_def pending_def)
  moreover have "board_allowed (Enqueue (demo_request 2)) (board_step (Enqueue (demo_request 1)) notifier_spawn)"
    by (simp add: demo_request_def notifier_spawn_def pending_def enqueue_def task_of_def fresh_task_def
        pending_of_def)
  moreover have "board_allowed (Loop ev) n" for ev n by simp
  ultimately show ?thesis
    unfolding demo_notifier_def fold_simps by (intro reach_step reach_refl)
qed

section \<open>Properties\<close>



text \<open>
  A request leaves the queue of its writer only when the server took it, and then the confirmed pair
  is exactly that file's, or when the server reported a contract violation, and then the writer's fatal
  entry is set; a transport error leaves queue and board as they were and only drops the connection.
\<close>
lemma submit_settles_head:
  assumes "reach board_step board_allowed notifier_spawn n"
    and "nt_tasks n g = Some t" and "nt_current t = Some r" and "nt_connected t"
  shows "case submit_result res of
      Inr (ContractViolation m) \<Rightarrow>
        pending (notify_loop (Submit g res) n) g = nt_queue t \<and>
        notifier_fatal (notify_loop (Submit g res) n) g \<noteq> None \<and>
        confirmed (notify_loop (Submit g res) n) = confirmed n
    | Inr _ \<Rightarrow>
        pending (notify_loop (Submit g res) n) g = nt_queue t \<and>
        confirmed (notify_loop (Submit g res) n) g = Some (nr_serial_seq r, nr_end_offset r)
    | Inl _ \<Rightarrow>
        pending (notify_loop (Submit g res) n) g = r # nt_queue t \<and>
        confirmed (notify_loop (Submit g res) n) = confirmed n \<and>
        notifier_fatal (notify_loop (Submit g res) n) = notifier_fatal n"
proof -
  have inv: "board_inv n" using board.inv_reach [OF assms(1) board_inv_spawn] .
  have p: "pending n g = r # nt_queue t" using assms(2,3) by (simp add: pending_def pending_of_def)
  show ?thesis
  proof (cases "submit_result res")
    case (Inl e)
    then have "settled (Submit g res) n = None" using assms(2-4) by (simp add: settled_def)
    with Inl p show ?thesis
      using loop_unsettled [of "Submit g res" n g] by (simp add: confirmed_def notifier_fatal_def fun_eq_iff)
  next
    case (Inr out)
    then have st: "settled (Submit g res) n = Some (g, r, out)" using assms(2-4) by (simp add: settled_def)
    have q: "pending (notify_loop (Submit g res) n) g = nt_queue t"
      using loop_settled [OF st] p by auto
    have "in_order n g" using inv by (simp add: board_inv_def)
    with p have "nr_group r = g" by (simp add: in_order_def)
    then have "nt_fatal (record_fatal r m n') g \<noteq> None" for m n'
      by (auto simp: record_fatal_def split: option.splits)
    with q Inr settled_confirmed [OF inv st] assms(2-4) show ?thesis
      by (cases out) (simp_all add: confirmed_def notifier_fatal_def loop_submit_def fun_eq_iff)
  qed
qed

text \<open>
  Writers do not share a fate: a step of one writer's loop leaves the queue, the connection, the
  backoff, the confirmed pair and the fatal entry of every other writer untouched.
\<close>
lemma loops_isolated:
  assumes "reach board_step board_allowed notifier_spawn n"
    and "ev = Recv h \<or> ev = Connect h ok \<or> ev = Submit h res" and "g \<noteq> h"
  shows "nt_tasks (notify_loop ev n) g = nt_tasks n g \<and>
     confirmed (notify_loop ev n) g = confirmed n g \<and>
     notifier_fatal (notify_loop ev n) g = notifier_fatal n g"
proof -
  have inv: "board_inv n" using board.inv_reach [OF assms(1) board_inv_spawn] .
  have grp: "nr_group r = h" if "nt_tasks n h = Some t" "nt_current t = Some r" for t r
    using inv that by (fastforce simp: board_inv_def in_order_def pending_def pending_of_def)
  show ?thesis
    using assms(2,3) grp
    by (auto simp: set_task_def loop_submit_def confirmed_def notifier_fatal_def record_confirmed_def
        record_fatal_def Let_def split: option.splits list.splits sum.splits submit_outcome.splits)
qed

text \<open>
  C26. Delivery: once the server answers again, three loop steps per request empty the queue, whatever
  state the loop was left in.
\<close>
theorem queue_drains:
  assumes "reach board_step board_allowed notifier_spawn n"
  shows "pending (fold notify_loop (concat (replicate (length (pending n g)) (deliver_events g))) n) g = []"
proof -
  have "board_inv n" using board.inv_reach [OF assms board_inv_spawn] .
  then show ?thesis by (intro deliver_all) (simp add: board_inv_def in_order_def)
qed

theorem queue_drains_witness:
  "pending (fold notify_loop (concat (replicate 2 (deliver_events ''g''))) demo_notifier) ''g'' = []"
  using queue_drains [OF demo_reach, of "''g''"] demo_task(1)
  by (simp add: pending_def pending_of_def numeral_2_eq_2)



end
