(* ===== verification/Managed_Staging.thy ===== *)
theory Managed_Staging
  imports Staging_Store Notify_Queue
begin

text \<open>
  The part of \<open>src/client.rs\<close> that talks to the Relyt master: what \<open>Client::connect\<close> resolves (staging
  location and cluster identity), the parser of the location the master hands out, and the refresh of
  the credentials while writers run.

  The master is the parameter \<open>control_api\<close>: one field per query of the source, over a world state
  shared with the object store. \<open>connect_control\<close> stands for the driver's connect (the settings it
  gets are \<open>control_config\<close>).
\<close>

section \<open>The location the master hands out\<close>

definition msg_bad_scheme :: "string \<Rightarrow> string" where
  "msg_bad_scheme url = ''staging url from the server must start with `s3://`, got `'' @ url @ ''`''"

definition msg_no_bucket :: "string \<Rightarrow> string" where
  "msg_no_bucket url =
     ''staging url from the server has no bucket: expected s3://<endpoint>/<bucket>[/<prefix>], got `''
     @ url @ ''`''"

definition msg_empty_part :: "string \<Rightarrow> string" where
  "msg_empty_part url = ''staging url from the server has an empty endpoint or bucket: `'' @ url @ ''`''"

definition msg_unsignable :: "string \<Rightarrow> string" where
  "msg_unsignable url =
     ''the staging url the Relyt master handed out (`'' @ url @ ''`) names an endpoint the client cannot ''
     @ ''sign for. Relyt-managed staging accepts the endpoints the Relyt master itself reads: Alibaba OSS ''
     @ ''(*.aliyuncs.com), AWS S3 (*.amazonaws.com, *.amazonaws.com.cn), Tencent COS (*.myqcloud.com), ''
     @ ''Kingsoft KS3 (*.ksyuncs.com), UCloud US3 (*.ufileos.com) and Volcengine TOS (*.volces.com, ''
     @ ''*.ivolces.com). Ask the Relyt administrator to provision one of those, or use your own bucket ''
     @ ''through Staging::Customer(..) with an explicit region''"

definition parse_staging_url :: "string \<Rightarrow> string \<Rightarrow> string \<Rightarrow> staging_config result" where
  "parse_staging_url url ak sk =
     res_bind (ok_or (Config (msg_bad_scheme url)) (strip_prefix ''s3://'' url)) (\<lambda>rest.
     res_bind (ok_or (Config (msg_no_bucket url)) (split_once CHR ''/'' rest)) (\<lambda>(host, raw).
       let after_host = trim_start_matches CHR ''/'' raw;
           (bkt, px) = (case split_once CHR ''/'' after_host of
                          Some (b, p) \<Rightarrow> (b, p) | None \<Rightarrow> (after_host, []))
       in if host = [] \<or> bkt = [] then Inl (Config (msg_empty_part url))
          else case classify_endpoint host of
                 None \<Rightarrow> Inl (Config (msg_unsignable url))
               | Some (svc, rg) \<Rightarrow>
                   Inr \<lparr>endpoint = host, bucket = bkt, key_prefix = trim_matches CHR ''/'' px,
                        access_key_id = ak, secret_access_key = sk, service = svc, region = rg\<rparr>))"

section \<open>The queries\<close>

record 's control_api =
  connect_control :: "string \<Rightarrow> 's \<Rightarrow> unit result \<times> 's"
  query_staging_config :: "'s \<Rightarrow> (pg_error + string \<times> string \<times> string) \<times> 's"
  query_instance_id :: "'s \<Rightarrow> (pg_error + string option) \<times> 's"
  query_watermark :: "string \<Rightarrow> 's \<Rightarrow> (pg_error + i64 option) \<times> 's"
  query_database :: "'s \<Rightarrow> (pg_error + string) \<times> 's"

definition is_undefined_function :: "pg_error \<Rightarrow> bool" where
  "is_undefined_function e \<longleftrightarrow>
     (case as_db_error e of Some db \<Rightarrow> db_code db = UNDEFINED_FUNCTION | None \<Rightarrow> False)"

definition is_insufficient_privilege :: "pg_error \<Rightarrow> bool" where
  "is_insufficient_privilege e \<longleftrightarrow>
     (case as_db_error e of Some db \<Rightarrow> db_code db = INSUFFICIENT_PRIVILEGE | None \<Rightarrow> False)"

definition staging_query_error :: "pg_error \<Rightarrow> error" where
  "staging_query_error e =
     (if is_undefined_function e then
        Config (''this server has no relyt_get_ingest_staging_config(): it predates Relyt-managed ingest ''
          @ ''staging. Upgrade the instance, or set Staging::Customer(..) with your own bucket.'')
      else if is_insufficient_privilege e then
        Config (''the ingest account may not execute relyt_get_ingest_staging_config(); ask the Relyt ''
          @ ''administrator to grant it, or use your own bucket.'')
      else Database e)"

definition fetch_managed_staging :: "'s control_api \<Rightarrow> 's \<Rightarrow> staging_config result \<times> 's" where
  "fetch_managed_staging ctl s =
     (case query_staging_config ctl s of
        (Inl e, s') \<Rightarrow> (Inl (staging_query_error e), s')
      | (Inr (url, ak, sk), s') \<Rightarrow>
          (res_bind (parse_staging_url url ak sk) (\<lambda>c. res_bind (validate_staging c) (\<lambda>_. Inr c)), s'))"

definition resolve_staging ::
  "'s control_api \<Rightarrow> client_config \<Rightarrow> 's \<Rightarrow> staging_config result \<times> 's" where
  "resolve_staging ctl cfg s =
     (case cfg_staging cfg of Customer c \<Rightarrow> (Inr c, s) | Relyt \<Rightarrow> fetch_managed_staging ctl s)"

definition msg_no_identity :: string where
  "msg_no_identity =
     ''cluster identity unavailable: the server has no relyt.instanceid configured (or predates ''
     @ ''relyt_get_instance_id()); set ClientConfig::cluster_id explicitly ''
     @ [CHR 0xE2, CHR 0x80, CHR 0x94]
     @ '' db/rel OIDs are only unique within one cluster, so a shared bucket without cluster scoping ''
     @ ''WILL collide''"

definition accept_server_id :: "string option \<Rightarrow> string result" where
  "accept_server_id server =
     (case server of
        Some v \<Rightarrow>
          if cluster_id_is_unset v then Inl (Config msg_no_identity)
          else (case validate_cluster_id v of
                  Inl e \<Rightarrow> Inl (Config (''server-provided instance id (relyt_get_instance_id()) is unusable ''
                     @ ''as a staging path segment: '' @ display e
                     @ ''; set ClientConfig::cluster_id explicitly''))
                | Inr _ \<Rightarrow> Inr v)
      | None \<Rightarrow> Inl (Config msg_no_identity))"

definition resolve_cluster_id :: "'s control_api \<Rightarrow> client_config \<Rightarrow> 's \<Rightarrow> string result \<times> 's" where
  "resolve_cluster_id ctl cfg s =
     (case cfg_cluster_id cfg of
        Some c \<Rightarrow>
          (if cluster_id_is_unset c then
             Inl (Config ''cfg.cluster_id is set to an 'unset' sentinel; provide a real identifier'')
           else res_bind (validate_cluster_id c) (\<lambda>_. Inr c), s)
      | None \<Rightarrow>
          (case query_instance_id ctl s of
             (Inl e, s') \<Rightarrow> (if is_undefined_function e then accept_server_id None else Inl (Database e), s')
           | (Inr server, s') \<Rightarrow> (accept_server_id server, s')))"

section \<open>Refreshing the credentials\<close>

type_synonym 's mk_store = "op_config \<Rightarrow> storage_error + 's operator"

definition refresh_managed_staging ::
  "'s control_api \<Rightarrow> 's mk_store \<Rightarrow> 's operator staging_handle \<Rightarrow> 's
     \<Rightarrow> bool result \<times> 's operator staging_handle \<times> 's" where
  "refresh_managed_staging ctl mk h s =
     (case managed_dsn h of
        None \<Rightarrow> (Inr False, h, s)
      | Some dsn \<Rightarrow>
          (case connect_control ctl dsn s of
             (Inl e, s') \<Rightarrow> (Inl e, h, s')
           | (Inr _, s') \<Rightarrow>
               (case fetch_managed_staging ctl s' of
                  (Inl e, s'') \<Rightarrow> (Inl e, h, s'')
                | (Inr fresh, s'') \<Rightarrow>
                    (case apply_staging mk fresh h of (r, h') \<Rightarrow> (r, h', s'')))))"

text \<open>One round of the periodic task: an error leaves the credentials as they are.\<close>

definition staging_refresh_round ::
  "'s control_api \<Rightarrow> 's mk_store \<Rightarrow> 's operator staging_handle \<Rightarrow> 's
     \<Rightarrow> 's operator staging_handle \<times> 's" where
  "staging_refresh_round ctl mk h s = snd (refresh_managed_staging ctl mk h s)"

section \<open>Client::connect\<close>

record 's client =
  cl_cfg :: client_config
  cl_staging :: "'s operator staging_handle"
  cl_notifier :: notifier
  cl_cluster_id :: string

definition client_connect ::
  "'s control_api \<Rightarrow> 's mk_store \<Rightarrow> client_config \<Rightarrow> 's \<Rightarrow> 's client result \<times> 's" where
  "client_connect ctl mk cfg s =
     (case validate cfg of
        Inl e \<Rightarrow> (Inl e, s)
      | Inr _ \<Rightarrow>
     (case connect_control ctl (control_dsn cfg) s of
        (Inl e, s1) \<Rightarrow> (Inl e, s1)
      | (Inr _, s1) \<Rightarrow>
     (case resolve_staging ctl cfg s1 of
        (Inl e, s2) \<Rightarrow> (Inl e, s2)
      | (Inr sc, s2) \<Rightarrow>
     (case handle_new mk sc (case cfg_staging cfg of Relyt \<Rightarrow> Some (control_dsn cfg) | Customer _ \<Rightarrow> None) of
        Inl e \<Rightarrow> (Inl e, s2)
      | Inr h \<Rightarrow>
     (case resolve_cluster_id ctl cfg s2 of
        (Inl e, s3) \<Rightarrow> (Inl e, s3)
      | (Inr cid, s3) \<Rightarrow>
          (Inr \<lparr>cl_cfg = cfg, cl_staging = h, cl_notifier = notifier_spawn, cl_cluster_id = cid\<rparr>, s3))))))"


section \<open>Lemmas\<close>

lemma trim_matches_twice [simp]: "trim_matches d (trim_matches d s) = trim_matches d s"
  using trim_matches_id trim_matches_ends by blast

lemma trim_matches_empty [simp]: "trim_matches d [] = []"
  by (simp add: trim_matches_def)

lemma parse_staging_url_Inr:
  assumes "parse_staging_url url ak sk = Inr c"
  shows "CHR ''/'' \<notin> set (endpoint c) \<and> endpoint c \<noteq> [] \<and> CHR ''/'' \<notin> set (bucket c) \<and> bucket c \<noteq> []
     \<and> trim_matches CHR ''/'' (key_prefix c) = key_prefix c
     \<and> classify_endpoint (endpoint c) = Some (service c, region c)
     \<and> access_key_id c = ak \<and> secret_access_key c = sk"
proof -
  from assms obtain rest host raw where
      s: "split_once CHR ''/'' rest = Some (host, raw)" and
      p: "parse_staging_url url ak sk =
        (let after_host = trim_start_matches CHR ''/'' raw;
           (bkt, px) = (case split_once CHR ''/'' after_host of
                          Some (b, p) \<Rightarrow> (b, p) | None \<Rightarrow> (after_host, []))
       in if host = [] \<or> bkt = [] then Inl (Config (msg_empty_part url))
          else case classify_endpoint host of
                 None \<Rightarrow> Inl (Config (msg_unsignable url))
               | Some (svc, rg) \<Rightarrow>
                   Inr \<lparr>endpoint = host, bucket = bkt, key_prefix = trim_matches CHR ''/'' px,
                        access_key_id = ak, secret_access_key = sk, service = svc, region = rg\<rparr>)"
    by (cases "strip_prefix ''s3://'' url"; cases "split_once CHR ''/'' (the (strip_prefix ''s3://'' url))")
       (auto simp: parse_staging_url_def)
  from s have "CHR ''/'' \<notin> set host" by (simp add: split_once_Some)
  with p assms show ?thesis
    by (cases "split_once CHR ''/'' (trim_start_matches CHR ''/'' raw)")
       (auto simp: Let_def split_once_Some split_once_None split: option.splits if_splits)
qed

lemma trim_start_bucket:
  "b \<noteq> [] \<Longrightarrow> CHR ''/'' \<notin> set b \<Longrightarrow> trim_start_matches CHR ''/'' (b @ r) = b @ r"
  by (cases b) (auto simp: trim_start_matches_def)

section \<open>Properties\<close>

text \<open>
  C34. The location a master hands out survives the round trip through the base URL under which files are
  announced: printing a parsed location and parsing it again gives the same endpoint, bucket, prefix,
  store kind and region.
\<close>
theorem staging_url_roundtrip:
  assumes "parse_staging_url url ak sk = Inr c"
  shows "parse_staging_url (staging_url_base c) ak' sk'
     = Inr (c\<lparr>access_key_id := ak', secret_access_key := sk'\<rparr>)"
proof -
  note c = parse_staging_url_Inr [OF assms]
  let ?b = "bucket c" and ?p = "key_prefix c"
  have b: "split_once CHR ''/'' (endpoint c @ CHR ''/'' # r) = Some (endpoint c, r)" for r
    using c by (simp add: split_once_Some)
  have "split_once CHR ''/'' ?b = None" "split_once CHR ''/'' (?b @ CHR ''/'' # ?p) = Some (?b, ?p)"
    using c by (simp_all add: split_once_None split_once_Some)
  moreover have "c\<lparr>access_key_id := ak', secret_access_key := sk'\<rparr> = \<lparr>endpoint = endpoint c, bucket = ?b,
      key_prefix = ?p, access_key_id = ak', secret_access_key = sk', service = service c, region = region c\<rparr>"
    by (cases c) simp
  ultimately show ?thesis
    using c trim_start_bucket [of ?b "[]"] trim_start_bucket [of ?b "CHR ''/'' # ?p"]
    by (cases "?p = []") (simp_all add: parse_staging_url_def staging_url_base_def Let_def b)
qed

theorem staging_url_roundtrip_witness:
  "parse_staging_url (staging_url_base (projr (parse_staging_url
     ''s3://oss-cn-hangzhou.aliyuncs.com//stage/inst-7/'' ''ak'' ''sk''))) ''k2'' ''s2''
   = Inr \<lparr>endpoint = ''oss-cn-hangzhou.aliyuncs.com'', bucket = ''stage'', key_prefix = ''inst-7'',
       access_key_id = ''k2'', secret_access_key = ''s2'', service = Oss, region = None\<rparr>"
proof -
  have "parse_staging_url ''s3://oss-cn-hangzhou.aliyuncs.com//stage/inst-7/'' ''ak'' ''sk''
    = Inr \<lparr>endpoint = ''oss-cn-hangzhou.aliyuncs.com'', bucket = ''stage'', key_prefix = ''inst-7'',
       access_key_id = ''ak'', secret_access_key = ''sk'', service = Oss, region = None\<rparr>"
    by code_simp
  from staging_url_roundtrip [OF this, of "''k2''" "''s2''"] this show ?thesis by simp
qed

end
