(* ===== verification/Dedup_Rows.thy ===== *)
theory Dedup_Rows
  imports Csv_Format "HOL-Library.Product_Lexorder"
begin

text \<open>
  \<open>src/dedup.rs\<close>: the key bytes of a row and the pass that keeps the last row of every key.
\<close>

section \<open>Key bytes\<close>

definition be_bytes :: "nat \<Rightarrow> int \<Rightarrow> string" where
  "be_bytes w v = map (\<lambda>i. char_of (nat ((v div 256 ^ (w - 1 - i)) mod 256))) [0..<w]"

text \<open>\<open>(v.len() as u32).to_be_bytes()\<close>: the cast truncates.\<close>

definition len_prefix :: "string \<Rightarrow> string" where
  "len_prefix v = be_bytes 4 (int (length v) mod 2 ^ 32)"

definition bool_byte :: "bool \<Rightarrow> string" where
  "bool_byte b = [char_of (if b then 1 else 0 :: nat)]"

definition msg_pk_type :: "string \<Rightarrow> string" where
  "msg_pk_type t = ''column type '' @ t @ '' cannot be part of a primary key''"

fun append_value_bytes :: "(data_type \<Rightarrow> string) \<Rightarrow> array \<Rightarrow> nat \<Rightarrow> string result" where
  "append_value_bytes dbg (BooleanArray a) row = Inr (bool_byte (the (a ! row)))"
| "append_value_bytes dbg (Int8Array a) row = Inr (be_bytes 8 (the (a ! row)))"
| "append_value_bytes dbg (Int16Array a) row = Inr (be_bytes 8 (the (a ! row)))"
| "append_value_bytes dbg (Int32Array a) row = Inr (be_bytes 8 (the (a ! row)))"
| "append_value_bytes dbg (Int64Array a) row = Inr (be_bytes 8 (the (a ! row)))"
| "append_value_bytes dbg (Date32Array a) row = Inr (be_bytes 8 (the (a ! row)))"
| "append_value_bytes dbg (TimestampArray Microsecond tz a) row = Inr (be_bytes 8 (the (a ! row)))"
| "append_value_bytes dbg (TimestampArray Millisecond tz a) row = Inr (be_bytes 8 (the (a ! row)))"
| "append_value_bytes dbg (Decimal128Array p s a) row = Inr (be_bytes 16 (the (a ! row)))"
| "append_value_bytes dbg (StringArray a) row = Inr (len_prefix (the (a ! row)) @ the (a ! row))"
| "append_value_bytes dbg (LargeStringArray a) row = Inr (len_prefix (the (a ! row)) @ the (a ! row))"
| "append_value_bytes dbg (BinaryArray a) row = Inr (len_prefix (the (a ! row)) @ the (a ! row))"
| "append_value_bytes dbg (LargeBinaryArray a) row = Inr (len_prefix (the (a ! row)) @ the (a ! row))"
| "append_value_bytes dbg a row = Inl (Schema (msg_pk_type (dbg (array_type a))))"

definition is_supported_pk_type :: "data_type \<Rightarrow> bool" where
  "is_supported_pk_type dt \<longleftrightarrow> \<not> (dt = Float32 \<or> dt = Float64) \<and> is_supported_type dt"

definition msg_pk_column :: "string \<Rightarrow> nat \<Rightarrow> string" where
  "msg_pk_column t col = ''unsupported PK column type '' @ t @ '' (column #'' @ show_nat col @ '')''"

definition pk_part :: "(data_type \<Rightarrow> string) \<Rightarrow> record_batch \<Rightarrow> nat \<Rightarrow> nat \<Rightarrow> string result" where
  "pk_part dbg batch row col =
     (let a = columns batch ! col in
      if is_null a row then Inr [CHR 0x00]
      else case append_value_bytes dbg a row of
             Inl _ \<Rightarrow> Inl (Schema (msg_pk_column (dbg (array_type a)) col))
           | Inr bytes \<Rightarrow> Inr ([CHR 0x01] @ bytes @ [CHR 0xFF]))"

definition pk_key :: "(data_type \<Rightarrow> string) \<Rightarrow> record_batch \<Rightarrow> nat list \<Rightarrow> nat \<Rightarrow> string result" where
  "pk_key dbg batch pk_columns row =
     res_bind (res_all (pk_part dbg batch row) pk_columns) (\<lambda>parts. Inr (concat parts))"

section \<open>Last write wins\<close>

text \<open>
  The hash map from key to its latest place, as a list without duplicate keys: only its set of values is
  read, and that is sorted.
\<close>

type_synonym latest = "(string \<times> (nat \<times> nat)) list"

definition insert_latest :: "string \<Rightarrow> nat \<times> nat \<Rightarrow> latest \<Rightarrow> latest" where
  "insert_latest k p m = (k, p) # filter (\<lambda>kp. fst kp \<noteq> k) m"

fun scan_rows ::
  "(data_type \<Rightarrow> string) \<Rightarrow> nat list \<Rightarrow> nat \<Rightarrow> record_batch \<Rightarrow> nat list \<Rightarrow> latest \<Rightarrow> latest result" where
  "scan_rows dbg pk bi batch [] m = Inr m"
| "scan_rows dbg pk bi batch (row # rows) m =
     res_bind (pk_key dbg batch pk row) (\<lambda>key.
       scan_rows dbg pk bi batch rows (insert_latest key (bi, row) m))"

fun scan_batches ::
  "(data_type \<Rightarrow> string) \<Rightarrow> nat list \<Rightarrow> nat \<Rightarrow> record_batch list \<Rightarrow> latest \<Rightarrow> latest result" where
  "scan_batches dbg pk bi [] m = Inr m"
| "scan_batches dbg pk bi (b # bs) m =
     res_bind (scan_rows dbg pk bi b [0..<num_rows b] m) (\<lambda>m'. scan_batches dbg pk (Suc bi) bs m')"

definition keep_rows :: "nat \<Rightarrow> (nat \<times> nat) list \<Rightarrow> nat list list" where
  "keep_rows n winners = map (\<lambda>bi. map snd (filter (\<lambda>w. fst w = bi) winners)) [0..<n]"

definition dedup_last_wins ::
  "(data_type \<Rightarrow> string) \<Rightarrow> record_batch list \<Rightarrow> nat list \<Rightarrow> nat list list result" where
  "dedup_last_wins dbg batches pk_columns =
     res_bind (scan_batches dbg pk_columns 0 batches []) (\<lambda>m.
       Inr (keep_rows (length batches) (sort (map snd m))))"

section \<open>The key is the values\<close>

datatype key_val = KBool bool | KInt int | KText string

fun key_value :: "array \<Rightarrow> nat \<Rightarrow> key_val option" where
  "key_value (BooleanArray a) row = map_option KBool (a ! row)"
| "key_value (Int8Array a) row = map_option KInt (a ! row)"
| "key_value (Int16Array a) row = map_option KInt (a ! row)"
| "key_value (Int32Array a) row = map_option KInt (a ! row)"
| "key_value (Int64Array a) row = map_option KInt (a ! row)"
| "key_value (Date32Array a) row = map_option KInt (a ! row)"
| "key_value (TimestampArray u tz a) row = map_option KInt (a ! row)"
| "key_value (Decimal128Array p s a) row = map_option KInt (a ! row)"
| "key_value (StringArray a) row = map_option KText (a ! row)"
| "key_value (LargeStringArray a) row = map_option KText (a ! row)"
| "key_value (BinaryArray a) row = map_option KText (a ! row)"
| "key_value (LargeBinaryArray a) row = map_option KText (a ! row)"
| "key_value _ row = None"

text \<open>What an array can hold: integers of the width, texts shorter than 4 GiB.\<close>

definition kv_ok :: "data_type \<Rightarrow> key_val \<Rightarrow> bool" where
  "kv_ok dt v \<longleftrightarrow>
     (case v of
        KBool _ \<Rightarrow> dt = Boolean
      | KInt i \<Rightarrow> (case dt of Decimal128 _ _ \<Rightarrow> - (2 ^ 127) \<le> i \<and> i < 2 ^ 127 | _ \<Rightarrow> in_i64 i)
          \<and> dt \<notin> {Boolean, Utf8, LargeUtf8, Binary, LargeBinary}
      | KText s \<Rightarrow> length s < 2 ^ 32 \<and> dt \<in> {Utf8, LargeUtf8, Binary, LargeBinary})"

definition enc_val :: "data_type \<Rightarrow> key_val \<Rightarrow> string" where
  "enc_val dt v =
     (case v of
        KBool b \<Rightarrow> bool_byte b
      | KInt i \<Rightarrow> be_bytes (case dt of Decimal128 _ _ \<Rightarrow> 16 | _ \<Rightarrow> 8) i
      | KText s \<Rightarrow> len_prefix s @ s)"

definition enc_part :: "data_type \<Rightarrow> key_val option \<Rightarrow> string" where
  "enc_part dt v = (case v of None \<Rightarrow> [CHR 0x00] | Some x \<Rightarrow> [CHR 0x01] @ enc_val dt x @ [CHR 0xFF])"

lemma length_be_bytes [simp]: "length (be_bytes w v) = w"
  by (simp add: be_bytes_def)

lemma be_bytes_Suc: "be_bytes (Suc w) v = be_bytes w (v div 256) @ [char_of (nat (v mod 256))]"
proof -
  have "v div 256 ^ (w - i) = v div 256 div 256 ^ (w - 1 - i)" if "i < w" for i
  proof -
    from that have "256 ^ (w - i) = (256 :: int) * 256 ^ (w - 1 - i)"
      by (simp flip: power_Suc add: Suc_diff_Suc)
    then show ?thesis by (simp add: zdiv_zmult2_eq)
  qed
  then show ?thesis by (simp add: be_bytes_def)
qed

lemma be_bytes_inj: "be_bytes w v = be_bytes w u \<Longrightarrow> v mod 256 ^ w = u mod 256 ^ w"
proof (induction w arbitrary: v u)
  case (Suc w)
  then have "be_bytes w (v div 256) = be_bytes w (u div 256)"
    and c: "char_of (nat (v mod 256)) = (char_of (nat (u mod 256)) :: char)"
    by (simp_all add: be_bytes_Suc)
  with Suc.IH have h: "v div 256 mod 256 ^ w = u div 256 mod 256 ^ w" by blast
  have "nat (v mod 256) = nat (u mod 256)" using c by simp
  then have "v mod 256 = u mod 256" by (simp add: eq_nat_nat_iff)
  with h show ?case by (simp add: zmod_zmult2_eq)
qed simp

lemma be_bytes_int_inj:
  assumes "be_bytes w v = be_bytes w u" and "- (256 ^ w) \<le> 2 * v" "2 * v < 256 ^ w" "- (256 ^ w) \<le> 2 * u" "2 * u < 256 ^ w"
  shows "v = u"
proof -
  have "256 ^ w dvd (v - u)"
    using be_bytes_inj [OF assms(1)] by (simp add: mod_eq_dvd_iff)
  moreover have "\<bar>v - u\<bar> < 256 ^ w" using assms(2-5) by linarith
  ultimately show ?thesis using zdvd_imp_le [of "256 ^ w" "\<bar>v - u\<bar>"] by fastforce
qed

lemma enc_val_prefix:
  assumes "kv_ok dt v" "kv_ok dt w" and "enc_val dt v @ x = enc_val dt w @ y"
  shows "v = w \<and> x = y"
proof (cases v)
  case (KBool b)
  with assms show ?thesis by (cases w) (auto simp: kv_ok_def enc_val_def bool_byte_def split: if_splits data_type.splits)
next
  case (KInt i)
  with assms(1,2) obtain j where w: "w = KInt j" by (cases w) (auto simp: kv_ok_def split: data_type.splits)
  let ?n = "case dt of Decimal128 _ _ \<Rightarrow> (16 :: nat) | _ \<Rightarrow> 8"
  from assms(3) KInt w have e: "be_bytes ?n i = be_bytes ?n j" "x = y" by (simp_all add: enc_val_def)
  have "i = j"
  proof (rule be_bytes_int_inj [OF e(1)])
    show "- (256 ^ ?n) \<le> 2 * i" "2 * i < 256 ^ ?n" "- (256 ^ ?n) \<le> 2 * j" "2 * j < 256 ^ ?n"
      using assms(1,2) KInt w by (auto simp: kv_ok_def in_i64_def i64_min_def i64_max_def split: data_type.splits)
  qed
  with KInt w e(2) show ?thesis by simp
next
  case (KText s)
  with assms(1,2) obtain t where w: "w = KText t" by (cases w) (auto simp: kv_ok_def split: data_type.splits)
  from assms(3) KText w have e: "len_prefix s = len_prefix t" "s @ x = t @ y"
    by (simp_all add: enc_val_def len_prefix_def)
  have l: "length s < 2 ^ 32" "length t < 2 ^ 32" using assms(1,2) KText w by (simp_all add: kv_ok_def)
  have "int (length s) mod 2 ^ 32 mod 256 ^ 4 = int (length t) mod 2 ^ 32 mod 256 ^ 4"
    using be_bytes_inj [OF e(1) [unfolded len_prefix_def]] .
  with l have "length s = length t" by simp
  with e(2) KText w show ?thesis by simp
qed

lemma enc_part_prefix:
  assumes "\<forall>z. v = Some z \<longrightarrow> kv_ok dt z" "\<forall>z. w = Some z \<longrightarrow> kv_ok dt z"
    and "enc_part dt v @ x = enc_part dt w @ y"
  shows "v = w \<and> x = y"
  using assms enc_val_prefix [of dt "the v" "the w" "CHR 0xFF # x" "CHR 0xFF # y"]
  by (cases v; cases w) (auto simp: enc_part_def)

lemma enc_parts_inj:
  assumes "length vs = length dts" "length ws = length dts"
    and "\<forall>i < length dts. (\<forall>z. vs ! i = Some z \<longrightarrow> kv_ok (dts ! i) z) \<and> (\<forall>z. ws ! i = Some z \<longrightarrow> kv_ok (dts ! i) z)"
    and "concat (map2 enc_part dts vs) = concat (map2 enc_part dts ws)"
  shows "vs = ws"
  using assms
proof (induction dts arbitrary: vs ws)
  case (Cons dt dts)
  from Cons.prems(1,2) obtain v vs' w ws' where vw: "vs = v # vs'" "ws = w # ws'"
    by (cases vs; cases ws) auto
  have ok: "\<forall>z. v = Some z \<longrightarrow> kv_ok dt z" "\<forall>z. w = Some z \<longrightarrow> kv_ok dt z"
    using Cons.prems(3) vw by auto
  have tl: "\<forall>i < length dts. (\<forall>z. vs' ! i = Some z \<longrightarrow> kv_ok (dts ! i) z) \<and> (\<forall>z. ws' ! i = Some z \<longrightarrow> kv_ok (dts ! i) z)"
    using Cons.prems(3) vw by force
  from Cons.prems(4) vw have "enc_part dt v @ concat (map2 enc_part dts vs') = enc_part dt w @ concat (map2 enc_part dts ws')"
    by simp
  from enc_part_prefix [OF ok this] have "v = w" "concat (map2 enc_part dts vs') = concat (map2 enc_part dts ws')"
    by simp_all
  then show ?case using Cons.IH [of vs' ws'] Cons.prems(1,2) vw tl by simp
qed simp

section \<open>The latest place of every key\<close>

definition fold_latest :: "(string \<times> (nat \<times> nat)) list \<Rightarrow> latest \<Rightarrow> latest" where
  "fold_latest kps m = fold (\<lambda>kp. insert_latest (fst kp) (snd kp)) kps m"

lemma fold_latest_spec:
  "distinct (map fst (fold_latest kps [])) \<and>
   (\<forall>k p. (k, p) \<in> set (fold_latest kps []) \<longleftrightarrow> (\<exists>xs ys. kps = xs @ (k, p) # ys \<and> k \<notin> fst ` set ys))"
proof (induction kps rule: rev_induct)
  case Nil
  show ?case by (simp add: fold_latest_def)
next
  case (snoc x kps)
  obtain k0 p0 where x: "x = (k0, p0)" by (cases x)
  let ?m = "fold_latest kps []"
  have m: "fold_latest (kps @ [x]) [] = (k0, p0) # filter (\<lambda>kp. fst kp \<noteq> k0) ?m"
    by (simp add: fold_latest_def insert_latest_def x)
  have "distinct (map fst (filter (\<lambda>kp. fst kp \<noteq> k0) ?m))"
    using snoc.IH by (simp add: distinct_map_filter)
  then have d: "distinct (map fst (fold_latest (kps @ [x]) []))"
    by (auto simp: m)
  have "(k, p) \<in> set (fold_latest (kps @ [x]) []) \<longleftrightarrow> (\<exists>xs ys. kps @ [x] = xs @ (k, p) # ys \<and> k \<notin> fst ` set ys)"
    for k p
  proof (cases "k = k0")
    case True
    have "p = p0 \<longleftrightarrow> (\<exists>xs ys. kps @ [(k0, p0)] = xs @ (k0, p) # ys \<and> k0 \<notin> fst ` set ys)"
    proof
      assume "p = p0"
      then show "\<exists>xs ys. kps @ [(k0, p0)] = xs @ (k0, p) # ys \<and> k0 \<notin> fst ` set ys"
        by (intro exI [of _ kps] exI [of _ "[]"]) simp
    next
      assume "\<exists>xs ys. kps @ [(k0, p0)] = xs @ (k0, p) # ys \<and> k0 \<notin> fst ` set ys"
      then obtain xs ys where "kps @ [(k0, p0)] = xs @ (k0, p) # ys" "k0 \<notin> fst ` set ys" by blast
      then show "p = p0" by (cases ys rule: rev_cases) auto
    qed
    then show ?thesis unfolding m using True by (auto simp: x)
  next
    case False
    have "(\<exists>xs ys. kps = xs @ (k, p) # ys \<and> k \<notin> fst ` set ys) \<longleftrightarrow>
        (\<exists>xs ys. kps @ [x] = xs @ (k, p) # ys \<and> k \<notin> fst ` set ys)"
    proof
      assume "\<exists>xs ys. kps = xs @ (k, p) # ys \<and> k \<notin> fst ` set ys"
      then obtain xs ys where "kps = xs @ (k, p) # ys" "k \<notin> fst ` set ys" by blast
      then show "\<exists>xs ys. kps @ [x] = xs @ (k, p) # ys \<and> k \<notin> fst ` set ys"
        using False by (intro exI [of _ xs] exI [of _ "ys @ [x]"]) (simp add: x)
    next
      assume "\<exists>xs ys. kps @ [x] = xs @ (k, p) # ys \<and> k \<notin> fst ` set ys"
      then obtain xs ys where e: "kps @ [x] = xs @ (k, p) # ys" "k \<notin> fst ` set ys" by blast
      then show "\<exists>xs ys. kps = xs @ (k, p) # ys \<and> k \<notin> fst ` set ys"
        using False x by (cases ys rule: rev_cases) auto
    qed
    moreover have "(k, p) \<in> set (fold_latest (kps @ [x]) []) \<longleftrightarrow> (k, p) \<in> set ?m"
      using False by (simp add: m)
    ultimately show ?thesis using snoc.IH by blast
  qed
  with d show ?case by blast
qed

text \<open>Where the places ascend, the last occurrence is the one without a greater place of the same key.\<close>

lemma last_occurrence:
  assumes "sorted_wrt (<) (map snd kps)"
  shows "(\<exists>xs ys. kps = xs @ (k, p) # ys \<and> k \<notin> fst ` set ys) \<longleftrightarrow>
     (k, p) \<in> set kps \<and> (\<forall>k' p'. (k', p') \<in> set kps \<and> (p :: nat \<times> nat) < p' \<longrightarrow> k' \<noteq> k)"
proof
  assume "\<exists>xs ys. kps = xs @ (k, p) # ys \<and> k \<notin> fst ` set ys"
  then obtain xs ys where e: "kps = xs @ (k, p) # ys" "k \<notin> fst ` set ys" by blast
  have "k' \<noteq> k" if "(k', p') \<in> set kps" "p < p'" for k' p'
  proof -
    from assms e have "\<forall>q \<in> set xs. snd q < p" by (simp add: sorted_wrt_append)
    with that e have "(k', p') \<in> set ys" by fastforce
    with e(2) show ?thesis by force
  qed
  with e show "(k, p) \<in> set kps \<and> (\<forall>k' p'. (k', p') \<in> set kps \<and> p < p' \<longrightarrow> k' \<noteq> k)" by auto
next
  assume r: "(k, p) \<in> set kps \<and> (\<forall>k' p'. (k', p') \<in> set kps \<and> p < p' \<longrightarrow> k' \<noteq> k)"
  then obtain xs ys where e: "kps = xs @ (k, p) # ys" by (meson split_list)
  with assms have "\<forall>q \<in> set ys. p < snd q" by (simp add: sorted_wrt_append)
  with r e have "k \<notin> fst ` set ys" by fastforce
  with e show "\<exists>xs ys. kps = xs @ (k, p) # ys \<and> k \<notin> fst ` set ys" by blast
qed

text \<open>All rows of the batches, in order.\<close>

fun places_from :: "nat \<Rightarrow> record_batch list \<Rightarrow> (nat \<times> nat) list" where
  "places_from bi [] = []"
| "places_from bi (b # bs) = map (\<lambda>r. (bi, r)) [0..<num_rows b] @ places_from (Suc bi) bs"

lemma places_from_set:
  "(i, r) \<in> set (places_from bi bs) \<longleftrightarrow> bi \<le> i \<and> i < bi + length bs \<and> r < num_rows (bs ! (i - bi))"
proof (induction bi bs rule: places_from.induct)
  case (2 bi b bs)
  show ?case by (cases "i = bi") (use 2 in \<open>auto simp: nth_Cons' not_less_eq_eq\<close>)
qed auto

lemma sorted_places: "sorted_wrt (<) (places_from bi bs)"
proof (induction bi bs rule: places_from.induct)
  case (2 bi b bs)
  have "sorted_wrt (<) (map (\<lambda>r. (bi, r)) [0..<n])" for n
    by (simp add: sorted_wrt_map sorted_wrt_upt)
  moreover have "x < y" if "x \<in> set (map (\<lambda>r. (bi, r)) [0..<num_rows b])" "y \<in> set (places_from (Suc bi) bs)" for x y
    using that by (cases y) (auto simp: places_from_set)
  ultimately show ?case using 2 by (auto simp: sorted_wrt_append)
qed simp

lemma scan_rows_fold:
  assumes "\<forall>r \<in> set rows. pk_key dbg b pk r = Inr (k (bi, r))"
  shows "scan_rows dbg pk bi b rows m = Inr (fold_latest (map (\<lambda>r. (k (bi, r), (bi, r))) rows) m)"
  using assms by (induction rows arbitrary: m) (simp_all add: fold_latest_def)

lemma scan_batches_fold:
  assumes "\<forall>p \<in> set (places_from bi bs). pk_key dbg (bs ! (fst p - bi)) pk (snd p) = Inr (k p)"
  shows "scan_batches dbg pk bi bs m = Inr (fold_latest (map (\<lambda>p. (k p, p)) (places_from bi bs)) m)"
  using assms
proof (induction bi bs arbitrary: m rule: places_from.induct)
  case (2 bi b bs)
  have "\<forall>p \<in> set (places_from (Suc bi) bs). pk_key dbg (bs ! (fst p - Suc bi)) pk (snd p) = Inr (k p)"
  proof
    fix p assume p: "p \<in> set (places_from (Suc bi) bs)"
    then have "Suc bi \<le> fst p" using places_from_set [of "fst p" "snd p"] by simp
    then have "(b # bs) ! (fst p - bi) = bs ! (fst p - Suc bi)" by (simp add: nth_Cons')
    moreover have "pk_key dbg ((b # bs) ! (fst p - bi)) pk (snd p) = Inr (k p)" using 2(2) p by simp
    ultimately show "pk_key dbg (bs ! (fst p - Suc bi)) pk (snd p) = Inr (k p)" by simp
  qed
  moreover have "scan_rows dbg pk bi b [0..<num_rows b] m
      = Inr (fold_latest (map (\<lambda>r. (k (bi, r), (bi, r))) [0..<num_rows b]) m)"
  proof (rule scan_rows_fold, rule ballI)
    fix r assume "r \<in> set [0..<num_rows b]"
    then show "pk_key dbg b pk r = Inr (k (bi, r))"
      using bspec [OF 2(2), of "(bi, r)"] by simp
  qed
  ultimately show ?case using 2(1) by (simp add: fold_latest_def comp_def)
qed (simp add: fold_latest_def)

lemma latest_image:
  fixes p :: "'p::ord"
  shows "((k', p) \<in> (\<lambda>p. (k p, p)) ` S \<and> (\<forall>k2 p2. (k2, p2) \<in> (\<lambda>p. (k p, p)) ` S \<and> p < p2 \<longrightarrow> k2 \<noteq> k'))
     \<longleftrightarrow> p \<in> S \<and> k' = k p \<and> (\<forall>q \<in> S. p < q \<longrightarrow> k q \<noteq> k p)"
  by auto

section \<open>Batches with a usable key\<close>

text \<open>
  What \<open>open_table\<close> and \<open>append\<close> establish of the key columns: they exist, have one supported type over
  all batches (\<open>ty\<close>), as many rows as their batch, and values of that type.
\<close>

definition keyed :: "record_batch list \<Rightarrow> nat list \<Rightarrow> (nat \<Rightarrow> data_type) \<Rightarrow> bool" where
  "keyed batches pk ty \<longleftrightarrow>
     (\<forall>b \<in> set batches. \<forall>c \<in> set pk. c < length (columns b) \<and> array_type (columns b ! c) = ty c \<and>
        is_supported_pk_type (ty c) \<and> array_len (columns b ! c) = num_rows b \<and>
        (\<forall>row < num_rows b. \<forall>z. key_value (columns b ! c) row = Some z \<longrightarrow> kv_ok (ty c) z))"

definition pk_values :: "record_batch list \<Rightarrow> nat list \<Rightarrow> nat \<times> nat \<Rightarrow> key_val option list" where
  "pk_values batches pk p = map (\<lambda>c. key_value (columns (batches ! fst p) ! c) (snd p)) pk"

lemma append_value_enc:
  assumes "is_supported_pk_type (array_type a)" and "row < array_len a" and "\<not> is_null a row"
  shows "\<exists>z. key_value a row = Some z \<and> append_value_bytes dbg a row = Inr (enc_val (array_type a) z)"
proof (cases a)
  case (TimestampArray u tz vs)
  with assms show ?thesis
    by (cases u) (auto simp: is_supported_pk_type_def is_supported_type_def is_null_def array_len_def enc_val_def)
qed (use assms in \<open>auto simp: is_supported_pk_type_def is_supported_type_def is_null_def array_len_def enc_val_def\<close>)

lemma is_null_key_value:
  "is_supported_pk_type (array_type a) \<Longrightarrow> row < array_len a \<Longrightarrow> is_null a row \<Longrightarrow> key_value a row = None"
  by (cases a) (auto simp: is_supported_pk_type_def is_supported_type_def is_null_def array_len_def)

lemma pk_part_enc:
  assumes "is_supported_pk_type (array_type (columns b ! c))" and "row < array_len (columns b ! c)"
  shows "pk_part dbg b row c = Inr (enc_part (array_type (columns b ! c)) (key_value (columns b ! c) row))"
proof (cases "is_null (columns b ! c) row")
  case True
  with assms is_null_key_value show ?thesis by (simp add: pk_part_def enc_part_def)
next
  case False
  with append_value_enc [OF assms False, of dbg] show ?thesis
    by (auto simp: pk_part_def enc_part_def Let_def)
qed

lemma pk_key_enc:
  assumes "keyed batches pk ty" and "fst p < length batches" and "snd p < num_rows (batches ! fst p)"
  shows "pk_key dbg (batches ! fst p) pk (snd p)
      = Inr (concat (map2 enc_part (map ty pk) (pk_values batches pk p)))"
proof -
  have b: "batches ! fst p \<in> set batches" using assms(2) by simp
  have "res_all (pk_part dbg (batches ! fst p) (snd p)) pk =
      Inr (map (\<lambda>c. enc_part (ty c) (key_value (columns (batches ! fst p) ! c) (snd p))) pk)"
  proof (rule res_all_map)
    fix c assume c: "c \<in> set pk"
    then have "array_type (columns (batches ! fst p) ! c) = ty c" "is_supported_pk_type (ty c)"
      "array_len (columns (batches ! fst p) ! c) = num_rows (batches ! fst p)"
      using assms(1) b by (auto simp: keyed_def)
    with assms(3) pk_part_enc [of "batches ! fst p" c "snd p" dbg]
    show "pk_part dbg (batches ! fst p) (snd p) c
        = Inr (enc_part (ty c) (key_value (columns (batches ! fst p) ! c) (snd p)))" by simp
  qed
  moreover have "map2 enc_part (map ty pk) (pk_values batches pk p)
      = map (\<lambda>c. enc_part (ty c) (key_value (columns (batches ! fst p) ! c) (snd p))) pk"
    by (intro nth_equalityI) (simp_all add: pk_values_def)
  ultimately show ?thesis by (simp add: pk_key_def)
qed

lemma pk_key_values:
  assumes k: "keyed batches pk ty"
    and p: "fst p < length batches" "snd p < num_rows (batches ! fst p)"
    and q: "fst q < length batches" "snd q < num_rows (batches ! fst q)"
  shows "concat (map2 enc_part (map ty pk) (pk_values batches pk p))
      = concat (map2 enc_part (map ty pk) (pk_values batches pk q))
     \<longleftrightarrow> pk_values batches pk p = pk_values batches pk q"
proof
  have ok: "kv_ok (map ty pk ! i) z" if "i < length pk" "pk_values batches pk r ! i = Some z"
    "fst r < length batches" "snd r < num_rows (batches ! fst r)" for i z r
  proof -
    have "batches ! fst r \<in> set batches" "pk ! i \<in> set pk" using that by simp_all
    then have "\<forall>row < num_rows (batches ! fst r). \<forall>z.
        key_value (columns (batches ! fst r) ! (pk ! i)) row = Some z \<longrightarrow> kv_ok (ty (pk ! i)) z"
      using k unfolding keyed_def by blast
    with that show ?thesis by (simp add: pk_values_def)
  qed
  assume "concat (map2 enc_part (map ty pk) (pk_values batches pk p))
      = concat (map2 enc_part (map ty pk) (pk_values batches pk q))"
  then show "pk_values batches pk p = pk_values batches pk q"
    by (rule enc_parts_inj [rotated 3]) (use ok p q in \<open>auto simp: pk_values_def\<close>)
qed simp

section \<open>The places kept\<close>

lemma keep_rows_sorted:
  assumes "sorted_wrt (<) w" and "bi < n"
  shows "sorted_wrt (<) (keep_rows n w ! bi)"
proof -
  have "sorted_wrt (\<lambda>a b. fst a = bi \<longrightarrow> fst b = bi \<longrightarrow> snd a < snd b) (filter (\<lambda>w. fst w = bi) w)"
    using assms(1) by (intro sorted_wrt_filter) (auto elim!: sorted_wrt_mono_rel [rotated] simp: less_prod_def')
  then have "sorted_wrt (\<lambda>a b. snd a < snd b) (filter (\<lambda>w. fst w = bi) w)"
    by (rule sorted_wrt_mono_rel [rotated]) auto
  then show ?thesis using assms(2) by (simp add: keep_rows_def sorted_wrt_map)
qed

lemma keep_rows_member: "bi < n \<Longrightarrow> row \<in> set (keep_rows n w ! bi) \<longleftrightarrow> (bi, row) \<in> set w"
  by (force simp: keep_rows_def image_iff)

text \<open>The latest of the places in ascending order, under keys \<open>k\<close>.\<close>

lemma latest_places:
  fixes k :: "nat \<times> nat \<Rightarrow> string"
  assumes "sorted_wrt (<) ps"
  defines "w \<equiv> sort (map snd (fold_latest (map (\<lambda>p. (k p, p)) ps) []))"
  shows "sorted_wrt (<) w" and "p \<in> set w \<longleftrightarrow> p \<in> set ps \<and> (\<forall>q \<in> set ps. p < q \<longrightarrow> k q \<noteq> k p)"
proof -
  let ?kps = "map (\<lambda>p. (k p, p)) ps"
  define m where "m = fold_latest ?kps []"
  have srt: "sorted_wrt (<) (map snd ?kps)" using assms(1) by (simp add: comp_def)
  have mem: "(k', p) \<in> set m \<longleftrightarrow> p \<in> set ps \<and> k' = k p \<and> (\<forall>q \<in> set ps. p < q \<longrightarrow> k q \<noteq> k p)" for k' p
  proof -
    have "(k', p) \<in> set m \<longleftrightarrow> (\<exists>xs ys. ?kps = xs @ (k', p) # ys \<and> k' \<notin> fst ` set ys)"
      using fold_latest_spec [of ?kps] unfolding m_def by blast
    also have "\<dots> \<longleftrightarrow> (k', p) \<in> set ?kps \<and> (\<forall>k2 p2. (k2, p2) \<in> set ?kps \<and> p < p2 \<longrightarrow> k2 \<noteq> k')"
      by (rule last_occurrence [OF srt])
    also have "set ?kps = (\<lambda>p. (k p, p)) ` set ps" by (rule set_map)
    finally show ?thesis unfolding latest_image .
  qed
  have key: "distinct (map fst m)" unfolding m_def using fold_latest_spec by blast
  have kp: "fst x = k (snd x)" if "x \<in> set m" for x
    using mem [of "fst x" "snd x"] that by simp
  have "inj_on snd (set m)"
    by (rule inj_onI) (metis kp prod.collapse)
  then have "distinct w"
    using key by (simp add: distinct_map w_def m_def)
  then show "sorted_wrt (<) w" by (simp add: strict_sorted_iff w_def)
  have "set w = snd ` set m" by (simp add: w_def m_def)
  moreover have "p \<in> snd ` set m \<longleftrightarrow> (\<exists>k'. (k', p) \<in> set m)" by force
  ultimately have "p \<in> set w \<longleftrightarrow> (\<exists>k'. (k', p) \<in> set m)" by simp
  then show "p \<in> set w \<longleftrightarrow> p \<in> set ps \<and> (\<forall>q \<in> set ps. p < q \<longrightarrow> k q \<noteq> k p)" using mem by blast
qed

section \<open>Properties\<close>

text \<open>
  C19. The dedup pass keeps, for every primary key value, exactly its last row: a row is kept if and only
  if no later row of the file has equal key values, NULL apart from the empty string and column borders
  respected; the kept rows of a batch come in ascending order, each once.
\<close>
theorem dedup_keeps_last:
  assumes "keyed batches pk ty"
  shows "\<exists>keep. dedup_last_wins dbg batches pk = Inr keep \<and> length keep = length batches \<and>
     (\<forall>bi < length batches. sorted_wrt (<) (keep ! bi) \<and>
        (\<forall>row. row \<in> set (keep ! bi) \<longleftrightarrow> row < num_rows (batches ! bi) \<and>
           (\<forall>bj rj. bj < length batches \<and> rj < num_rows (batches ! bj) \<and> (bi, row) < (bj, rj)
              \<longrightarrow> pk_values batches pk (bj, rj) \<noteq> pk_values batches pk (bi, row))))"
proof -
  define k where "k p = concat (map2 enc_part (map ty pk) (pk_values batches pk p))" for p
  define ps where "ps = places_from 0 batches"
  define w where "w = sort (map snd (fold_latest (map (\<lambda>p. (k p, p)) ps) []))"
  have pl: "fst p < length batches \<and> snd p < num_rows (batches ! fst p)" if "p \<in> set ps" for p
    using that places_from_set [of "fst p" "snd p" 0 batches] by (simp add: ps_def)
  have "scan_batches dbg pk 0 batches [] = Inr (fold_latest (map (\<lambda>p. (k p, p)) ps) [])"
    unfolding ps_def
    using pl pk_key_enc [OF assms] by (intro scan_batches_fold) (simp add: k_def ps_def)
  then have dd: "dedup_last_wins dbg batches pk = Inr (keep_rows (length batches) w)"
    by (simp add: dedup_last_wins_def w_def)
  have "sorted_wrt (<) ps" unfolding ps_def by (rule sorted_places)
  note places = latest_places [OF this, where k = k, folded w_def]
  have rows: "row \<in> set (keep_rows (length batches) w ! bi) \<longleftrightarrow> row < num_rows (batches ! bi) \<and>
      (\<forall>bj rj. bj < length batches \<and> rj < num_rows (batches ! bj) \<and> (bi, row) < (bj, rj)
         \<longrightarrow> pk_values batches pk (bj, rj) \<noteq> pk_values batches pk (bi, row))" if bi: "bi < length batches" for bi row
  proof -
    have "row \<in> set (keep_rows (length batches) w ! bi) \<longleftrightarrow>
        (bi, row) \<in> set ps \<and> (\<forall>q \<in> set ps. (bi, row) < q \<longrightarrow> k q \<noteq> k (bi, row))"
      by (simp only: keep_rows_member [OF bi] places(2))
    also have "\<dots> \<longleftrightarrow> (bi, row) \<in> set ps \<and> (\<forall>q \<in> set ps. (bi, row) < q \<longrightarrow>
        pk_values batches pk q \<noteq> pk_values batches pk (bi, row))"
      using pk_key_values [OF assms] pl unfolding k_def by blast
    finally show ?thesis using bi by (auto simp: places_from_set ps_def)
  qed
  show ?thesis
    using dd keep_rows_sorted [OF places(1)] rows
    by (intro exI [of _ "keep_rows (length batches) w"]) (simp add: keep_rows_def)
qed

definition demo_keys :: record_batch where
  "demo_keys = \<lparr>batch_schema = [\<lparr>field_name = ''id'', field_type = Utf8, nullable = False\<rparr>],
     columns = [StringArray [Some ''a'', Some [], Some ''a'']], num_rows = 3\<rparr>"

theorem dedup_keeps_last_witness:
  "\<exists>keep. dedup_last_wins (\<lambda>_. []) [demo_keys] [0] = Inr keep \<and>
     0 \<notin> set (keep ! 0) \<and> 2 \<in> set (keep ! 0)"
proof -
  have less3: "i < 3 \<longleftrightarrow> i = 0 \<or> i = 1 \<or> i = (2 :: nat)" for i by auto
  have k: "keyed [demo_keys] [0] (\<lambda>_. Utf8)"
    by (auto simp: keyed_def demo_keys_def is_supported_pk_type_def is_supported_type_def array_len_def kv_ok_def
        less3)
  from dedup_keeps_last [OF k, of "\<lambda>_. []"] obtain keep where kp: "dedup_last_wins (\<lambda>_. []) [demo_keys] [0] = Inr keep"
    and r: "\<And>row. row \<in> set (keep ! 0) \<longleftrightarrow> row < num_rows demo_keys \<and>
      (\<forall>bj rj. bj < 1 \<and> rj < num_rows ([demo_keys] ! bj) \<and> (0, row) < (bj, rj)
         \<longrightarrow> pk_values [demo_keys] [0] (bj, rj) \<noteq> pk_values [demo_keys] [0] (0, row))"
    by auto
  have "0 \<notin> set (keep ! 0)"
    unfolding r by (auto simp: demo_keys_def pk_values_def intro!: exI [of _ 0] exI [of _ "2 :: nat"])
  moreover have "2 \<in> set (keep ! 0)"
    unfolding r by (auto simp: demo_keys_def)
  ultimately show ?thesis using kp by blast
qed


end
