(* ===== verification/Table_Schema.thy ===== *)
theory Table_Schema
  imports Dedup_Rows
begin

text \<open>
  \<open>src/schema.rs\<close>: the schema of the target table as it comes from the catalog, the mapping of
  PostgreSQL types to Arrow, and the checks \<open>open_table\<close> makes. The two catalog queries are the
  parameter \<open>catalog_api\<close>.
\<close>

record table_schema =
  arrow :: arrow_schema
  pk :: "string list"
  ts_db_oid :: u32
  ts_rel_oid :: u32

fun index_of :: "string \<Rightarrow> arrow_schema \<Rightarrow> nat option" where
  "index_of n [] = None"
| "index_of n (f # fs) = (if field_name f = n then Some 0 else map_option Suc (index_of n fs))"

definition pk_indices :: "table_schema \<Rightarrow> nat list result" where
  "pk_indices s =
     res_all (\<lambda>name. ok_or (Schema (''primary key column `'' @ name @ ''` not in schema''))
       (index_of name (arrow s))) (pk s)"

fun check_fields :: "(data_type \<Rightarrow> string) \<Rightarrow> field list \<Rightarrow> unit result" where
  "check_fields dbg [] = Inr ()"
| "check_fields dbg (f # fs) =
     (if \<not> is_supported_type (field_type f)
      then Inl (UnsupportedType (field_name f) (dbg (field_type f)))
      else check_fields dbg fs)"

definition schema_validate :: "(data_type \<Rightarrow> string) \<Rightarrow> table_schema \<Rightarrow> unit result" where
  "schema_validate dbg s =
     res_bind (check_fields dbg (arrow s)) (\<lambda>_.
       if pk s = [] then Inr () else res_bind (pk_indices s) (\<lambda>_. Inr ()))"

definition msg_float_key :: "string \<Rightarrow> string" where
  "msg_float_key t =
     t @ '' (primary key column of an upsert stream: floating-point keys cannot be deduplicated, ''
     @ ''because equality on NaN and '' @ [CHR 0xC2, CHR 0xB1]
     @ ''0.0 differs between the client and the server)''"

fun check_pk :: "(data_type \<Rightarrow> string) \<Rightarrow> arrow_schema \<Rightarrow> nat list \<Rightarrow> unit result" where
  "check_pk dbg fs [] = Inr ()"
| "check_pk dbg fs (i # is) =
     (if \<not> is_supported_pk_type (field_type (fs ! i))
      then Inl (UnsupportedType (field_name (fs ! i)) (msg_float_key (dbg (field_type (fs ! i)))))
      else check_pk dbg fs is)"

definition validate_pk_for_dedup :: "(data_type \<Rightarrow> string) \<Rightarrow> table_schema \<Rightarrow> unit result" where
  "validate_pk_for_dedup dbg s = res_bind (pk_indices s) (check_pk dbg (arrow s))"

section \<open>PostgreSQL types\<close>

definition DECIMAL128_MAX_PRECISION :: nat where "DECIMAL128_MAX_PRECISION = 38"

definition reject :: "string \<Rightarrow> string \<Rightarrow> string \<Rightarrow> 'a result" where
  "reject column pg reason = Inl (UnsupportedType column (pg @ '' ('' @ reason @ '')''))"

definition numeric_type :: "string \<Rightarrow> string \<Rightarrow> string \<Rightarrow> data_type result" where
  "numeric_type column pg params =
     (let parts = split_on CHR '','' params;
          p = parse_u8 (trim (hd parts));
          s = (case tl parts of v # _ \<Rightarrow> parse_i8 (trim v) | [] \<Rightarrow> Some 0)
      in case (p, s) of
           (Some p, Some s) \<Rightarrow>
             if 1 \<le> p \<and> p \<le> DECIMAL128_MAX_PRECISION then Inr (Decimal128 p s)
             else reject column pg (''precision '' @ show_nat p @ '' exceeds the Decimal128 maximum of ''
                    @ show_nat DECIMAL128_MAX_PRECISION)
         | _ \<Rightarrow> reject column pg ''unparseable numeric parameters'')"

definition plain_type :: "string \<Rightarrow> string \<Rightarrow> data_type result" where
  "plain_type column pg =
     (if pg = ''boolean'' then Inr Boolean
      else if pg = ''smallint'' then Inr Int16
      else if pg = ''integer'' then Inr Int32
      else if pg = ''bigint'' then Inr Int64
      else if pg = ''real'' then Inr Float32
      else if pg = ''double precision'' then Inr Float64
      else if pg = ''text'' \<or> pg = ''character varying'' then Inr Utf8
      else if pg = ''date'' then Inr Date32
      else if pg = ''bytea'' then Inr Binary
      else if pg = ''timestamp without time zone'' then Inr (Timestamp Microsecond None)
      else if pg = ''timestamp with time zone'' then Inr (Timestamp Microsecond (Some ''UTC''))
      else if starts_with ''character varying('' pg then Inr Utf8
      else if starts_with ''character('' pg then Inr Utf8
      else reject column pg ''outside the supported type whitelist'')"

text \<open>\<open>timestamp(N) \<dots>\<close>: \<open>None\<close> falls through to the table.\<close>

definition timestamp_type :: "string \<Rightarrow> data_type option" where
  "timestamp_type pg =
     (case strip_prefix ''timestamp('' pg of
        None \<Rightarrow> None
      | Some rest \<Rightarrow>
          (case split_once CHR '')'' rest of
             None \<Rightarrow> None
           | Some (_, tail) \<Rightarrow>
               if trim tail = ''without time zone'' then Some (Timestamp Microsecond None)
               else if trim tail = ''with time zone'' then Some (Timestamp Microsecond (Some ''UTC''))
               else None))"

definition pg_type_to_arrow :: "string \<Rightarrow> string \<Rightarrow> data_type result" where
  "pg_type_to_arrow column pg =
     (case Option.bind (strip_prefix ''numeric('' pg) (strip_suffix '')'') of
        Some params \<Rightarrow> numeric_type column pg params
      | None \<Rightarrow>
          if pg = ''numeric'' then
            reject column pg
              ''numeric without precision has no fixed-width arrow mapping; declare numeric(p,s) with p <= 38''
          else case timestamp_type pg of
                 Some t \<Rightarrow> Inr t
               | None \<Rightarrow> plain_type column pg)"

definition split_qualified :: "string \<Rightarrow> (string \<times> string) result" where
  "split_qualified table =
     (case split_once CHR ''.'' table of
        Some (s, t) \<Rightarrow>
          if s \<noteq> [] \<and> t \<noteq> [] then Inr (s, t) else Inl (Config (''bad table name `'' @ table @ ''`''))
      | None \<Rightarrow> Inr (''public'', table))"

section \<open>The catalog\<close>

record column_row =
  cr_name :: string
  cr_type :: string
  cr_not_null :: bool
  cr_rel_oid :: u32
  cr_db_oid :: u32

record catalog_api =
  query_columns :: "string \<Rightarrow> string \<Rightarrow> pg_error + column_row list"
  query_pk :: "string \<Rightarrow> string \<Rightarrow> pg_error + string list"

definition lift_pg :: "pg_error + 'a \<Rightarrow> 'a result" where
  "lift_pg r = (case r of Inl e \<Rightarrow> Inl (Database e) | Inr x \<Rightarrow> Inr x)"

definition column_field :: "column_row \<Rightarrow> field result" where
  "column_field row =
     res_bind (pg_type_to_arrow (cr_name row) (cr_type row)) (\<lambda>dt.
       Inr \<lparr>field_name = cr_name row, field_type = dt, nullable = \<not> cr_not_null row\<rparr>)"

definition fetch_table_schema ::
  "(data_type \<Rightarrow> string) \<Rightarrow> catalog_api \<Rightarrow> string \<Rightarrow> table_schema result" where
  "fetch_table_schema dbg api table =
     res_bind (split_qualified table) (\<lambda>(schema_name, table_name).
     res_bind (lift_pg (query_columns api schema_name table_name)) (\<lambda>cols.
       if cols = [] then Inl (Schema (''table '' @ table @ '' not found''))
       else
         let rel = cr_rel_oid (hd cols); db = cr_db_oid (hd cols) in
         if rel = 0 \<or> db = 0 then
           Inl (Schema (''could not resolve OIDs for '' @ table @ '' (rel='' @ show_nat (unat rel)
             @ '', db='' @ show_nat (unat db) @ '')''))
         else
           res_bind (lift_pg (query_pk api schema_name table_name)) (\<lambda>pks.
           res_bind (res_all column_field cols) (\<lambda>fields.
             let s = \<lparr>arrow = fields, pk = pks, ts_db_oid = db, ts_rel_oid = rel\<rparr> in
             res_bind (schema_validate dbg s) (\<lambda>_. Inr s)))))"

section \<open>Lemmas\<close>

lemma index_of_Some: "index_of n fs = Some i \<Longrightarrow> i < length fs \<and> field_name (fs ! i) = n"
  by (induction fs arbitrary: i) (auto split: if_splits)

lemma pk_indices_Inr:
  assumes "pk_indices s = Inr is"
  shows "length is = length (pk s) \<and> (\<forall>i < length is. is ! i < length (arrow s) \<and>
     field_name (arrow s ! (is ! i)) = pk s ! i)"
  using assms unfolding pk_indices_def res_all_Inr by (auto simp: res_simps dest!: index_of_Some)

lemma check_fields_Inr: "check_fields dbg fs = Inr () \<longleftrightarrow> (\<forall>f \<in> set fs. is_supported_type (field_type f))"
  by (induction fs) auto

lemma check_pk_Inr: "check_pk dbg fs is = Inr () \<longleftrightarrow> (\<forall>i \<in> set is. is_supported_pk_type (field_type (fs ! i)))"
  by (induction "is") auto

lemma schema_validate_Inr:
  "schema_validate dbg s = Inr () \<longleftrightarrow>
     (\<forall>f \<in> set (arrow s). is_supported_type (field_type f)) \<and> is_ok (pk_indices s)"
  by (auto simp: schema_validate_def res_simps check_fields_Inr is_ok_iff pk_indices_def)

lemma numeric_type_Inr:
  "numeric_type c pg ps = Inr dt \<Longrightarrow> \<exists>p s. dt = Decimal128 p s \<and> 1 \<le> p \<and> p \<le> 38 \<and> - 128 \<le> s \<and> s \<le> 127"
  by (auto simp: numeric_type_def Let_def reject_def DECIMAL128_MAX_PRECISION_def parse_i8_def
      parse_int_within_def split: option.splits if_splits list.splits)

lemma pg_type_supported:
  assumes "pg_type_to_arrow c pg = Inr dt"
  shows "is_supported_type dt \<and> (\<forall>p s. dt = Decimal128 p s \<longrightarrow> 1 \<le> p \<and> p \<le> 38 \<and> - 128 \<le> s \<and> s \<le> 127)"
proof (cases "Option.bind (strip_prefix ''numeric('' pg) (strip_suffix '')'')")
  case (Some ps)
  with assms numeric_type_Inr [of c pg ps dt] show ?thesis
    by (auto simp: pg_type_to_arrow_def is_supported_type_def)
next
  case None
  with assms show ?thesis
    by (auto simp: pg_type_to_arrow_def reject_def timestamp_type_def plain_type_def is_supported_type_def
        split: option.splits if_splits)
qed

section \<open>Properties\<close>

text \<open>
  A schema that \<open>fetch_table_schema\<close> lets through can be written: every column has a supported type,
  decimals fit 38 digits and an 8-bit scale, every primary key name has its column, the OIDs are not zero;
  with the upsert check passed as well, every key column can be encoded by the dedup pass.
\<close>
lemma fetched_schema_usable:
  assumes "fetch_table_schema dbg api table = Inr s"
  shows "arrow s \<noteq> [] \<and> ts_rel_oid s \<noteq> 0 \<and> ts_db_oid s \<noteq> 0 \<and>
     (\<forall>f \<in> set (arrow s). is_supported_type (field_type f) \<and>
        (\<forall>p sc. field_type f = Decimal128 p sc \<longrightarrow> 1 \<le> p \<and> p \<le> 38 \<and> - 128 \<le> sc \<and> sc \<le> 127)) \<and>
     (\<exists>is. pk_indices s = Inr is \<and> length is = length (pk s) \<and>
        (\<forall>i < length is. is ! i < length (arrow s) \<and> field_name (arrow s ! (is ! i)) = pk s ! i) \<and>
        (validate_pk_for_dedup dbg s = Inr () \<longrightarrow>
           (\<forall>i \<in> set is. is_supported_pk_type (field_type (arrow s ! i)))))"
proof -
  from assms obtain sn tn cols pks fields where
    c: "cols \<noteq> []" "cr_rel_oid (hd cols) \<noteq> 0" "cr_db_oid (hd cols) \<noteq> 0"
    and f: "res_all column_field cols = Inr fields"
    and s: "s = \<lparr>arrow = fields, pk = pks, ts_db_oid = cr_db_oid (hd cols), ts_rel_oid = cr_rel_oid (hd cols)\<rparr>"
    and v: "schema_validate dbg s = Inr ()"
    by (auto simp: fetch_table_schema_def Let_def res_simps split: if_splits prod.splits)
  have fs: "length fields = length cols" "\<forall>i < length cols. column_field (cols ! i) = Inr (fields ! i)"
    using f unfolding res_all_Inr by blast+
  have dec: "\<forall>p sc. field_type fd = Decimal128 p sc \<longrightarrow> 1 \<le> p \<and> p \<le> 38 \<and> - 128 \<le> sc \<and> sc \<le> 127"
    if "fd \<in> set fields" for fd
  proof -
    from that obtain i where "i < length cols" "fd = fields ! i" by (metis fs(1) in_set_conv_nth)
    with fs(2) have "column_field (cols ! i) = Inr fd" by simp
    then obtain dt where "pg_type_to_arrow (cr_name (cols ! i)) (cr_type (cols ! i)) = Inr dt"
      "field_type fd = dt" by (auto simp: column_field_def res_simps)
    with pg_type_supported show ?thesis by blast
  qed
  from v obtain "is" where "is": "pk_indices s = Inr is"
    by (auto simp: schema_validate_Inr is_ok_iff)
  have "\<forall>i \<in> set is. is_supported_pk_type (field_type (arrow s ! i))" if "validate_pk_for_dedup dbg s = Inr ()"
    using that "is" by (simp add: validate_pk_for_dedup_def check_pk_Inr)
  with pk_indices_Inr [OF "is"] "is" v dec c fs(1) show ?thesis
    by (auto simp: s schema_validate_Inr)
qed

end
