(* ===== verification/Alarm.thy ===== *)
theory Alarm
  imports Csv_Format Ingest_Error
begin

text \<open>
  \<open>src/alarm.rs\<close>: the alarm line of a stopped stream. The log sink is foreign; what the code decides
  is the line, a function of the wall clock and the cause.
\<close>

datatype alarm_level = Fatal

definition level_as_str :: "alarm_level \<Rightarrow> string" where
  "level_as_str l = (case l of Fatal \<Rightarrow> ''Fatal'')"

definition ALARM_MODULE :: string where "ALARM_MODULE = ''INGEST-SDK''"

definition log_time :: "u64 \<Rightarrow> string" where
  "log_time now =
     (let secs = int (unat now div 1000);
          in_day = nat (secs mod 86400);
          (y, m, d) = civil (secs div 86400);
          (h, mi, s) = (in_day div 3600, in_day mod 3600 div 60, in_day mod 60)
      in show_int_pad 4 y @ ''-'' @ show_nat_pad 2 m @ ''-'' @ show_nat_pad 2 d @ '' ''
         @ show_nat_pad 2 h @ '':'' @ show_nat_pad 2 mi @ '':'' @ show_nat_pad 2 s)"

definition emit :: "alarm_level \<Rightarrow> u64 \<Rightarrow> string \<Rightarrow> string" where
  "emit level now msg =
     ''RELYT_OBSERVE_ALARM:[ALARM_LEVEL='' @ level_as_str level @ '',ALARM_LOG_TIME='' @ log_time now
     @ '',ALARM_LOG_MODULE='' @ ALARM_MODULE @ ''],ALARM_MSG='' @ msg"

definition remedy :: "error \<Rightarrow> string" where
  "remedy cause =
     (case cause of
        StagingOrderViolation _ \<Rightarrow>
          ''stop consuming this stream, do NOT commit its Kafka offsets, then rewind the consumer to the ''
          @ ''offset range named above and restart; a restart on its own resumes after the gap and those ''
          @ ''rows would never load''
      | WriterFenced _ \<Rightarrow>
          ''another process took over this writer_id; stop this one and check for a duplicate deployment. ''
          @ ''Do not rewind offsets: the writer that holds the lease continues the stream''
      | SerialContractViolation _ \<Rightarrow>
          ''two writers share a writer_id, or the epoch went backwards; stop this stream and resolve the ''
          @ ''identity clash before restarting''
      | RotationFailed _ _ \<Rightarrow>
          ''repair what the cause names (usually the data or the table definition), then restart; do not ''
          @ ''commit the Kafka offsets of the rows that were in flight, and no rewind is needed''
      | _ \<Rightarrow> ''see the cause; do not commit the Kafka offsets of the rows that were in flight'')"

definition stream_stopped :: "u64 \<Rightarrow> string \<Rightarrow> string \<Rightarrow> string \<Rightarrow> error \<Rightarrow> string" where
  "stream_stopped now table writer grp cause =
     emit Fatal now
       (''ingest stream stopped and will not resume on its own. table='' @ table @ '' writer_id='' @ writer
        @ '' serial_group='' @ grp @ '' cause='' @ display cause @ '' action='' @ remedy cause)"

end
