(* ===== verification/Writer_State.thy ===== *)
theory Writer_State
  imports Recovery Managed_Staging Csv_Values Table_Schema Alarm
begin

text \<open>
  The data of a table writer (\<open>src/table.rs\<close>) and the operations on it that run without awaiting
  anything: sealing and un-buffering, the pipeline's progress entry, the order tripwire, rendering,
  the lag numbers. The steps that interleave them are in \<open>Writer_Machine\<close>.

  The three millisecond timings a file carries through the stages only feed the log line of a landed
  file and are left out, like all log lines.
\<close>

section \<open>Double precision\<close>

text \<open>
  The size estimate of \<open>append\<close> is the one place that computes in \<open>f64\<close>. Its operands are positive and
  at most 2^64, so only the rounding matters: a value is \<open>m * 2 ^ e\<close>, and each operation rounds the exact
  result to 53 bits, ties to even.
\<close>

type_synonym f64 = "nat \<times> int"

fun bit_len :: "nat \<Rightarrow> nat" where
  "bit_len n = (if n = 0 then 0 else Suc (bit_len (n div 2)))"

declare bit_len.simps [simp del]

definition half_even :: "nat \<Rightarrow> nat \<Rightarrow> nat" where
  "half_even p q =
     (let m = p div q; r = p mod q
      in if 2 * r < q \<or> (2 * r = q \<and> even m) then m else m + 1)"

definition scale2 :: "int \<Rightarrow> nat \<Rightarrow> nat" where
  "scale2 e n = n * 2 ^ nat e"

definition f64_ratio :: "nat \<Rightarrow> nat \<Rightarrow> f64" where
  "f64_ratio p q =
     (if p = 0 then (0, 0)
      else let k = int (bit_len p) - int (bit_len q);
               e = (if scale2 (- k) p < scale2 k q then k - 53 else k - 52)
           in (half_even (scale2 (- e) p) (scale2 e q), e))"

definition f64_of_nat :: "nat \<Rightarrow> f64" where
  "f64_of_nat n = f64_ratio n 1"

definition f64_div :: "f64 \<Rightarrow> f64 \<Rightarrow> f64" where
  "f64_div x y =
     (let d = snd x - snd y in f64_ratio (scale2 d (fst x)) (scale2 (- d) (fst y)))"

definition f64_mul :: "f64 \<Rightarrow> f64 \<Rightarrow> f64" where
  "f64_mul x y =
     (let e = snd x + snd y in f64_ratio (scale2 e (fst x * fst y)) (scale2 (- e) 1))"

definition f64_to_u64 :: "f64 \<Rightarrow> u64" where
  "f64_to_u64 x =
     (let v = scale2 (snd x) (fst x) div scale2 (- snd x) 1
      in if v < 2 ^ 64 then of_nat v else - 1)"

section \<open>What the writer is given\<close>

text \<open>
  The libraries behind a writer: the memory size Arrow bills a batch with, its \<open>Debug\<close> of a type, the
  text of a float, gzip, the builder of a store, the master, JSON.
\<close>

record 's libs =
  mem_size :: "record_batch \<Rightarrow> nat"
  debug_type :: "data_type \<Rightarrow> string"
  float_text :: float_format
  gzip_bytes :: "string \<Rightarrow> string + string"
  mk_store :: "'s mk_store"
  control :: "'s control_api"
  json :: json_api

text \<open>The fields of \<open>WriterInner\<close> that never change.\<close>

record writer_ctx =
  wx_schema :: table_schema
  wx_ident :: writer_identity
  wx_names :: "string \<times> string \<times> string"
  wx_cfg :: client_config
  wx_uuid :: string

abbreviation group_of :: "writer_ctx \<Rightarrow> string" where
  "group_of cx \<equiv> serial_group (wx_ident cx)"

text \<open>A reading of the clocks, as a step of the program finds them.\<close>

record reading =
  mono :: instant
  machine :: machine_env

section \<open>Files on their way\<close>

record file_meta =
  fm_file :: staged_file
  fm_serial_seq :: i64
  fm_identifier :: string
  fm_object_key :: string
  fm_rows_in :: nat
  fm_sealed_at :: instant

record sealed =
  sl_meta :: file_meta
  sl_batches :: "record_batch list"

record rendered =
  rn_meta :: file_meta
  rn_body :: string
  rn_rows :: nat

record compressed_file =
  cp_meta :: file_meta
  cp_payload :: string
  cp_rows :: nat
  cp_bytes :: nat
  cp_stored_bytes :: nat

section \<open>Progress of the pipeline\<close>

datatype fail_kind = Stage | PipelineGone | Fenced | OrderViolation | Rotation

definition is_terminal :: "fail_kind \<Rightarrow> bool" where
  "is_terminal k =
     (case k of Stage \<Rightarrow> False | PipelineGone \<Rightarrow> True | Fenced \<Rightarrow> True | OrderViolation \<Rightarrow> True
      | Rotation \<Rightarrow> True)"

record failing =
  fl_seq :: i64
  fl_stage :: string
  fl_attempts :: u32
  fl_permanent :: bool
  fl_cause :: "error option"
  fl_kind :: fail_kind
  fl_last :: string

record progress =
  durable_seq :: "i64 option"
  pr_failing :: "failing option"

definition progress_default :: progress where
  "progress_default = \<lparr>durable_seq = None, pr_failing = None\<rparr>"

definition fatal_priority :: "error \<Rightarrow> nat" where
  "fatal_priority e =
     (case e of StagingOrderViolation _ \<Rightarrow> 0 | WriterFenced _ \<Rightarrow> 1 | SerialContractViolation _ \<Rightarrow> 2
      | RotationFailed _ _ \<Rightarrow> 3 | _ \<Rightarrow> 255)"

definition publish_terminal ::
  "fail_kind \<Rightarrow> string \<Rightarrow> error option \<Rightarrow> string \<Rightarrow> progress \<Rightarrow> progress" where
  "publish_terminal kind stage cause last_text p =
     (let entry = \<lparr>fl_seq = i64_min, fl_stage = stage, fl_attempts = 0, fl_permanent = True,
                   fl_cause = cause, fl_kind = kind, fl_last = last_text\<rparr>
      in case pr_failing p of
           Some f \<Rightarrow> if is_terminal (fl_kind f) then p else p\<lparr>pr_failing := Some entry\<rparr>
         | None \<Rightarrow> p\<lparr>pr_failing := Some entry\<rparr>)"

definition terminal_error :: "failing \<Rightarrow> error" where
  "terminal_error f =
     (case fl_kind f of
        Stage \<Rightarrow>
          (case fl_cause f of
             Some cause \<Rightarrow> RotationFailed (fl_stage f) cause
           | None \<Rightarrow> StagingStalled (fl_attempts f) (fl_last f))
      | PipelineGone \<Rightarrow> WriterClosed
      | Fenced \<Rightarrow> WriterFenced (fl_last f)
      | OrderViolation \<Rightarrow> StagingOrderViolation (fl_last f)
      | Rotation \<Rightarrow>
          RotationFailed (fl_stage f)
            (case fl_cause f of Some c \<Rightarrow> c | None \<Rightarrow> Config (fl_last f)))"

text \<open>\<open>pipeline_gone\<close> answers with the error of the entry it keeps.\<close>

definition pipeline_gone :: "progress \<Rightarrow> error \<times> progress" where
  "pipeline_gone p =
     (let gone = p\<lparr>pr_failing := Some \<lparr>fl_seq = i64_min, fl_stage = ''pipeline'', fl_attempts = 0,
            fl_permanent = True, fl_cause = None, fl_kind = PipelineGone,
            fl_last = ''rotation pipeline is gone''\<rparr>\<rparr>
      in case pr_failing p of
           Some f \<Rightarrow> if is_terminal (fl_kind f) then (terminal_error f, p) else (WriterClosed, gone)
         | None \<Rightarrow> (WriterClosed, gone))"

definition stall_error :: "client_config \<Rightarrow> progress \<Rightarrow> i64 \<Rightarrow> error option" where
  "stall_error cfg p target =
     (case pr_failing p of
        None \<Rightarrow> None
      | Some f \<Rightarrow>
          if fl_seq f > target
             \<or> \<not> (fl_permanent f \<or> fl_attempts f \<ge> staging_error_after_attempts cfg)
          then None else Some (terminal_error f))"

definition clone_error :: "error \<Rightarrow> error" where
  "clone_error e =
     (case e of
        Schema m \<Rightarrow> Schema m
      | UnsupportedType c t \<Rightarrow> UnsupportedType c t
      | Naming m \<Rightarrow> Naming m
      | Config m \<Rightarrow> Config m
      | other \<Rightarrow> Config (display other))"

definition is_permanent :: "error \<Rightarrow> bool" where
  "is_permanent e = (case e of Schema _ \<Rightarrow> True | UnsupportedType _ _ \<Rightarrow> True | _ \<Rightarrow> False)"

definition backoff :: "u32 \<Rightarrow> duration" where
  "backoff attempt = from_secs (min (2 ^ min (unat attempt - 1) 5) 30)"

definition land :: "i64 \<Rightarrow> progress \<Rightarrow> progress" where
  "land sq p =
     p\<lparr>durable_seq := Some sq,
       pr_failing := (case pr_failing p of
                        Some f \<Rightarrow> if \<not> is_terminal (fl_kind f) \<and> fl_seq f \<le> sq then None else Some f
                      | None \<Rightarrow> None)\<rparr>"

definition report_failure ::
  "file_meta \<Rightarrow> string \<Rightarrow> u32 \<Rightarrow> bool \<Rightarrow> error \<Rightarrow> progress \<Rightarrow> progress" where
  "report_failure meta stage attempt permanent e p =
     (let entry = \<lparr>fl_seq = fm_serial_seq meta, fl_stage = stage, fl_attempts = attempt,
                   fl_permanent = permanent, fl_cause = (if permanent then Some (clone_error e) else None),
                   fl_kind = Stage, fl_last = stage @ '': '' @ display e\<rparr>
      in case pr_failing p of
           Some f \<Rightarrow>
             if is_terminal (fl_kind f) \<or> fl_seq f < fm_serial_seq meta then p
             else p\<lparr>pr_failing := Some entry\<rparr>
         | None \<Rightarrow> p\<lparr>pr_failing := Some entry\<rparr>)"

definition clear_failure :: "i64 \<Rightarrow> progress \<Rightarrow> progress" where
  "clear_failure sq p =
     (case pr_failing p of
        Some f \<Rightarrow> if fl_seq f = sq then p\<lparr>pr_failing := None\<rparr> else p
      | None \<Rightarrow> p)"


section \<open>WriterState\<close>

record writer_state =
  buffered :: "(record_batch \<times> i64 \<times> i64) list"
  buffered_bytes_estimate :: u64
  oldest_buffered_at :: "instant option"
  ws_epoch_ms :: u64
  next_seq :: u32
  known_files :: "(i64 \<times> u64) list"
  in_flight :: "(i64 \<times> instant) list"
  buffered_rows :: nat
  avg_row_bytes :: "f64 option"
  staged_offset :: "i64 option"
  last_sealed_seq :: "i64 option"
  max_end_offset :: "i64 option"
  resume_persisted :: "i64 option"
  state_written_at :: instant

text \<open>The state \<open>TableWriter::new\<close> starts with.\<close>

definition writer_state_new ::
  "u64 \<Rightarrow> i64 option \<Rightarrow> i64 option \<Rightarrow> (i64 \<times> u64) list \<Rightarrow> instant \<Rightarrow> writer_state" where
  "writer_state_new initial_epoch staged resume known now =
     \<lparr>buffered = [], buffered_bytes_estimate = 0, oldest_buffered_at = None,
      ws_epoch_ms = initial_epoch, next_seq = 0, known_files = known, in_flight = [],
      buffered_rows = 0, avg_row_bytes = None, staged_offset = staged, last_sealed_seq = None,
      max_end_offset = None, resume_persisted = resume, state_written_at = now\<rparr>"

definition aged :: "client_config \<Rightarrow> instant \<Rightarrow> writer_state \<Rightarrow> bool" where
  "aged cfg now st \<longleftrightarrow>
     (case oldest_buffered_at st of
        Some t \<Rightarrow> elapsed now t \<ge> rotate_interval_max cfg | None \<Rightarrow> False)"

definition sealable :: "client_config \<Rightarrow> instant \<Rightarrow> bool \<Rightarrow> writer_state \<Rightarrow> bool" where
  "sealable cfg now aged_only st \<longleftrightarrow> buffered st \<noteq> [] \<and> (\<not> aged_only \<or> aged cfg now st)"

definition list_min :: "i64 list \<Rightarrow> i64" where
  "list_min xs = fold min (tl xs) (hd xs)"

definition list_max :: "i64 list \<Rightarrow> i64" where
  "list_max xs = fold max (tl xs) (hd xs)"

text \<open>
  \<open>seal\<close>: a roll to a fresh epoch stays even where the encoding then fails, everything else is
  untouched then.
\<close>

definition roll_epoch :: "writer_state \<Rightarrow> writer_state" where
  "roll_epoch st =
     (if next_seq st > MAX_SEQ then st\<lparr>ws_epoch_ms := ws_epoch_ms st + 1, next_seq := 0\<rparr> else st)"

definition cut_file :: "client_config \<Rightarrow> writer_state \<Rightarrow> staged_file" where
  "cut_file cfg st =
     \<lparr>epoch_ms = ws_epoch_ms st, seq = next_seq st,
      start_offset = list_min (map (\<lambda>(_, s, _). s) (buffered st)),
      end_offset = list_max (map (\<lambda>(_, _, e). e) (buffered st)),
      compressed = (cfg_compression cfg = Gzip)\<rparr>"

definition seal ::
  "writer_ctx \<Rightarrow> reading \<Rightarrow> bool \<Rightarrow> writer_state \<Rightarrow> sealed option result \<times> writer_state" where
  "seal cx c aged_only st0 =
     (if \<not> sealable (wx_cfg cx) (mono c) aged_only st0 then (Inr None, st0)
      else
        let st = roll_epoch st0;
            file = cut_file (wx_cfg cx) st
        in case serial_seq file of
             Inl e \<Rightarrow> (Inl e, st)
           | Inr serial \<Rightarrow>
          (case job_identifier file (wx_ident cx) of
             Inl e \<Rightarrow> (Inl e, st)
           | Inr ident \<Rightarrow>
               (Inr (Some
                  \<lparr>sl_meta = \<lparr>fm_file = file, fm_serial_seq = serial, fm_identifier = ident,
                     fm_object_key = object_key file (wx_ident cx), fm_rows_in = buffered_rows st,
                     fm_sealed_at = mono c\<rparr>,
                   sl_batches = map fst (buffered st)\<rparr>),
                st\<lparr>next_seq := next_seq st + 1, buffered := [], buffered_bytes_estimate := 0,
                   buffered_rows := 0, oldest_buffered_at := None, last_sealed_seq := Some serial,
                   known_files := known_files st @ [(serial, now_ms (machine c))],
                   in_flight := in_flight st @ [(serial, mono c)]\<rparr>)))"

text \<open>The part of \<open>append\<close> under the state lock: the batch goes in, and whether to rotate now.\<close>

definition msg_offset_range :: "i64 \<Rightarrow> i64 \<Rightarrow> string" where
  "msg_offset_range s e =
     ''invalid Kafka offset range ['' @ show_int s @ '', '' @ show_int e
     @ '']: offsets must be >= 0 and end >= start''"

definition msg_backwards :: "i64 \<Rightarrow> i64 \<Rightarrow> i64 \<Rightarrow> string" where
  "msg_backwards s e max_end =
     ''Kafka offsets went backwards: batch ['' @ show_int s @ '', '' @ show_int e
     @ ''] starts at or before the last appended end offset '' @ show_int max_end
     @ ''; the batch was not buffered. If the consumer was rewound (rebalance, seek), reopen the ''
     @ ''table and resume from RecoveryPlan::kafka_resume_offset instead of re-appending to this writer.''"

definition schema_compatible :: "arrow_schema \<Rightarrow> arrow_schema \<Rightarrow> bool" where
  "schema_compatible a b \<longleftrightarrow>
     length a = length b \<and>
     list_all (\<lambda>(x, y). field_name x = field_name y \<and> field_type x = field_type y) (zip a b)"

definition est_bytes :: "writer_state \<Rightarrow> u64" where
  "est_bytes st =
     (case avg_row_bytes st of
        Some avg \<Rightarrow> f64_to_u64 (f64_mul (f64_of_nat (buffered_rows st)) avg)
      | None \<Rightarrow> buffered_bytes_estimate st)"

definition push_batch ::
  "'s libs \<Rightarrow> client_config \<Rightarrow> instant \<Rightarrow> record_batch \<Rightarrow> i64 \<Rightarrow> i64 \<Rightarrow> writer_state
     \<Rightarrow> (bool \<times> i64 option) result \<times> writer_state" where
  "push_batch lb cfg now batch s e st =
     (let prev = max_end_offset st;
          st' = st\<lparr>max_end_offset := Some e,
                   buffered_bytes_estimate := buffered_bytes_estimate st + of_nat (mem_size lb batch),
                   buffered_rows := buffered_rows st + num_rows batch,
                   buffered := buffered st @ [(batch, s, e)],
                   oldest_buffered_at := (case oldest_buffered_at st of Some t \<Rightarrow> Some t | None \<Rightarrow> Some now)\<rparr>;
          due = (est_bytes st' \<ge> rotate_size_bytes cfg \<or> aged cfg now st')
      in case prev of
           Some max_end \<Rightarrow>
             if s \<le> max_end then (Inl (Config (msg_backwards s e max_end)), st)
             else (Inr (due, prev), st')
         | None \<Rightarrow> (Inr (due, prev), st'))"

text \<open>\<open>unbuffer\<close>: the last entry with these offsets, if there still is one.\<close>

definition rposition :: "('a \<Rightarrow> bool) \<Rightarrow> 'a list \<Rightarrow> nat option" where
  "rposition P xs =
     (case filter (\<lambda>i. P (xs ! i)) [0..<length xs] of [] \<Rightarrow> None | is \<Rightarrow> Some (last is))"

definition unbuffer ::
  "'s libs \<Rightarrow> i64 \<Rightarrow> i64 \<Rightarrow> i64 option \<Rightarrow> writer_state \<Rightarrow> bool \<times> writer_state" where
  "unbuffer lb s e prev st =
     (case rposition (\<lambda>(_, a, b). a = s \<and> b = e) (buffered st) of
        None \<Rightarrow> (False, st)
      | Some i \<Rightarrow>
          let batch = fst (buffered st ! i);
              rest = take i (buffered st) @ drop (Suc i) (buffered st)
          in (True,
              st\<lparr>buffered := rest,
                 buffered_bytes_estimate :=
                   sat_sub_u64 (buffered_bytes_estimate st) (of_nat (mem_size lb batch)),
                 buffered_rows := buffered_rows st - num_rows batch,
                 oldest_buffered_at := (if rest = [] then None else oldest_buffered_at st),
                 max_end_offset := (if max_end_offset st = Some e then prev else max_end_offset st)\<rparr>))"

section \<open>The tripwire\<close>

definition msg_order :: "u64 \<Rightarrow> u32 \<Rightarrow> i64 \<Rightarrow> staged_file \<Rightarrow> string" where
  "msg_order epoch sq last_end nxt =
     (let why = (if epoch_ms nxt = epoch \<and> seq nxt > sq + 1 then
            ''seqs '' @ show_nat (unat (sq + 1)) @ ''..='' @ show_nat (unat (seq nxt - 1)) @ '' of epoch ''
            @ show_nat (unat epoch) @ '' never arrived''
          else
            ''expected seq '' @ show_nat (unat (sq + 1)) @ '' of epoch '' @ show_nat (unat epoch)
            @ '' (or seq 0 of a later epoch)'');
          gap = (if start_offset nxt > wrap_i64 (last_end + 1) then
            ''; Kafka offsets '' @ show_int (wrap_i64 (last_end + 1)) @ ''..=''
            @ show_int (wrap_i64 (start_offset nxt - 1)) @ '' are not in staging''
          else [])
      in ''file epoch '' @ show_nat (unat (epoch_ms nxt)) @ '' seq '' @ show_nat (unat (seq nxt))
         @ '' (Kafka offsets ['' @ show_int (start_offset nxt) @ '', '' @ show_int (end_offset nxt)
         @ '']) reached the upload stage after epoch '' @ show_nat (unat epoch) @ '' seq ''
         @ show_nat (unat sq) @ '' (offsets up to '' @ show_int last_end @ ''): '' @ why @ gap
         @ ''. A restart resumes after the highest staged offset and will NOT re-stage that gap. Stop ''
         @ ''consuming this stream, do not commit its Kafka offsets, roll back or upgrade the SDK, then ''
         @ ''rewind the consumer to the start of the gap (GUIDE.md, '' @ [CHR 0x22] @ ''Error handling''
         @ [CHR 0x22] @ '').'')"

definition check_order :: "(u64 \<times> u32 \<times> i64) option \<Rightarrow> staged_file \<Rightarrow> string + unit" where
  "check_order prev nxt =
     (case prev of
        None \<Rightarrow> Inr ()
      | Some (epoch, sq, last_end) \<Rightarrow>
          if (if epoch_ms nxt = epoch then seq nxt = sq + 1 else epoch_ms nxt > epoch \<and> seq nxt = 0)
          then Inr () else Inl (msg_order epoch sq last_end nxt))"

section \<open>Rendering\<close>

fun format_files ::
  "'s libs \<Rightarrow> string \<Rightarrow> (record_batch \<times> nat list) list \<Rightarrow> (string \<times> nat) result" where
  "format_files lb delim [] = Inr ([], 0)"
| "format_files lb delim ((b, rows) # rest) =
     res_bind (format_rows (debug_type lb) (float_text lb) delim b rows) (\<lambda>text.
     res_bind (format_files lb delim rest) (\<lambda>(more, n). Inr (text @ more, length rows + n)))"

definition render ::
  "'s libs \<Rightarrow> record_batch list \<Rightarrow> nat list option \<Rightarrow> string list \<Rightarrow> string \<Rightarrow> (string \<times> nat) result" where
  "render lb batches key names delim =
     res_bind (case key of
                 Some is \<Rightarrow> dedup_last_wins (debug_type lb) batches is
               | None \<Rightarrow> Inr (map (\<lambda>b. [0..<num_rows b]) batches)) (\<lambda>keep.
     res_bind (format_files lb delim (zip batches keep)) (\<lambda>(body, n).
       Inr (header delim names @ body, n)))"

text \<open>One attempt on the blocking pool; \<open>join\<close> is the text of a task that panicked or was cancelled.\<close>

definition render_once ::
  "'s libs \<Rightarrow> writer_ctx \<Rightarrow> string option \<Rightarrow> record_batch list \<Rightarrow> (string \<times> nat) result" where
  "render_once lb cx join batches =
     res_bind (if cfg_stream_mode (wx_cfg cx) = Upsert
               then res_bind (pk_indices (wx_schema cx)) (\<lambda>is. Inr (Some is)) else Inr None) (\<lambda>key.
     case join of
       Some e \<Rightarrow> Inl (Config (''render task failed: '' @ e))
     | None \<Rightarrow> render lb batches key (map field_name (arrow (wx_schema cx))) (delimiter (csv (wx_cfg cx))))"

definition gzip :: "'s libs \<Rightarrow> string \<Rightarrow> string result" where
  "gzip lb body =
     (case gzip_bytes lb body of
        Inl e \<Rightarrow> Inl (Config (''gzip of staged CSV failed: '' @ e)) | Inr bytes \<Rightarrow> Inr bytes)"

definition gzip_once :: "'s libs \<Rightarrow> string option \<Rightarrow> string \<Rightarrow> string result" where
  "gzip_once lb join body =
     (case join of Some e \<Rightarrow> Inl (Config (''gzip task failed: '' @ e)) | None \<Rightarrow> gzip lb body)"

section \<open>Uploading\<close>

definition put_once ::
  "'s libs \<Rightarrow> string \<Rightarrow> string \<Rightarrow> 's operator staging_handle \<Rightarrow> 's
     \<Rightarrow> unit result \<times> 's operator staging_handle \<times> 's" where
  "put_once lb key payload h s =
     (case put (live_store (current h)) key payload s of
        (Inr _, s') \<Rightarrow> (Inr (), h, s')
      | (Inl e, s') \<Rightarrow>
          let denied = (case e of Storage se \<Rightarrow> storage_kind se = PermissionDenied | _ \<Rightarrow> False)
          in if \<not> denied then (Inl e, h, s')
             else case refresh_managed_staging (control lb) (mk_store lb) h s' of
                    (Inl e', h', s'') \<Rightarrow> (Inl e', h', s'')
                  | (Inr False, h', s'') \<Rightarrow> (Inl e, h', s'')
                  | (Inr True, h', s'') \<Rightarrow>
                      (case put (live_store (current h')) key payload s'' of (r, s3) \<Rightarrow> (r, h', s3)))"

section \<open>Lag\<close>

record lag_snapshot =
  lag_seconds :: u64
  lag_files :: nat
  buffered_age_seconds :: u64
  sampled_at :: "u64 option"

definition lag_of :: "(i64 \<times> u64) list \<Rightarrow> i64 option \<Rightarrow> u64 \<Rightarrow> (nat \<times> u64) \<times> (i64 \<times> u64) list" where
  "lag_of known watermark now =
     (let kept = filter (\<lambda>(sq, _). case watermark of None \<Rightarrow> True | Some w \<Rightarrow> sq > w) known
      in ((length kept,
           case map snd kept of
             [] \<Rightarrow> 0
           | t # ts \<Rightarrow> sat_sub_u64 now (fold min ts t) div 1000),
          kept))"

definition oldest_unstaged_age :: "instant \<Rightarrow> writer_state \<Rightarrow> duration option" where
  "oldest_unstaged_age now st =
     (case map (elapsed now)
             ((case oldest_buffered_at st of Some t \<Rightarrow> [t] | None \<Rightarrow> []) @ map snd (in_flight st)) of
        [] \<Rightarrow> None
      | d # ds \<Rightarrow> Some (fold max ds d))"

text \<open>One sample: the known files pruned, the numbers taken.\<close>

definition lag_sample :: "reading \<Rightarrow> i64 option \<Rightarrow> writer_state \<Rightarrow> lag_snapshot \<times> writer_state" where
  "lag_sample c watermark st =
     (let ((files, secs), kept) = lag_of (known_files st) watermark (now_ms (machine c))
      in (\<lparr>lag_seconds = secs, lag_files = files,
           buffered_age_seconds =
             (case oldest_unstaged_age (mono c) st of Some d \<Rightarrow> of_nat (as_secs d) | None \<Rightarrow> 0),
           sampled_at = wall_clock (machine c)\<rparr>,
          st\<lparr>known_files := kept\<rparr>))"


section \<open>Two appends taken back\<close>

text \<open>
  With two tasks on one writer, both of whose hand-overs fail, the second un-buffering restores the mark
  that the first batch had set although that batch is gone: the buffer is as it was and yet the retry of
  the first batch is refused. The documentation of \<open>append\<close> asks for one task per writer.
\<close>

lemma unbuffer_leaves_mark:
  fixes lb :: "'s libs" and cfg :: client_config and now :: instant and a b :: record_batch and st :: writer_state
  defines "st1 \<equiv> snd (push_batch lb cfg now a 0 9 st)"
  defines "st2 \<equiv> snd (push_batch lb cfg now b 10 19 st1)"
  defines "st3 \<equiv> snd (unbuffer lb 0 9 None st2)"
  defines "st4 \<equiv> snd (unbuffer lb 10 19 (Some 9) st3)"
  assumes "buffered st = []" and "max_end_offset st = None"
  shows "buffered st4 = [] \<and> max_end_offset st4 = Some 9
    \<and> fst (push_batch lb cfg now a 0 9 st4) = Inl (Config (msg_backwards 0 9 9))"
proof -
  have s2: "buffered st2 = [(a, 0, 9), (b, 10, 19)]" "max_end_offset st2 = Some 19"
    using assms(5,6) by (simp_all add: st1_def st2_def push_batch_def Let_def)
  have s3: "buffered st3 = [(b, 10, 19)]" "max_end_offset st3 = Some 19"
    by (simp_all add: st3_def unbuffer_def s2 rposition_def Let_def)
  have s4: "buffered st4 = []" "max_end_offset st4 = Some 9"
    by (simp_all add: st4_def unbuffer_def s3 rposition_def Let_def)
  then show ?thesis by (simp add: push_batch_def)
qed

end
