(* ===== verification/Staging_Gc.thy ===== *)
theory Staging_Gc
  imports Managed_Staging Recovery
begin

text \<open>
  The garbage collector of a writer (\<open>WriterInner::gc_pass\<close> in \<open>src/table.rs\<close>): which consumed files a pass
  deletes from the staging directory.
\<close>

definition gc_deletable :: "client_config \<Rightarrow> i64 \<Rightarrow> u64 \<Rightarrow> staged_file list \<Rightarrow> staged_file list" where
  "gc_deletable cfg watermark now staged =
     (let total = length staged;
          min_age_ms = (ucast (gc_retain_days cfg) :: u64) * 24 * 3600 * 1000;
          old = filter (\<lambda>f. case serial_seq f of
                              Inl _ \<Rightarrow> False
                            | Inr sq \<Rightarrow> sq \<le> watermark \<and> sat_sub_u64 now (epoch_ms f) > min_age_ms)
                  (take (total - 1) staged)
      in take (total - gc_retain_min_files cfg) old)"

text \<open>The deletes, in order, up to the first that fails; the number that succeeded.\<close>

fun gc_delete ::
  "'s operator \<Rightarrow> writer_identity \<Rightarrow> staged_file list \<Rightarrow> 's \<Rightarrow> nat \<times> 's" where
  "gc_delete oper ident [] s = (0, s)"
| "gc_delete oper ident (f # fs) s =
     (case delete_staged oper ident f s of
        (Inl _, s') \<Rightarrow> (0, s')
      | (Inr _, s') \<Rightarrow> (case gc_delete oper ident fs s' of (n, s'') \<Rightarrow> (Suc n, s'')))"

definition gc_pass ::
  "'s control_api \<Rightarrow> 's operator \<Rightarrow> client_config \<Rightarrow> writer_identity \<Rightarrow> u64 \<Rightarrow> 's \<Rightarrow> nat \<times> 's" where
  "gc_pass ctl oper cfg ident now s =
     (case connect_control ctl (control_dsn cfg) s of
        (Inl _, s1) \<Rightarrow> (0, s1)
      | (Inr _, s1) \<Rightarrow>
     (case query_watermark ctl (serial_group ident) s1 of
        (Inl _, s2) \<Rightarrow> (0, s2)
      | (Inr None, s2) \<Rightarrow> (0, s2)
      | (Inr (Some watermark), s2) \<Rightarrow>
     (case list_staged oper ident s2 of
        (Inl _, s3) \<Rightarrow> (0, s3)
      | (Inr (files, _), s3) \<Rightarrow>
          let staged = sort_key (\<lambda>f. (epoch_ms f, seq f)) files
          in if length staged \<le> gc_retain_min_files cfg then (0, s3)
             else gc_delete oper ident (gc_deletable cfg watermark now staged) s3)))"

end
