(* ===== verification/Writer_Machine.thy ===== *)
theory Writer_Machine
  imports Writer_State Staging_Gc
begin

text \<open>
  A table writer as a machine (\<open>src/table.rs\<close>): the calls of the application and of the ticker, the
  three pipeline stages, the lease heartbeat, the garbage collector and the lag sampler, over one shared
  state. Each task has a program counter; one event runs one task from one await to the next, which is
  the granularity at which tokio interleaves them. Whatever the environment decides is in the event: the
  clock reading, which arm of a \<open>select!\<close> wins, a blocking task that panics, and the world (object store
  and master) behind the libraries. Where a task makes several requests with nothing of the shared writer
  state read or written between them (the attempts to give the lease back, a collector pass, an upload
  with the refresh of its credentials), the requests are one event.
\<close>

section \<open>State\<close>

datatype op = Append record_batch i64 i64 | Flush | Close | Tick

text \<open>On whose behalf a file is sealed; an \<open>append\<close> keeps what it needs to take its batch back.\<close>

datatype purpose = ForAppend i64 i64 "i64 option" | ForFlush | ForClose | ForTick

datatype outcome =
    AppendDone "unit result"
  | FlushDone "i64 option result"
  | CloseDone "i64 option result"
  | TickDone

datatype pc =
    Start op
  | Buffering record_batch i64 i64
  | TryLock purpose
  | ParkLock purpose
  | TryReserve purpose
  | ParkReserve purpose
  | Granted purpose
  | Cutting purpose
  | Unbuffering i64 i64 "i64 option" error
  | ReadTarget purpose
  | AwaitFile purpose i64
  | ReadOffset
  | Persisting purpose
  | WritingState purpose state_file
  | StopHeartbeat "i64 option"
  | Releasing "i64 option"
  | Finished outcome

datatype render_pc = RRecv | RWork sealed u32 | RSend rendered | RExit
datatype gzip_pc = GRecv | GWork rendered u32 | GSend compressed_file | GExit
datatype put_pc = PRecv | PCheck compressed_file | PWork compressed_file u32 | PLanded compressed_file
  | PRecord compressed_file | PLand compressed_file | PExit
datatype heartbeat_pc = HbIdle | HbRenew lock_file | HbExit

record 's writer =
  wr_state :: writer_state
  wr_staging :: "'s operator staging_handle"
  wr_notifier :: notifier
  wr_world :: 's
  fenced :: "string option"
  order_fatal :: "string option"
  alarm_raised :: nat
  alarms :: "(error \<times> string) list"
  wr_lag :: "lag_snapshot option"
  calls :: "nat \<Rightarrow> pc option"
  seal_lock :: "nat option"
  permit :: bool
  seal_queue :: "sealed list"
  wr_progress :: progress
  render_task :: render_pc
  gzip_chan :: "rendered list"
  gzip_task :: gzip_pc
  put_chan :: "compressed_file list"
  put_task :: put_pc
  put_prev :: "(u64 \<times> u32 \<times> i64) option"
  ticker_on :: bool
  gc_on :: bool
  lag_on :: bool
  hb_pc :: heartbeat_pc
  hb_since :: duration
  hb_verified :: instant
  hb_stop :: bool
  alive :: bool

definition writer_new ::
  "writer_ctx \<Rightarrow> 's operator staging_handle \<Rightarrow> notifier \<Rightarrow> 's \<Rightarrow> u64 \<Rightarrow> i64 option \<Rightarrow> i64 option
     \<Rightarrow> (i64 \<times> u64) list \<Rightarrow> instant \<Rightarrow> 's writer" where
  "writer_new cx h n s initial_epoch staged resume known now =
     \<lparr>wr_state = writer_state_new initial_epoch staged resume known now,
      wr_staging = h, wr_notifier = n, wr_world = s, fenced = None, order_fatal = None,
      alarm_raised = 255, alarms = [], wr_lag = None, calls = (\<lambda>_. None), seal_lock = None,
      permit = False, seal_queue = [], wr_progress = progress_default, render_task = RRecv,
      gzip_chan = [], gzip_task = GRecv, put_chan = [], put_task = PRecv, put_prev = None,
      ticker_on = True, gc_on = True, lag_on = True, hb_pc = HbIdle,
      hb_since = lock_heartbeat_interval (wx_cfg cx), hb_verified = now, hb_stop = False, alive = True\<rparr>"

text \<open>
  The ready reserve of the seal queue: \<open>mpsc::channel\<close> of \<open>rotation_queue_depth.max(1)\<close>, a reserved permit
  takes a slot. The channels between the stages hold one file.
\<close>

definition has_room :: "writer_ctx \<Rightarrow> 's writer \<Rightarrow> bool" where
  "has_room cx w \<longleftrightarrow>
     length (seal_queue w) + (if permit w then 1 else 0) < max (rotation_queue_depth (wx_cfg cx)) 1"

definition store_of :: "'s writer \<Rightarrow> 's operator" where
  "store_of w = live_store (current (wr_staging w))"

section \<open>Health and alarms\<close>

definition fatal_state :: "writer_ctx \<Rightarrow> 's writer \<Rightarrow> error option" where
  "fatal_state cx w =
     (case order_fatal w of
        Some detail \<Rightarrow> Some (StagingOrderViolation detail)
      | None \<Rightarrow>
     (case fenced w of
        Some reason \<Rightarrow> Some (WriterFenced reason)
      | None \<Rightarrow>
     (case notifier_fatal (wr_notifier w) (group_of cx) of
        Some msg \<Rightarrow> Some (SerialContractViolation msg)
      | None \<Rightarrow>
     (case stall_error (wx_cfg cx) (wr_progress w) i64_max of
        Some (RotationFailed stage cause) \<Rightarrow> Some (RotationFailed stage cause)
      | _ \<Rightarrow> None))))"

definition check_health :: "writer_ctx \<Rightarrow> 's writer \<Rightarrow> unit result" where
  "check_health cx w = (case fatal_state cx w of Some e \<Rightarrow> Inl e | None \<Rightarrow> Inr ())"

definition fatal_reason :: "writer_ctx \<Rightarrow> 's writer \<Rightarrow> string option" where
  "fatal_reason cx w = map_option display (fatal_state cx w)"

definition raise_stream_stopped :: "writer_ctx \<Rightarrow> reading \<Rightarrow> 's writer \<Rightarrow> 's writer" where
  "raise_stream_stopped cx c w =
     (case fatal_state cx w of
        None \<Rightarrow> w
      | Some cause \<Rightarrow>
          let prio = fatal_priority cause
          in if alarm_raised w \<le> prio then w
             else w\<lparr>alarm_raised := prio,
                    alarms := alarms w @ [(cause, stream_stopped (now_ms (machine c))
                      (fst (snd (wx_names cx)) @ ''.'' @ snd (snd (wx_names cx)))
                      (writer_id (wx_ident cx)) (group_of cx) cause)]\<rparr>)"

definition fence :: "writer_ctx \<Rightarrow> reading \<Rightarrow> string \<Rightarrow> 's writer \<Rightarrow> 's writer" where
  "fence cx c reason w =
     raise_stream_stopped cx c
       (w\<lparr>fenced := (case fenced w of Some r \<Rightarrow> Some r | None \<Rightarrow> Some reason)\<rparr>)"

definition set_progress :: "(progress \<Rightarrow> progress) \<Rightarrow> 's writer \<Rightarrow> 's writer" where
  "set_progress f w = w\<lparr>wr_progress := f (wr_progress w)\<rparr>"

definition trip_order_fatal :: "writer_ctx \<Rightarrow> reading \<Rightarrow> string \<Rightarrow> 's writer \<Rightarrow> 's writer" where
  "trip_order_fatal cx c detail w =
     raise_stream_stopped cx c
       (set_progress (publish_terminal OrderViolation ''pipeline'' None detail)
         (w\<lparr>order_fatal := (case order_fatal w of Some d \<Rightarrow> Some d | None \<Rightarrow> Some detail)\<rparr>))"

text \<open>\<open>fenced_exit\<close>, for a writer that is fenced: wake the waiters, raise the alarm.\<close>

definition fenced_exit :: "writer_ctx \<Rightarrow> reading \<Rightarrow> 's writer \<Rightarrow> 's writer" where
  "fenced_exit cx c w =
     raise_stream_stopped cx c
       (set_progress (publish_terminal Fenced ''pipeline'' None
          (case fenced w of Some r \<Rightarrow> r | None \<Rightarrow> ''writer was fenced'')) w)"

section \<open>Calls\<close>

definition goto :: "nat \<Rightarrow> pc \<Rightarrow> 's writer \<Rightarrow> 's writer" where
  "goto t p w = w\<lparr>calls := (calls w)(t \<mapsto> p)\<rparr>"

definition unlock :: "'s writer \<Rightarrow> 's writer" where
  "unlock w = w\<lparr>seal_lock := None\<rparr>"

text \<open>What a caller does with the result of \<open>seal_and_send\<close> (\<open>flush_pipeline\<close> for flush and close).\<close>

definition sealed_result :: "purpose \<Rightarrow> i64 option result \<Rightarrow> pc" where
  "sealed_result k r =
     (case k of
        ForAppend s e prev \<Rightarrow>
          (case r of Inl err \<Rightarrow> Unbuffering s e prev err | Inr _ \<Rightarrow> Finished (AppendDone (Inr ())))
      | ForTick \<Rightarrow> Persisting ForTick
      | _ \<Rightarrow>
          (case r of
             Inl err \<Rightarrow> Finished (if k = ForFlush then FlushDone (Inl err) else CloseDone (Inl err))
           | Inr (Some sq) \<Rightarrow> AwaitFile k sq
           | Inr None \<Rightarrow> ReadTarget k))"

definition flushed :: "purpose \<Rightarrow> pc" where
  "flushed k = (if k = ForFlush then ReadOffset else Persisting ForClose)"

definition seal_return :: "nat \<Rightarrow> purpose \<Rightarrow> i64 option result \<Rightarrow> 's writer \<Rightarrow> 's writer" where
  "seal_return t k r w = goto t (sealed_result k r) (unlock w)"

definition surface_stall :: "purpose \<Rightarrow> bool" where
  "surface_stall k \<longleftrightarrow> k \<noteq> ForTick"

definition aged_only :: "purpose \<Rightarrow> bool" where
  "aged_only k \<longleftrightarrow> k = ForTick"

text \<open>No permit to be had: the render stage is gone.\<close>

definition seal_gone :: "writer_ctx \<Rightarrow> nat \<Rightarrow> purpose \<Rightarrow> 's writer \<Rightarrow> 's writer" where
  "seal_gone cx t k w =
     (case check_health cx w of
        Inl e \<Rightarrow> seal_return t k (Inl e) w
      | Inr _ \<Rightarrow>
          (let (e, p) = pipeline_gone (wr_progress w)
           in seal_return t k (Inl e) (w\<lparr>wr_progress := p\<rparr>)))"

definition run_lock :: "writer_ctx \<Rightarrow> nat \<Rightarrow> bool \<Rightarrow> bool \<Rightarrow> purpose \<Rightarrow> 's writer \<Rightarrow> 's writer" where
  "run_lock cx t parked give_up k w =
     (case (if parked \<and> give_up \<and> surface_stall k
            then stall_error (wx_cfg cx) (wr_progress w) i64_max else None) of
        Some e \<Rightarrow> goto t (sealed_result k (Inl e)) w
      | None \<Rightarrow>
          if seal_lock w = None then goto t (TryReserve k) (w\<lparr>seal_lock := Some t\<rparr>)
          else goto t (ParkLock k) w)"

definition run_reserve :: "writer_ctx \<Rightarrow> nat \<Rightarrow> bool \<Rightarrow> bool \<Rightarrow> purpose \<Rightarrow> 's writer \<Rightarrow> 's writer" where
  "run_reserve cx t parked give_up k w =
     (case (if parked \<and> give_up \<and> surface_stall k
            then stall_error (wx_cfg cx) (wr_progress w) i64_max else None) of
        Some e \<Rightarrow> seal_return t k (Inl e) w
      | None \<Rightarrow>
          if render_task w = RExit then seal_gone cx t k w
          else if has_room cx w then goto t (Granted k) (w\<lparr>permit := True\<rparr>)
          else goto t (ParkReserve k) w)"

definition run_cut :: "writer_ctx \<Rightarrow> reading \<Rightarrow> nat \<Rightarrow> purpose \<Rightarrow> 's writer \<Rightarrow> 's writer" where
  "run_cut cx c t k w =
     (case seal cx c (aged_only k) (wr_state w) of
        (r, st) \<Rightarrow>
          let w' = w\<lparr>wr_state := st, permit := False\<rparr>
          in case r of
               Inl e \<Rightarrow> seal_return t k (Inl e) w'
             | Inr None \<Rightarrow> seal_return t k (Inr None) w'
             | Inr (Some f) \<Rightarrow>
                 seal_return t k (Inr (Some (fm_serial_seq (sl_meta f))))
                   (w'\<lparr>seal_queue := seal_queue w' @ [f]\<rparr>))"


section \<open>The entry of each call\<close>

definition start_append ::
  "writer_ctx \<Rightarrow> nat \<Rightarrow> record_batch \<Rightarrow> i64 \<Rightarrow> i64 \<Rightarrow> 's writer \<Rightarrow> 's writer" where
  "start_append cx t batch s e w =
     goto t
       (case check_health cx w of
          Inl err \<Rightarrow> Finished (AppendDone (Inl err))
        | Inr _ \<Rightarrow>
            if s < 0 \<or> e < s then Finished (AppendDone (Inl (Config (msg_offset_range s e))))
            else if \<not> schema_compatible (batch_schema batch) (arrow (wx_schema cx)) then
              Finished (AppendDone (Inl (Schema
                ''append batch schema != table schema (column names / types)'')))
            else Buffering batch s e) w"

text \<open>
  One tick: the three stopped states end the ticker; otherwise the health gate and two tries that do not
  wait, and what they do not get is left to the next tick.
\<close>

definition seal_if_aged_nonblocking :: "writer_ctx \<Rightarrow> nat \<Rightarrow> 's writer \<Rightarrow> 's writer" where
  "seal_if_aged_nonblocking cx t w =
     (if check_health cx w \<noteq> Inr () \<or> seal_lock w \<noteq> None \<or> render_task w = RExit \<or> \<not> has_room cx w then
        goto t (Persisting ForTick) w
      else goto t (Cutting ForTick) (w\<lparr>seal_lock := Some t, permit := True\<rparr>))"

declare seal_if_aged_nonblocking_def [simp]

definition start_tick :: "writer_ctx \<Rightarrow> reading \<Rightarrow> nat \<Rightarrow> 's writer \<Rightarrow> 's writer" where
  "start_tick cx c t w =
     (if fenced w \<noteq> None \<or> order_fatal w \<noteq> None then goto t (Finished TickDone) (w\<lparr>ticker_on := False\<rparr>)
      else if notifier_fatal (wr_notifier w) (group_of cx) \<noteq> None then
        goto t (Finished TickDone) ((raise_stream_stopped cx c w)\<lparr>ticker_on := False\<rparr>)
      else seal_if_aged_nonblocking cx t w)"

definition start_op :: "writer_ctx \<Rightarrow> reading \<Rightarrow> nat \<Rightarrow> op \<Rightarrow> 's writer \<Rightarrow> 's writer" where
  "start_op cx c t o' w =
     (case o' of
        Append batch s e \<Rightarrow> start_append cx t batch s e w
      | Flush \<Rightarrow>
          goto t (case check_health cx w of
                    Inl e \<Rightarrow> Finished (FlushDone (Inl e)) | Inr _ \<Rightarrow> TryLock ForFlush) w
      | Close \<Rightarrow>
          goto t (case check_health cx w of
                    Inl e \<Rightarrow> Finished (CloseDone (Inl e)) | Inr _ \<Rightarrow> TryLock ForClose) w
      | Tick \<Rightarrow> start_tick cx c t w)"

section \<open>Waiting and persisting\<close>

definition run_buffer ::
  "'s libs \<Rightarrow> writer_ctx \<Rightarrow> reading \<Rightarrow> nat \<Rightarrow> record_batch \<Rightarrow> i64 \<Rightarrow> i64 \<Rightarrow> 's writer \<Rightarrow> 's writer" where
  "run_buffer lb cx c t batch s e w =
     (case push_batch lb (wx_cfg cx) (mono c) batch s e (wr_state w) of
        (r, st) \<Rightarrow>
          goto t (case r of
                    Inl err \<Rightarrow> Finished (AppendDone (Inl err))
                  | Inr (due, prev) \<Rightarrow>
                      if due then TryLock (ForAppend s e prev) else Finished (AppendDone (Inr ())))
            (w\<lparr>wr_state := st\<rparr>))"

definition run_unbuffer ::
  "'s libs \<Rightarrow> nat \<Rightarrow> i64 \<Rightarrow> i64 \<Rightarrow> i64 option \<Rightarrow> error \<Rightarrow> 's writer \<Rightarrow> 's writer" where
  "run_unbuffer lb t s e prev err w =
     (case unbuffer lb s e prev (wr_state w) of
        (taken_back, st) \<Rightarrow>
          let stalled = (case err of StagingStalled _ _ \<Rightarrow> True | _ \<Rightarrow> False)
          in goto t (Finished (AppendDone (if taken_back \<or> \<not> stalled then Inl err else Inr ())))
               (w\<lparr>wr_state := st\<rparr>))"

definition run_await :: "writer_ctx \<Rightarrow> nat \<Rightarrow> purpose \<Rightarrow> i64 \<Rightarrow> 's writer \<Rightarrow> 's writer" where
  "run_await cx t k target w =
     (if (case durable_seq (wr_progress w) of Some d \<Rightarrow> d \<ge> target | None \<Rightarrow> False) then goto t (flushed k) w
      else case stall_error (wx_cfg cx) (wr_progress w) target of
             Some e \<Rightarrow> goto t (Finished (if k = ForFlush then FlushDone (Inl e) else CloseDone (Inl e))) w
           | None \<Rightarrow> w)"

text \<open>What follows \<open>persist_state_if_due\<close>: the ticker is done, \<open>close\<close> reads the offset and goes on.\<close>

definition persisted :: "purpose \<Rightarrow> 's writer \<Rightarrow> pc" where
  "persisted k w =
     (if k = ForTick then Finished TickDone else StopHeartbeat (staged_offset (wr_state w)))"

definition resume_of :: "i64 option \<Rightarrow> i64 option \<Rightarrow> i64 option" where
  "resume_of confirmed_end known =
     (case (confirmed_end, known) of
        (Some c, Some p) \<Rightarrow> Some (max c p) | (Some c, None) \<Rightarrow> Some c | (None, p) \<Rightarrow> p)"

definition resume_advanced :: "i64 option \<Rightarrow> i64 option \<Rightarrow> bool" where
  "resume_advanced confirmed_end known =
     (case (confirmed_end, known) of
        (Some c, Some p) \<Rightarrow> c > p | (Some _, None) \<Rightarrow> True | (None, _) \<Rightarrow> False)"

definition writer_state_file :: "writer_ctx \<Rightarrow> u64 \<Rightarrow> i64 option \<Rightarrow> u64 \<Rightarrow> state_file" where
  "writer_state_file cx epoch resume now =
     \<lparr>sf_v = STATE_VERSION, resume_offset = resume, max_epoch_used = epoch,
      sf_cluster_id = cluster_id (wx_ident cx), sf_database = fst (wx_names cx),
      sf_schema = fst (snd (wx_names cx)), sf_table = snd (snd (wx_names cx)),
      sf_writer_id = writer_id (wx_ident cx), updated_at_ms = now\<rparr>"

definition run_persist :: "writer_ctx \<Rightarrow> reading \<Rightarrow> nat \<Rightarrow> purpose \<Rightarrow> 's writer \<Rightarrow> 's writer" where
  "run_persist cx c t k w =
     (if fenced w \<noteq> None then goto t (persisted k w) w
      else
        let st = wr_state w;
            confirmed_end = map_option snd (confirmed (wr_notifier w) (group_of cx));
            heartbeat = (elapsed (mono c) (state_written_at st) \<ge> state_heartbeat_interval (wx_cfg cx))
        in if \<not> resume_advanced confirmed_end (resume_persisted st) \<and> \<not> heartbeat
           then goto t (persisted k w) w
           else goto t (WritingState k (writer_state_file cx (ws_epoch_ms st)
                  (resume_of confirmed_end (resume_persisted st)) (now_ms (machine c)))) w)"

definition run_write_state ::
  "'s libs \<Rightarrow> writer_ctx \<Rightarrow> reading \<Rightarrow> nat \<Rightarrow> purpose \<Rightarrow> state_file \<Rightarrow> 's writer \<Rightarrow> 's writer" where
  "run_write_state lb cx c t k sf w =
     (if fenced w \<noteq> None then goto t (persisted k w) w
      else case write_state (store_of w) (json lb) (wx_ident cx) sf (wr_world w) of
             (Inl _, s) \<Rightarrow> goto t (persisted k w) (w\<lparr>wr_world := s\<rparr>)
           | (Inr _, s) \<Rightarrow>
               goto t (persisted k w)
                 (w\<lparr>wr_world := s,
                    wr_state := (wr_state w)\<lparr>resume_persisted := resume_offset sf,
                                             state_written_at := mono c\<rparr>\<rparr>))"

section \<open>Releasing the lease\<close>

text \<open>\<open>release_lease\<close>: up to three attempts, each a read and, if the lock is ours, a delete.\<close>

fun release_attempts ::
  "nat \<Rightarrow> 's operator \<Rightarrow> json_api \<Rightarrow> writer_identity \<Rightarrow> string \<Rightarrow> 's \<Rightarrow> bool \<times> 's" where
  "release_attempts 0 oper j ident me s = (False, s)"
| "release_attempts (Suc n) oper j ident me s =
     (case read_lock oper j ident s of
        (Inr (Some l), s1) \<Rightarrow>
          if instance_uuid l = me then
            (case delete_lock oper ident s1 of
               (Inr _, s2) \<Rightarrow> (True, s2)
             | (Inl _, s2) \<Rightarrow> release_attempts n oper j ident me s2)
          else (True, s1)
      | (Inr None, s1) \<Rightarrow> (True, s1)
      | (Inl _, s1) \<Rightarrow> release_attempts n oper j ident me s1)"

definition release_lease ::
  "'s operator \<Rightarrow> json_api \<Rightarrow> writer_identity \<Rightarrow> string \<Rightarrow> 's \<Rightarrow> bool \<times> 's" where
  "release_lease = release_attempts 3"

definition run_stop_heartbeat :: "nat \<Rightarrow> bool \<Rightarrow> i64 option \<Rightarrow> 's writer \<Rightarrow> 's writer" where
  "run_stop_heartbeat t timed_out staged w =
     (case hb_pc w of
        HbRenew _ \<Rightarrow>
          if timed_out then goto t (Releasing staged) (w\<lparr>hb_stop := True\<rparr>) else w\<lparr>hb_stop := True\<rparr>
      | _ \<Rightarrow> goto t (Releasing staged) (w\<lparr>hb_stop := True, hb_pc := HbExit\<rparr>))"

definition run_release :: "'s libs \<Rightarrow> writer_ctx \<Rightarrow> nat \<Rightarrow> i64 option \<Rightarrow> 's writer \<Rightarrow> 's writer" where
  "run_release lb cx t staged w =
     (case release_lease (store_of w) (json lb) (wx_ident cx) (wx_uuid cx) (wr_world w) of
        (_, s) \<Rightarrow> goto t (Finished (CloseDone (Inr staged))) (w\<lparr>wr_world := s\<rparr>))"

section \<open>One step of a call\<close>

fun run_pc ::
  "'s libs \<Rightarrow> writer_ctx \<Rightarrow> reading \<Rightarrow> nat \<Rightarrow> bool \<Rightarrow> pc \<Rightarrow> 's writer \<Rightarrow> 's writer" where
  "run_pc lb cx c t b (Start o') w = start_op cx c t o' w"
| "run_pc lb cx c t b (Buffering batch s e) w = run_buffer lb cx c t batch s e w"
| "run_pc lb cx c t b (TryLock k) w = run_lock cx t False b k w"
| "run_pc lb cx c t b (ParkLock k) w = run_lock cx t True b k w"
| "run_pc lb cx c t b (TryReserve k) w =
     (if sealable (wx_cfg cx) (mono c) (aged_only k) (wr_state w) then run_reserve cx t False b k w
      else seal_return t k (Inr None) w)"
| "run_pc lb cx c t b (ParkReserve k) w = run_reserve cx t True b k w"
| "run_pc lb cx c t b (Granted k) w =
     (case check_health cx w of
        Inl e \<Rightarrow> seal_return t k (Inl e) (w\<lparr>permit := False\<rparr>)
      | Inr _ \<Rightarrow> goto t (Cutting k) w)"
| "run_pc lb cx c t b (Cutting k) w = run_cut cx c t k w"
| "run_pc lb cx c t b (Unbuffering s e prev err) w = run_unbuffer lb t s e prev err w"
| "run_pc lb cx c t b (ReadTarget k) w =
     goto t (case last_sealed_seq (wr_state w) of Some target \<Rightarrow> AwaitFile k target | None \<Rightarrow> flushed k) w"
| "run_pc lb cx c t b (AwaitFile k target) w = run_await cx t k target w"
| "run_pc lb cx c t b ReadOffset w =
     goto t (Finished (FlushDone (Inr (staged_offset (wr_state w))))) w"
| "run_pc lb cx c t b (Persisting k) w = run_persist cx c t k w"
| "run_pc lb cx c t b (WritingState k sf) w = run_write_state lb cx c t k sf w"
| "run_pc lb cx c t b (StopHeartbeat staged) w = run_stop_heartbeat t b staged w"
| "run_pc lb cx c t b (Releasing staged) w = run_release lb cx t staged w"
| "run_pc lb cx c t b (Finished r) w = w"

definition run_call ::
  "'s libs \<Rightarrow> writer_ctx \<Rightarrow> reading \<Rightarrow> nat \<Rightarrow> bool \<Rightarrow> 's writer \<Rightarrow> 's writer" where
  "run_call lb cx c t b w =
     (case calls w t of Some p \<Rightarrow> run_pc lb cx c t b p w | None \<Rightarrow> w)"


section \<open>The pipeline\<close>

definition attempt_failed ::
  "writer_ctx \<Rightarrow> reading \<Rightarrow> file_meta \<Rightarrow> string \<Rightarrow> u32 \<Rightarrow> error \<Rightarrow> ('s writer \<Rightarrow> 's writer)
     \<Rightarrow> ('s writer \<Rightarrow> 's writer) \<Rightarrow> 's writer \<Rightarrow> 's writer" where
  "attempt_failed cx c meta stage attempt e exit_stage retry w =
     (let w' = set_progress (report_failure meta stage attempt (is_permanent e) e) w
      in if is_permanent e then
           exit_stage (raise_stream_stopped cx c
             (set_progress (publish_terminal Rotation stage (Some (clone_error e))
                (stage @ '': '' @ display e)) w'))
         else retry w')"

definition cleared :: "u32 \<Rightarrow> file_meta \<Rightarrow> 's writer \<Rightarrow> 's writer" where
  "cleared attempt meta w =
     (if attempt > 0 then set_progress (clear_failure (fm_serial_seq meta)) w else w)"

definition render_attempt ::
  "'s libs \<Rightarrow> writer_ctx \<Rightarrow> reading \<Rightarrow> string option \<Rightarrow> sealed \<Rightarrow> u32 \<Rightarrow> 's writer \<Rightarrow> 's writer" where
  "render_attempt lb cx c join f attempt w =
     (case render_once lb cx join (sl_batches f) of
        Inr (body, rows) \<Rightarrow>
          let w' = cleared attempt (sl_meta f) w
          in w'\<lparr>render_task := RSend \<lparr>rn_meta = sl_meta f, rn_body = body, rn_rows = rows\<rparr>,
                wr_state := (if rows > 0
                  then (wr_state w')\<lparr>avg_row_bytes :=
                         Some (f64_div (f64_of_nat (length body)) (f64_of_nat rows))\<rparr>
                  else wr_state w')\<rparr>
      | Inl e \<Rightarrow>
          attempt_failed cx c (sl_meta f) ''render'' (attempt + 1) e
            (\<lambda>w. w\<lparr>render_task := RExit\<rparr>) (\<lambda>w. w\<lparr>render_task := RWork f (attempt + 1)\<rparr>) w)"

definition render_step ::
  "'s libs \<Rightarrow> writer_ctx \<Rightarrow> reading \<Rightarrow> string option \<Rightarrow> 's writer \<Rightarrow> 's writer" where
  "render_step lb cx c join w =
     (case render_task w of
        RRecv \<Rightarrow>
          (case seal_queue w of
             f # rest \<Rightarrow> w\<lparr>render_task := RWork f 0, seal_queue := rest\<rparr>
           | [] \<Rightarrow> if alive w then w else w\<lparr>render_task := RExit\<rparr>)
      | RWork f attempt \<Rightarrow>
          if \<not> alive w then w\<lparr>render_task := RExit\<rparr>
          else if fenced w \<noteq> None then (fenced_exit cx c w)\<lparr>render_task := RExit\<rparr>
          else render_attempt lb cx c join f attempt w
      | RSend r \<Rightarrow>
          if gzip_task w = GExit then w\<lparr>render_task := RExit\<rparr>
          else if gzip_chan w = [] then w\<lparr>render_task := RRecv, gzip_chan := [r]\<rparr>
          else w
      | RExit \<Rightarrow> w)"

definition compressed_of :: "rendered \<Rightarrow> string \<Rightarrow> compressed_file" where
  "compressed_of r payload =
     \<lparr>cp_meta = rn_meta r, cp_payload = payload, cp_rows = rn_rows r,
      cp_bytes = length (rn_body r), cp_stored_bytes = length payload\<rparr>"

definition gzip_attempt ::
  "'s libs \<Rightarrow> writer_ctx \<Rightarrow> reading \<Rightarrow> string option \<Rightarrow> rendered \<Rightarrow> u32 \<Rightarrow> 's writer \<Rightarrow> 's writer" where
  "gzip_attempt lb cx c join r attempt w =
     (case gzip_once lb join (rn_body r) of
        Inr payload \<Rightarrow>
          (cleared attempt (rn_meta r) w)\<lparr>gzip_task := GSend (compressed_of r payload)\<rparr>
      | Inl e \<Rightarrow>
          attempt_failed cx c (rn_meta r) ''gzip'' (attempt + 1) e
            (\<lambda>w. w\<lparr>gzip_task := GExit\<rparr>) (\<lambda>w. w\<lparr>gzip_task := GWork r (attempt + 1)\<rparr>) w)"

definition gzip_step ::
  "'s libs \<Rightarrow> writer_ctx \<Rightarrow> reading \<Rightarrow> string option \<Rightarrow> 's writer \<Rightarrow> 's writer" where
  "gzip_step lb cx c join w =
     (case gzip_task w of
        GRecv \<Rightarrow>
          (case gzip_chan w of
             r # rest \<Rightarrow>
               w\<lparr>gzip_chan := rest,
                 gzip_task := (if compressed (fm_file (rn_meta r)) then GWork r 0
                               else GSend (compressed_of r (rn_body r)))\<rparr>
           | [] \<Rightarrow> if render_task w = RExit then w\<lparr>gzip_task := GExit\<rparr> else w)
      | GWork r attempt \<Rightarrow>
          if \<not> alive w then w\<lparr>gzip_task := GExit\<rparr>
          else if fenced w \<noteq> None then (fenced_exit cx c w)\<lparr>gzip_task := GExit\<rparr>
          else gzip_attempt lb cx c join r attempt w
      | GSend f \<Rightarrow>
          if put_task w = PExit then w\<lparr>gzip_task := GExit\<rparr>
          else if put_chan w = [] then w\<lparr>gzip_task := GRecv, put_chan := [f]\<rparr>
          else w
      | GExit \<Rightarrow> w)"

definition put_attempt ::
  "'s libs \<Rightarrow> writer_ctx \<Rightarrow> reading \<Rightarrow> compressed_file \<Rightarrow> u32 \<Rightarrow> 's writer \<Rightarrow> 's writer" where
  "put_attempt lb cx c f attempt w0 =
     (case put_once lb (fm_object_key (cp_meta f)) (cp_payload f) (wr_staging w0) (wr_world w0) of
        (r, h, s) \<Rightarrow>
          let w = w0\<lparr>wr_staging := h, wr_world := s\<rparr>
          in case r of
               Inr _ \<Rightarrow> (cleared attempt (cp_meta f) w)\<lparr>put_task := PLanded f\<rparr>
             | Inl e \<Rightarrow>
                 attempt_failed cx c (cp_meta f) ''put'' (attempt + 1) e
                   (\<lambda>w. w\<lparr>put_task := PExit\<rparr>) (\<lambda>w. w\<lparr>put_task := PWork f (attempt + 1)\<rparr>) w)"

definition file_request :: "writer_ctx \<Rightarrow> string \<Rightarrow> file_meta \<Rightarrow> notify_request" where
  "file_request cx base meta =
     \<lparr>nr_group = group_of cx, nr_end_offset = end_offset (fm_file meta),
      nr_identifier = fm_identifier meta, nr_source_url = base @ ''/'' @ fm_object_key meta,
      nr_target = rel_oid (wx_ident cx), nr_delimiter = delimiter (csv (wx_cfg cx)),
      nr_upsert = (cfg_stream_mode (wx_cfg cx) = Upsert), nr_serial_seq = fm_serial_seq meta,
      nr_retry_max = (case retry_max (wx_cfg cx) of Some r \<Rightarrow> Some r | None \<Rightarrow> Some (- 1))\<rparr>"

text \<open>\<open>record_durable\<close>; a request the notifier no longer takes is logged and dropped.\<close>

definition record_durable ::
  "writer_ctx \<Rightarrow> bool \<Rightarrow> file_meta \<Rightarrow> 's writer \<Rightarrow> 's writer" where
  "record_durable cx receiver_alive meta w =
     (let st = wr_state w;
          off = end_offset (fm_file meta);
          st' = st\<lparr>staged_offset := Some (case staged_offset st of Some p \<Rightarrow> max p off | None \<Rightarrow> off),
                   in_flight := filter (\<lambda>(sq, _). sq \<noteq> fm_serial_seq meta) (in_flight st)\<rparr>
      in w\<lparr>wr_state := st',
           wr_notifier := snd (enqueue receiver_alive
             (file_request cx (url_base (current (wr_staging w))) meta) (wr_notifier w))\<rparr>)"

definition put_step ::
  "'s libs \<Rightarrow> writer_ctx \<Rightarrow> reading \<Rightarrow> bool \<Rightarrow> 's writer \<Rightarrow> 's writer" where
  "put_step lb cx c receiver_alive w =
     (case put_task w of
        PRecv \<Rightarrow>
          (case put_chan w of
             f # rest \<Rightarrow> w\<lparr>put_task := PCheck f, put_chan := rest\<rparr>
           | [] \<Rightarrow> if gzip_task w = GExit then w\<lparr>put_task := PExit\<rparr> else w)
      | PCheck f \<Rightarrow>
          if \<not> alive w then w\<lparr>put_task := PExit\<rparr>
          else if fenced w \<noteq> None then (fenced_exit cx c w)\<lparr>put_task := PExit\<rparr>
          else (case check_order (put_prev w) (fm_file (cp_meta f)) of
                  Inl detail \<Rightarrow> (trip_order_fatal cx c detail w)\<lparr>put_task := PExit\<rparr>
                | Inr _ \<Rightarrow> w\<lparr>put_task := PWork f 0\<rparr>)
      | PWork f attempt \<Rightarrow>
          if \<not> alive w then w\<lparr>put_task := PExit\<rparr>
          else if fenced w \<noteq> None then (fenced_exit cx c w)\<lparr>put_task := PExit\<rparr>
          else put_attempt lb cx c f attempt w
      | PLanded f \<Rightarrow>
          if \<not> alive w then w\<lparr>put_task := PExit\<rparr>
          else if fenced w \<noteq> None then (fenced_exit cx c w)\<lparr>put_task := PExit\<rparr>
          else w\<lparr>put_task := PRecord f\<rparr>
      | PRecord f \<Rightarrow> (record_durable cx receiver_alive (cp_meta f) w)\<lparr>put_task := PLand f\<rparr>
      | PLand f \<Rightarrow>
          let file = fm_file (cp_meta f)
          in (set_progress (land (fm_serial_seq (cp_meta f))) w)
               \<lparr>put_task := PRecv, put_prev := Some (epoch_ms file, seq file, end_offset file)\<rparr>
      | PExit \<Rightarrow> w)"


section \<open>The lease heartbeat\<close>

definition msg_renew :: "writer_ctx \<Rightarrow> string" where
  "msg_renew cx =
     ''could not renew the lease at `'' @ lock_key (wx_ident cx) @ ''` for ''
     @ show_nat (as_secs (lock_lease_timeout (wx_cfg cx)))
     @ ''s (storage write errors); it is stale to competing writers -- stopping''"

definition msg_verify :: "writer_ctx \<Rightarrow> string" where
  "msg_verify cx =
     ''could not verify the lease at `'' @ lock_key (wx_ident cx) @ ''` for ''
     @ show_nat (as_secs (lock_lease_timeout (wx_cfg cx)))
     @ ''s (storage errors); a competing writer may have taken over ''
     @ [CHR 0xE2, CHR 0x80, CHR 0x94] @ '' stopping''"

definition msg_preempted :: "writer_ctx \<Rightarrow> machine_env \<Rightarrow> lock_file \<Rightarrow> string" where
  "msg_preempted cx m l =
     ''lease at `'' @ lock_key (wx_ident cx) @ ''` is now '' @ lock_describe m l @ '' ''
     @ [CHR 0xE2, CHR 0x80, CHR 0x94]
     @ '' this writer was preempted and must stop (reopen the table to resume as the sole writer)''"

definition msg_deleted :: "writer_ctx \<Rightarrow> string" where
  "msg_deleted cx =
     ''lease at `'' @ lock_key (wx_ident cx) @ ''` was deleted (operator force-release) ''
     @ [CHR 0xE2, CHR 0x80, CHR 0x94] @ '' stopping''"

definition fence_and_exit :: "writer_ctx \<Rightarrow> reading \<Rightarrow> string \<Rightarrow> 's writer \<Rightarrow> 's writer" where
  "fence_and_exit cx c reason w = (fence cx c reason w)\<lparr>hb_pc := HbExit\<rparr>"

definition lease_expired :: "writer_ctx \<Rightarrow> reading \<Rightarrow> 's writer \<Rightarrow> bool" where
  "lease_expired cx c w \<longleftrightarrow> elapsed (mono c) (hb_verified w) \<ge> lock_lease_timeout (wx_cfg cx)"

text \<open>A dropped writer gives its lease back, once and without looking at the result.\<close>

definition drop_lease ::
  "'s operator \<Rightarrow> json_api \<Rightarrow> writer_identity \<Rightarrow> string \<Rightarrow> 's \<Rightarrow> 's" where
  "drop_lease oper j ident me s =
     (case read_lock oper j ident s of
        (Inr (Some l), s1) \<Rightarrow> if instance_uuid l = me then snd (delete_lock oper ident s1) else s1
      | (_, s1) \<Rightarrow> s1)"

definition heartbeat_tick :: "'s libs \<Rightarrow> writer_ctx \<Rightarrow> reading \<Rightarrow> 's writer \<Rightarrow> 's writer" where
  "heartbeat_tick lb cx c w =
     (let period = lock_heartbeat_interval (wx_cfg cx);
          since = Nanos (nanos (hb_since w) + nanos (min (from_secs 2) period))
      in if hb_stop w then w\<lparr>hb_pc := HbExit\<rparr>
         else if \<not> alive w then
           w\<lparr>wr_world := drop_lease (store_of w) (json lb) (wx_ident cx) (wx_uuid cx) (wr_world w),
             hb_pc := HbExit\<rparr>
         else if since < period then w\<lparr>hb_since := since\<rparr>
         else
           (case read_lock (store_of w) (json lb) (wx_ident cx) (wr_world w) of
              (r, s) \<Rightarrow>
                let w' = w\<lparr>wr_world := s, hb_since := since\<rparr>
                in case r of
                     Inr (Some l) \<Rightarrow>
                       if instance_uuid l = wx_uuid cx then w'\<lparr>hb_pc := HbRenew l\<rparr>
                       else fence_and_exit cx c (msg_preempted cx (machine c) l) w'
                   | Inr None \<Rightarrow> fence_and_exit cx c (msg_deleted cx) w'
                   | Inl _ \<Rightarrow>
                       if lease_expired cx c w then fence_and_exit cx c (msg_verify cx) w' else w'))"

definition heartbeat_renew ::
  "'s libs \<Rightarrow> writer_ctx \<Rightarrow> reading \<Rightarrow> lock_file \<Rightarrow> 's writer \<Rightarrow> 's writer" where
  "heartbeat_renew lb cx c l w =
     (case write_lock (store_of w) (json lb) (wx_ident cx) (l\<lparr>heartbeat_at_ms := now_ms (machine c)\<rparr>)
             (wr_world w) of
        (r, s) \<Rightarrow>
          let w' = w\<lparr>wr_world := s\<rparr>
          in case r of
               Inr _ \<Rightarrow> w'\<lparr>hb_verified := mono c, hb_since := Nanos 0, hb_pc := HbIdle\<rparr>
             | Inl _ \<Rightarrow>
                 if lease_expired cx c w then fence_and_exit cx c (msg_renew cx) w'
                 else w'\<lparr>hb_pc := HbIdle\<rparr>)"

definition heartbeat_step :: "'s libs \<Rightarrow> writer_ctx \<Rightarrow> reading \<Rightarrow> 's writer \<Rightarrow> 's writer" where
  "heartbeat_step lb cx c w =
     (case hb_pc w of
        HbIdle \<Rightarrow> heartbeat_tick lb cx c w
      | HbRenew l \<Rightarrow> heartbeat_renew lb cx c l w
      | HbExit \<Rightarrow> w)"

section \<open>Garbage collection and lag\<close>

definition gc_step :: "'s libs \<Rightarrow> writer_ctx \<Rightarrow> reading \<Rightarrow> 's writer \<Rightarrow> 's writer" where
  "gc_step lb cx c w =
     (if \<not> gc_on w then w
      else if \<not> alive w \<or> fenced w \<noteq> None then w\<lparr>gc_on := False\<rparr>
      else w\<lparr>wr_world := snd (gc_pass (control lb) (store_of w) (wx_cfg cx) (wx_ident cx)
                               (now_ms (machine c)) (wr_world w))\<rparr>)"

text \<open>\<open>connected\<close>: the sampler still has its control connection.\<close>

definition lag_step :: "'s libs \<Rightarrow> writer_ctx \<Rightarrow> reading \<Rightarrow> bool \<Rightarrow> 's writer \<Rightarrow> 's writer" where
  "lag_step lb cx c connected w =
     (if \<not> lag_on w then w
      else if \<not> alive w \<or> fenced w \<noteq> None then w\<lparr>lag_on := False\<rparr>
      else
        case (if connected then (Inr (), wr_world w)
              else connect_control (control lb) (control_dsn (wx_cfg cx)) (wr_world w)) of
          (Inl _, s) \<Rightarrow> w\<lparr>wr_world := s\<rparr>
        | (Inr _, s) \<Rightarrow>
            (case query_watermark (control lb) (group_of cx) s of
               (Inl _, s') \<Rightarrow> w\<lparr>wr_world := s'\<rparr>
             | (Inr watermark, s') \<Rightarrow>
                 (case lag_sample c watermark (wr_state w) of
                    (sample, st) \<Rightarrow> w\<lparr>wr_world := s', wr_state := st, wr_lag := Some sample\<rparr>)))"

section \<open>The machine\<close>

text \<open>
  \<open>Board\<close> is a step of the notifier that is not this writer's: its loops, other writers of the process.
  \<open>Refresh\<close> is a round of the process's refresh of managed credentials, whose handle the writers share.
  \<open>World\<close> is whatever other processes and the servers do. \<open>DropWriter\<close> drops the last handle. A call is
  started on a task that is not busy; task 0 is the ticker's.
\<close>

datatype 's writer_event =
    Call nat op
  | Run nat bool
  | RenderStep "string option"
  | GzipStep "string option"
  | PutStep bool
  | HeartbeatStep
  | GcStep
  | LagStep bool
  | Refresh
  | Board board_event
  | World "'s \<Rightarrow> 's"
  | DropWriter

definition idle :: "'s writer \<Rightarrow> nat \<Rightarrow> bool" where
  "idle w t \<longleftrightarrow> (case calls w t of None \<Rightarrow> True | Some (Finished _) \<Rightarrow> True | _ \<Rightarrow> False)"

fun writer_step ::
  "'s libs \<Rightarrow> writer_ctx \<Rightarrow> reading \<times> 's writer_event \<Rightarrow> 's writer \<Rightarrow> 's writer" where
  "writer_step lb cx (c, Call t o') w = goto t (Start o') w"
| "writer_step lb cx (c, Run t b) w = run_call lb cx c t b w"
| "writer_step lb cx (c, RenderStep join) w = render_step lb cx c join w"
| "writer_step lb cx (c, GzipStep join) w = gzip_step lb cx c join w"
| "writer_step lb cx (c, PutStep receiver_alive) w = put_step lb cx c receiver_alive w"
| "writer_step lb cx (c, HeartbeatStep) w = heartbeat_step lb cx c w"
| "writer_step lb cx (c, GcStep) w = gc_step lb cx c w"
| "writer_step lb cx (c, LagStep connected) w = lag_step lb cx c connected w"
| "writer_step lb cx (c, Refresh) w =
     w\<lparr>wr_staging := fst (staging_refresh_round (control lb) (mk_store lb) (wr_staging w) (wr_world w)),
       wr_world := snd (staging_refresh_round (control lb) (mk_store lb) (wr_staging w) (wr_world w))\<rparr>"
| "writer_step lb cx (c, Board ev) w = w\<lparr>wr_notifier := board_step ev (wr_notifier w)\<rparr>"
| "writer_step lb cx (c, World f) w = w\<lparr>wr_world := f (wr_world w)\<rparr>"
| "writer_step lb cx (c, DropWriter) w = w\<lparr>alive := False\<rparr>"

fun writer_allowed :: "writer_ctx \<Rightarrow> reading \<times> 's writer_event \<Rightarrow> 's writer \<Rightarrow> bool" where
  "writer_allowed cx (c, Call t o') w \<longleftrightarrow>
     alive w \<and> idle w t \<and> (if o' = Tick then t = 0 \<and> ticker_on w else t \<noteq> 0)"
| "writer_allowed cx (c, Board ev) w \<longleftrightarrow>
     board_allowed ev (wr_notifier w) \<and>
     (case ev of Enqueue r \<Rightarrow> nr_group r \<noteq> group_of cx | _ \<Rightarrow> True)"
| "writer_allowed cx (c, DropWriter) w \<longleftrightarrow> (\<forall>t. idle w t)"
| "writer_allowed cx (c, ev) w \<longleftrightarrow> True"

end
