(* ===== verification/Spool_Spec.thy ===== *)
theory Spool_Spec
  imports Recovery
begin

text \<open>
  What a table writer promises, without tasks, stages or queues: a spool. A batch of Kafka offsets is
  accepted into a buffer or handed back, the buffer is cut into files whose slots follow each other, and
  files become durable one after the other in the order they were cut. \<open>Writer_Refinement\<close> proves that
  the machine of \<open>Writer_Machine\<close> is such a spool; the commit gate is a fact of the spool alone.
\<close>

text \<open>The order of slots: the next seq of the epoch, or seq 0 of a later one.\<close>

definition slot_follows :: "u64 \<times> u32 \<Rightarrow> u64 \<times> u32 \<Rightarrow> bool" where
  "slot_follows a b \<longleftrightarrow>
     (if fst b = fst a then snd b = snd a + 1 else fst a < fst b \<and> snd b = 0)"

lemma slot_follows_serial:
  assumes "slot_follows a b" and "slot_ok (fst a) (snd a)"
  shows "serial_nat (fst a) (snd a) < serial_nat (fst b) (snd b)"
proof (cases "fst b = fst a")
  case True
  have "unat (snd a) < 1048576" using assms(2) by (simp add: slot_ok_unat)
  then have "unat (snd a + 1) = unat (snd a) + 1"
    by (simp add: unat_plus_if_size word_size)
  with True assms(1) show ?thesis by (simp add: slot_follows_def serial_nat_def)
next
  case False
  with assms have "unat (fst a) + 1 \<le> unat (fst b)" "unat (snd a) < 1048576"
    by (auto simp: slot_follows_def slot_ok_unat word_less_nat_alt)
  then show ?thesis by (simp add: serial_nat_def)
qed

section \<open>The spool\<close>

type_synonym range = "i64 \<times> i64"

record spool =
  sp_first :: u64
  sp_init :: "i64 option"
  sp_accepted :: "range list"
  sp_buffer :: "range list"
  sp_sealed :: "(staged_file \<times> range list) list"
  sp_done :: nat
  sp_staged :: "i64 option"

datatype spool_event = Accept i64 i64 | Retract i64 i64 | Cut staged_file | Landed

definition spool_new :: "u64 \<Rightarrow> i64 option \<Rightarrow> spool" where
  "spool_new first staged =
     \<lparr>sp_first = first, sp_init = staged, sp_accepted = [], sp_buffer = [], sp_sealed = [], sp_done = 0,
      sp_staged = staged\<rparr>"

definition raise_to :: "i64 option \<Rightarrow> i64 \<Rightarrow> i64 option" where
  "raise_to m off = Some (case m of Some p \<Rightarrow> max p off | None \<Rightarrow> off)"

fun spool_step :: "spool_event \<Rightarrow> spool \<Rightarrow> spool" where
  "spool_step (Accept s e) a =
     a\<lparr>sp_accepted := sp_accepted a @ [(s, e)], sp_buffer := sp_buffer a @ [(s, e)]\<rparr>"
| "spool_step (Retract s e) a =
     a\<lparr>sp_accepted := remove1 (s, e) (sp_accepted a), sp_buffer := remove1 (s, e) (sp_buffer a)\<rparr>"
| "spool_step (Cut f) a =
     a\<lparr>sp_buffer := [], sp_sealed := sp_sealed a @ [(f, sp_buffer a)]\<rparr>"
| "spool_step Landed a =
     a\<lparr>sp_done := Suc (sp_done a),
       sp_staged := raise_to (sp_staged a) (end_offset (fst (sp_sealed a ! sp_done a)))\<rparr>"

definition next_slot :: "spool \<Rightarrow> u64 \<times> u32 \<Rightarrow> bool" where
  "next_slot a sl \<longleftrightarrow>
     (if sp_sealed a = [] then sl = (sp_first a, 0) else slot_follows (slot (fst (last (sp_sealed a)))) sl)"

fun spool_allowed :: "spool_event \<Rightarrow> spool \<Rightarrow> bool" where
  "spool_allowed (Accept s e) a \<longleftrightarrow> 0 \<le> s \<and> s \<le> e \<and> (\<forall>r \<in> set (sp_accepted a). snd r < s)"
| "spool_allowed (Retract s e) a \<longleftrightarrow> (s, e) \<in> set (sp_buffer a)"
| "spool_allowed (Cut f) a \<longleftrightarrow>
     sp_buffer a \<noteq> [] \<and> start_offset f = fst (hd (sp_buffer a)) \<and> end_offset f = snd (last (sp_buffer a))
     \<and> slot_ok (epoch_ms f) (seq f) \<and> next_slot a (slot f)"
| "spool_allowed Landed a \<longleftrightarrow> sp_done a < length (sp_sealed a)"

section \<open>Its invariant\<close>

definition ascending :: "range list \<Rightarrow> bool" where
  "ascending rs \<longleftrightarrow> sorted_wrt (\<lambda>a b. snd a < fst b) rs \<and> (\<forall>r \<in> set rs. 0 \<le> fst r \<and> fst r \<le> snd r)"

definition file_of_ranges :: "staged_file \<times> range list \<Rightarrow> bool" where
  "file_of_ranges fr \<longleftrightarrow>
     snd fr \<noteq> [] \<and> start_offset (fst fr) = fst (hd (snd fr)) \<and> end_offset (fst fr) = snd (last (snd fr))
     \<and> slot_ok (epoch_ms (fst fr)) (seq (fst fr))"

definition spool_inv :: "spool \<Rightarrow> bool" where
  "spool_inv a \<longleftrightarrow>
     sp_accepted a = concat (map snd (sp_sealed a)) @ sp_buffer a
     \<and> ascending (concat (map snd (sp_sealed a)) @ sp_buffer a)
     \<and> list_all file_of_ranges (sp_sealed a)
     \<and> (sp_sealed a \<noteq> [] \<longrightarrow> slot (fst (hd (sp_sealed a))) = (sp_first a, 0))
     \<and> (\<forall>i. Suc i < length (sp_sealed a) \<longrightarrow>
          slot_follows (slot (fst (sp_sealed a ! i))) (slot (fst (sp_sealed a ! Suc i))))
     \<and> sp_done a \<le> length (sp_sealed a)
     \<and> sp_staged a = (if sp_done a = 0 then sp_init a
          else raise_to (sp_init a) (end_offset (fst (sp_sealed a ! (sp_done a - 1)))))"

definition spool_grows :: "spool \<Rightarrow> spool \<Rightarrow> bool" where
  "spool_grows a b \<longleftrightarrow>
     prefix (sp_sealed a) (sp_sealed b) \<and> sp_done a \<le> sp_done b \<and> sp_init b = sp_init a
     \<and> (case sp_staged a of None \<Rightarrow> True | Some x \<Rightarrow> \<exists>y. sp_staged b = Some y \<and> x \<le> y)"

lemma ascending_snoc:
  "ascending (rs @ [(s, e)]) \<longleftrightarrow> ascending rs \<and> 0 \<le> s \<and> s \<le> e \<and> (\<forall>r \<in> set rs. snd r < s)"
  by (auto simp: ascending_def sorted_wrt_append)

lemma ascending_remove1: "ascending rs \<Longrightarrow> ascending (remove1 r rs)"
proof (induction rs)
  case (Cons x xs)
  have "\<And>y. y \<in> set (remove1 r xs) \<Longrightarrow> y \<in> set xs" by (metis notin_set_remove1)
  with Cons show ?case by (auto simp: ascending_def)
qed (simp add: ascending_def)

lemma ascending_append: "ascending (xs @ ys) \<longleftrightarrow>
    ascending xs \<and> ascending ys \<and> (\<forall>a \<in> set xs. \<forall>b \<in> set ys. snd a < fst b)"
  by (auto simp: ascending_def sorted_wrt_append)

lemma ascending_distinct: "ascending rs \<Longrightarrow> distinct rs"
  by (induction rs) (auto simp: ascending_def)

text \<open>The ends of files grow with their place.\<close>

lemma file_ends_less:
  assumes "ascending (concat (map snd fs))" and "list_all file_of_ranges fs" and "i < j" and "j < length fs"
    and "r \<in> set (snd (fs ! j))"
  shows "end_offset (fst (fs ! i)) < fst r"
proof -
  have "fs = take j fs @ fs ! j # drop (Suc j) fs"
    using assms(4) by (rule id_take_nth_drop)
  then have "concat (map snd fs) = concat (map snd (take j fs)) @ snd (fs ! j) @ concat (map snd (drop (Suc j) fs))"
    by (metis concat.simps(2) concat_append list.simps(9) map_append)
  with assms(1) have asc: "\<forall>a \<in> set (concat (map snd (take j fs))). \<forall>b \<in> set (snd (fs ! j)). snd a < fst b"
    by (auto simp: ascending_append)
  have i: "fs ! i \<in> set (take j fs)"
    using assms(3,4) by (auto simp: in_set_conv_nth intro!: exI [of _ i])
  have f: "file_of_ranges (fs ! i)"
    using assms(2-4) by (simp add: list_all_length)
  then have "last (snd (fs ! i)) \<in> set (concat (map snd (take j fs)))"
    using i by (auto simp: file_of_ranges_def intro!: bexI [of _ "fs ! i"])
  with asc assms(5) f show ?thesis by (auto simp: file_of_ranges_def)
qed

lemma raise_to_mono: "x \<le> y \<Longrightarrow> raise_to (raise_to m x) y = raise_to m y"
  by (auto simp: raise_to_def split: option.splits)


section \<open>Preservation\<close>

lemma remove1_concat:
  "x \<notin> set xs \<Longrightarrow> remove1 x (xs @ ys) = xs @ remove1 x ys"
  by (simp add: remove1_append)

lemma spool_inv_parts:
  assumes "spool_inv a"
  shows "sp_accepted a = concat (map snd (sp_sealed a)) @ sp_buffer a"
    and "ascending (concat (map snd (sp_sealed a)) @ sp_buffer a)"
    and "ascending (concat (map snd (sp_sealed a)))"
    and "list_all file_of_ranges (sp_sealed a)"
    and "sp_done a \<le> length (sp_sealed a)"
proof -
  show "sp_accepted a = concat (map snd (sp_sealed a)) @ sp_buffer a"
    and asc: "ascending (concat (map snd (sp_sealed a)) @ sp_buffer a)"
    and "list_all file_of_ranges (sp_sealed a)" and "sp_done a \<le> length (sp_sealed a)"
    using assms by (simp_all add: spool_inv_def)
  from asc show "ascending (concat (map snd (sp_sealed a)))" by (simp only: ascending_append)
qed

lemma spool_inv_accept:
  assumes "spool_inv a" and "spool_allowed (Accept s e) a"
  shows "spool_inv (spool_step (Accept s e) a)"
proof -
  have "ascending ((concat (map snd (sp_sealed a)) @ sp_buffer a) @ [(s, e)])"
    using assms spool_inv_parts(1,2) [OF assms(1)] unfolding ascending_snoc by simp
  then show ?thesis
    using assms(1) by (simp add: spool_inv_def)
qed

lemma spool_inv_retract:
  assumes "spool_inv a" and "spool_allowed (Retract s e) a"
  shows "spool_inv (spool_step (Retract s e) a)"
proof -
  let ?c = "concat (map snd (sp_sealed a))"
  have "distinct (?c @ sp_buffer a)"
    using spool_inv_parts(2) [OF assms(1)] by (rule ascending_distinct)
  then have "(s, e) \<notin> set ?c" using assms(2) by auto
  then have "remove1 (s, e) (?c @ sp_buffer a) = ?c @ remove1 (s, e) (sp_buffer a)"
    by (rule remove1_concat)
  with assms(1) show ?thesis
    using ascending_remove1 [OF spool_inv_parts(2) [OF assms(1)], of "(s, e)"] by (simp add: spool_inv_def)
qed

lemma spool_inv_cut:
  assumes "spool_inv a" and "spool_allowed (Cut f) a"
  shows "spool_inv (spool_step (Cut f) a)"
proof -
  let ?fs = "sp_sealed a"
  have "slot_follows (slot (fst ((?fs @ [(f, sp_buffer a)]) ! i))) (slot (fst ((?fs @ [(f, sp_buffer a)]) ! Suc i)))"
    if "i < length ?fs" for i
  proof (cases "Suc i < length ?fs")
    case True
    with assms(1) show ?thesis by (simp add: spool_inv_def nth_append)
  next
    case False
    with that have "i = length ?fs - 1" "?fs \<noteq> []" by auto
    with assms(2) that show ?thesis by (auto simp: next_slot_def nth_append last_conv_nth)
  qed
  moreover have "slot (fst (hd (?fs @ [(f, sp_buffer a)]))) = (sp_first a, 0)"
    using assms by (cases ?fs) (auto simp: spool_inv_def next_slot_def)
  moreover have "sp_done a \<noteq> 0 \<Longrightarrow> (?fs @ [(f, sp_buffer a)]) ! (sp_done a - 1) = ?fs ! (sp_done a - 1)"
    using spool_inv_parts(5) [OF assms(1)] by (auto simp: nth_append)
  ultimately show ?thesis
    using assms by (simp add: spool_inv_def file_of_ranges_def)
qed

lemma spool_inv_landed:
  assumes "spool_inv a" and "spool_allowed Landed a"
  shows "spool_inv (spool_step Landed a)"
proof (cases "sp_done a = 0")
  case True
  with assms show ?thesis by (simp add: spool_inv_def Suc_le_eq)
next
  case False
  let ?f = "\<lambda>i. fst (sp_sealed a ! i)"
  have d: "sp_done a < length (sp_sealed a)" using assms(2) by simp
  have fr: "file_of_ranges (sp_sealed a ! sp_done a)"
    using assms(1) d by (simp add: spool_inv_def list_all_length)
  let ?r = "last (snd (sp_sealed a ! sp_done a))"
  from fr have l: "?r \<in> set (snd (sp_sealed a ! sp_done a))" by (simp add: file_of_ranges_def)
  then have "?r \<in> set (concat (map snd (sp_sealed a)))" using d by auto
  then have "fst ?r \<le> snd ?r"
    using spool_inv_parts(3) [OF assms(1)] unfolding ascending_def by blast
  moreover have "end_offset (?f (sp_done a - 1)) < fst ?r"
    using file_ends_less [OF spool_inv_parts(3,4) [OF assms(1)] _ d l] False by simp
  ultimately have "end_offset (?f (sp_done a - 1)) \<le> end_offset (?f (sp_done a))"
    using fr by (simp add: file_of_ranges_def)
  with assms False show ?thesis
    by (simp add: spool_inv_def raise_to_mono Suc_le_eq)
qed

lemma raise_to_grows: "\<exists>y. raise_to m off = Some y \<and> (case m of None \<Rightarrow> True | Some x \<Rightarrow> x \<le> y)"
  by (auto simp: raise_to_def split: option.splits)

interpretation spool: guarded_machine spool_step spool_allowed spool_inv spool_grows
proof
  fix a :: spool and ev
  assume "spool_inv a" and "spool_allowed ev a"
  then show "spool_inv (spool_step ev a)"
    by (cases ev) (blast intro: spool_inv_accept spool_inv_retract spool_inv_cut spool_inv_landed)+
next
  fix a :: spool show "spool_grows a a" by (auto simp: spool_grows_def split: option.splits)
next
  fix a b c :: spool
  assume "spool_grows a b" and "spool_grows b c"
  then show "spool_grows a c"
    by (auto simp: spool_grows_def split: option.splits intro: prefix_order.trans)
next
  fix a :: spool and ev
  assume "spool_inv a" and "spool_allowed ev a"
  then show "spool_grows a (spool_step ev a)"
    by (cases ev) (auto simp: spool_grows_def raise_to_def split: option.splits)
qed

lemma spool_inv_new: "spool_inv (spool_new first staged)"
  by (simp add: spool_inv_def spool_new_def ascending_def)

section \<open>The commit gate\<close>

text \<open>
  An accepted batch at or below the staged offset is in a durable file, unless the offset the writer was
  opened with already covered it.
\<close>

lemma spool_commit_gate:
  assumes "spool_inv a" and "(s, e) \<in> set (sp_accepted a)" and "sp_staged a = Some x" and "e \<le> x"
    and new: "case sp_init a of None \<Rightarrow> True | Some y \<Rightarrow> y < e"
  shows "\<exists>i < sp_done a. (s, e) \<in> set (snd (sp_sealed a ! i))"
proof -
  let ?fs = "sp_sealed a" and ?d = "sp_done a"
  note asc = spool_inv_parts(2) [OF assms(1)] and fr = spool_inv_parts(4) [OF assms(1)]
    and dl = spool_inv_parts(5) [OF assms(1)]
  have se: "s \<le> e"
    using asc assms(2) unfolding ascending_def spool_inv_parts(1) [OF assms(1)] by (metis fst_conv snd_conv)
  have d: "?d \<noteq> 0" and x: "x = (case sp_init a of Some p \<Rightarrow> max p (end_offset (fst (?fs ! (?d - 1))))
      | None \<Rightarrow> end_offset (fst (?fs ! (?d - 1))))"
    using assms(1,3,4) new by (auto simp: spool_inv_def raise_to_def split: if_splits option.splits)
  then have le: "e \<le> end_offset (fst (?fs ! (?d - 1)))"
    using assms(4) new by (auto split: option.splits)
  have k: "?d - 1 < length ?fs" using d dl by simp
  have "file_of_ranges (?fs ! (?d - 1))" using fr k by (simp add: list_all_length)
  then have last: "last (snd (?fs ! (?d - 1))) \<in> set (snd (?fs ! (?d - 1)))"
      "end_offset (fst (?fs ! (?d - 1))) = snd (last (snd (?fs ! (?d - 1))))"
    by (auto simp: file_of_ranges_def)
  have "(s, e) \<in> set (sp_buffer a) \<or> (\<exists>f \<in> set ?fs. (s, e) \<in> set (snd f))"
    using assms(2) unfolding spool_inv_parts(1) [OF assms(1)] by auto
  then consider (held) "(s, e) \<in> set (sp_buffer a)" | (cut) i where "i < length ?fs" "(s, e) \<in> set (snd (?fs ! i))"
    by (metis in_set_conv_nth)
  then show ?thesis
  proof cases
    case held
    have "last (snd (?fs ! (?d - 1))) \<in> set (concat (map snd ?fs))"
      using last(1) k by auto
    then have "snd (last (snd (?fs ! (?d - 1)))) < s"
      using asc held unfolding ascending_append by (metis fst_conv)
    with le last(2) se show ?thesis by simp
  next
    case cut
    have "\<not> ?d - 1 < i"
      using file_ends_less [OF spool_inv_parts(3) [OF assms(1)] fr _ cut] le se by fastforce
    with cut d show ?thesis by (intro exI [of _ i]) auto
  qed
qed

end

