(* ===== verification/Writer_Refinement.thy ===== *)
theory Writer_Refinement
  imports Writer_Machine Spool_Spec
begin

text \<open>
  The writer of \<open>Writer_Machine\<close> is the spool of \<open>Spool_Spec\<close>: a simulation relates the two, every event
  of the writer is at most one event of the spool, and what the relation says of the pipeline, of the
  calls in progress and of the notify queue is an invariant of the writer.
\<close>

section \<open>Fields that helpers leave alone\<close>

lemma raise_fields [simp]:
  "wr_state (raise_stream_stopped cx c w) = wr_state w"
  "wr_staging (raise_stream_stopped cx c w) = wr_staging w"
  "wr_notifier (raise_stream_stopped cx c w) = wr_notifier w"
  "wr_world (raise_stream_stopped cx c w) = wr_world w"
  "fenced (raise_stream_stopped cx c w) = fenced w"
  "order_fatal (raise_stream_stopped cx c w) = order_fatal w"
  "calls (raise_stream_stopped cx c w) = calls w"
  "seal_lock (raise_stream_stopped cx c w) = seal_lock w"
  "permit (raise_stream_stopped cx c w) = permit w"
  "seal_queue (raise_stream_stopped cx c w) = seal_queue w"
  "wr_progress (raise_stream_stopped cx c w) = wr_progress w"
  "render_task (raise_stream_stopped cx c w) = render_task w"
  "gzip_chan (raise_stream_stopped cx c w) = gzip_chan w"
  "gzip_task (raise_stream_stopped cx c w) = gzip_task w"
  "put_chan (raise_stream_stopped cx c w) = put_chan w"
  "put_task (raise_stream_stopped cx c w) = put_task w"
  "put_prev (raise_stream_stopped cx c w) = put_prev w"
  "alive (raise_stream_stopped cx c w) = alive w"
  by (simp_all add: raise_stream_stopped_def Let_def split: option.splits)

lemma durable_kept [simp]:
  "durable_seq (publish_terminal k s cs l p) = durable_seq p"
  "durable_seq (report_failure m s n b e p) = durable_seq p"
  "durable_seq (clear_failure q p) = durable_seq p"
  "durable_seq (snd (pipeline_gone p)) = durable_seq p"
  "durable_seq (land q p) = Some q"
  by (simp_all add: publish_terminal_def report_failure_def clear_failure_def pipeline_gone_def land_def
      Let_def split: option.splits)

text \<open>Two writers that differ only in alarms, fence, failures, world, locks and background tasks.\<close>

definition quiet :: "'s writer \<Rightarrow> 's writer \<Rightarrow> bool" where
  "quiet w w' \<longleftrightarrow>
     wr_state w' = wr_state w \<and> calls w' = calls w \<and> wr_notifier w' = wr_notifier w
     \<and> render_task w' = render_task w \<and> gzip_chan w' = gzip_chan w \<and> gzip_task w' = gzip_task w
     \<and> put_chan w' = put_chan w \<and> put_task w' = put_task w \<and> put_prev w' = put_prev w
     \<and> seal_queue w' = seal_queue w \<and> order_fatal w' = order_fatal w
     \<and> durable_seq (wr_progress w') = durable_seq (wr_progress w)"

lemma quiet_refl [simp]: "quiet w w"
  by (simp add: quiet_def)

lemma quiet_trans: "quiet u v \<Longrightarrow> quiet v w \<Longrightarrow> quiet u w"
  by (simp add: quiet_def)

lemma quiet_raise [simp]: "quiet w (raise_stream_stopped cx c w') \<longleftrightarrow> quiet w w'"
  by (simp add: quiet_def)

lemma quiet_set_progress:
  "(\<And>p. durable_seq (f p) = durable_seq p) \<Longrightarrow> quiet w (set_progress f w') \<longleftrightarrow> quiet w w'"
  by (simp add: quiet_def set_progress_def)

lemma quiet_fence [simp]: "quiet w (fence cx c r w') \<longleftrightarrow> quiet w w'"
  by (simp add: fence_def quiet_def)

lemma quiet_fenced_exit [simp]: "quiet w (fenced_exit cx c w') \<longleftrightarrow> quiet w w'"
  by (simp add: fenced_exit_def quiet_set_progress)

lemma quiet_cleared [simp]: "quiet w (cleared n m w') \<longleftrightarrow> quiet w w'"
  by (simp add: cleared_def quiet_set_progress)

lemma attempt_failed_cases:
  "\<exists>w'. quiet w w' \<and> (attempt_failed cx c m st n e ex rt w = ex w' \<or> attempt_failed cx c m st n e ex rt w = rt w')"
proof (cases "is_permanent e")
  case True
  then show ?thesis
    by (intro exI [of _ "raise_stream_stopped cx c (set_progress (publish_terminal Rotation st
          (Some (clone_error e)) (st @ '': '' @ display e)) (set_progress (report_failure m st n (is_permanent e) e) w))"])
       (simp add: attempt_failed_def quiet_set_progress)
next
  case False
  then show ?thesis
    by (intro exI [of _ "set_progress (report_failure m st n (is_permanent e) e) w"])
       (simp add: attempt_failed_def quiet_set_progress)
qed

section \<open>The files in the pipeline\<close>

definition put_files :: "put_pc \<Rightarrow> file_meta list" where
  "put_files p =
     (case p of PCheck f \<Rightarrow> [cp_meta f] | PWork f _ \<Rightarrow> [cp_meta f] | PLanded f \<Rightarrow> [cp_meta f]
      | PRecord f \<Rightarrow> [cp_meta f] | _ \<Rightarrow> [])"

definition gzip_files :: "gzip_pc \<Rightarrow> file_meta list" where
  "gzip_files g = (case g of GWork r _ \<Rightarrow> [rn_meta r] | GSend f \<Rightarrow> [cp_meta f] | _ \<Rightarrow> [])"

definition render_files :: "render_pc \<Rightarrow> file_meta list" where
  "render_files r = (case r of RWork f _ \<Rightarrow> [sl_meta f] | RSend f \<Rightarrow> [rn_meta f] | _ \<Rightarrow> [])"

text \<open>Oldest first; behind a stage that has exited nothing moves any more.\<close>

definition live :: "'s writer \<Rightarrow> file_meta list" where
  "live w =
     (if put_task w = PExit then []
      else put_files (put_task w) @ map cp_meta (put_chan w) @
        (if gzip_task w = GExit then []
         else gzip_files (gzip_task w) @ map rn_meta (gzip_chan w) @
           (if render_task w = RExit then []
            else render_files (render_task w) @ map sl_meta (seal_queue w))))"

definition running :: "'s writer \<Rightarrow> bool" where
  "running w \<longleftrightarrow> put_task w \<noteq> PExit \<and> gzip_task w \<noteq> GExit \<and> render_task w \<noteq> RExit"

definition landing :: "'s writer \<Rightarrow> compressed_file option" where
  "landing w = (case put_task w of PLand f \<Rightarrow> Some f | _ \<Rightarrow> None)"

definition serial_of :: "staged_file \<Rightarrow> i64" where
  "serial_of f = int (serial_nat (epoch_ms f) (seq f))"

definition meta_ok :: "file_meta \<Rightarrow> bool" where
  "meta_ok m \<longleftrightarrow> fm_serial_seq m = serial_of (fm_file m)"

section \<open>The simulation\<close>

definition prev_at :: "spool \<Rightarrow> nat \<Rightarrow> (u64 \<times> u32 \<times> i64) option" where
  "prev_at a n =
     (if n = 0 then None
      else let f = fst (sp_sealed a ! (n - 1)) in Some (epoch_ms f, seq f, end_offset f))"

definition sim_state :: "writer_state \<Rightarrow> spool \<Rightarrow> bool" where
  "sim_state st a \<longleftrightarrow>
     map snd (buffered st) = sp_buffer a \<and> staged_offset st = sp_staged a
     \<and> (\<forall>r \<in> set (sp_accepted a). \<exists>m. max_end_offset st = Some m \<and> snd r \<le> m)
     \<and> next_slot a (ws_epoch_ms st, next_seq st)
     \<and> last_sealed_seq st =
         (if sp_sealed a = [] then None else Some (serial_of (fst (last (sp_sealed a)))))"

text \<open>The last durable file is on its way into \<open>put_prev\<close> or there.\<close>

definition sim_prev :: "compressed_file option \<Rightarrow> (u64 \<times> u32 \<times> i64) option \<Rightarrow> spool \<Rightarrow> bool" where
  "sim_prev la prev a \<longleftrightarrow>
     (case la of
        Some f \<Rightarrow> sp_done a \<noteq> 0 \<and> fm_file (cp_meta f) = fst (sp_sealed a ! (sp_done a - 1))
          \<and> meta_ok (cp_meta f) \<and> prev = prev_at a (sp_done a - 1)
      | None \<Rightarrow> prev = prev_at a (sp_done a))"

definition sim_pipe :: "'s writer \<Rightarrow> spool \<Rightarrow> bool" where
  "sim_pipe w a \<longleftrightarrow>
     prefix (map fm_file (live w)) (drop (sp_done a) (map fst (sp_sealed a)))
     \<and> (running w \<longrightarrow> map fm_file (live w) = drop (sp_done a) (map fst (sp_sealed a)))
     \<and> list_all meta_ok (live w)
     \<and> sim_prev (landing w) (put_prev w) a
     \<and> durable_seq (wr_progress w) = map_option (\<lambda>(e, s, _). int (serial_nat e s)) (put_prev w)"

fun pc_purpose :: "pc \<Rightarrow> purpose option" where
  "pc_purpose (TryLock k) = Some k"
| "pc_purpose (ParkLock k) = Some k"
| "pc_purpose (TryReserve k) = Some k"
| "pc_purpose (ParkReserve k) = Some k"
| "pc_purpose (Granted k) = Some k"
| "pc_purpose (Cutting k) = Some k"
| "pc_purpose (Unbuffering s e prev err) = Some (ForAppend s e prev)"
| "pc_purpose _ = None"

text \<open>The append that owns an accepted batch, with the high-water mark it found.\<close>

definition owns :: "pc option \<Rightarrow> i64 \<Rightarrow> i64 \<Rightarrow> i64 option \<Rightarrow> bool" where
  "owns p s e prev \<longleftrightarrow> (case p of Some q \<Rightarrow> pc_purpose q = Some (ForAppend s e prev) | None \<Rightarrow> False)"

definition sim_calls :: "(nat \<Rightarrow> pc option) \<Rightarrow> spool \<Rightarrow> bool" where
  "sim_calls cs a \<longleftrightarrow>
     (\<forall>t s e prev. owns (cs t) s e prev \<longrightarrow>
        (s, e) \<in> set (sp_accepted a)
        \<and> (\<forall>r \<in> set (sp_accepted a). snd r < e \<longrightarrow> (\<exists>m. prev = Some m \<and> snd r \<le> m)))
     \<and> (\<forall>t t' s e prev prev'. owns (cs t) s e prev \<and> owns (cs t') s e prev' \<longrightarrow> t = t')
     \<and> (\<forall>t b s e. cs t = Some (Buffering b s e) \<longrightarrow> 0 \<le> s \<and> s \<le> e)"

text \<open>Below the floor lies everything the notifier has seen of this writer.\<close>

definition floor_of :: "spool \<Rightarrow> i64" where
  "floor_of a =
     (if sp_done a = 0 then int (serial_nat (sp_first a) 0)
      else serial_of (fst (sp_sealed a ! (sp_done a - 1))) + 1)"

definition below_floor :: "writer_ctx \<Rightarrow> notifier \<Rightarrow> i64 \<Rightarrow> bool" where
  "below_floor cx n fl \<longleftrightarrow>
     (\<forall>r \<in> set (Notify_Queue.pending n (group_of cx)). nr_serial_seq r < fl)
     \<and> (case nt_confirmed n (group_of cx) of Some (s, _) \<Rightarrow> s < fl | None \<Rightarrow> True)"

definition sim_board :: "writer_ctx \<Rightarrow> notifier \<Rightarrow> spool \<Rightarrow> bool" where
  "sim_board cx n a \<longleftrightarrow> board_inv n \<and> below_floor cx n (floor_of a)"

definition sim :: "writer_ctx \<Rightarrow> 's writer \<Rightarrow> spool \<Rightarrow> bool" where
  "sim cx w a \<longleftrightarrow>
     sim_state (wr_state w) a \<and> sim_pipe w a \<and> sim_calls (calls w) a \<and> sim_board cx (wr_notifier w) a
     \<and> order_fatal w = None"

lemma quiet_pipe:
  assumes "quiet w w'"
  shows "live w' = live w" "running w' = running w" "landing w' = landing w" "put_prev w' = put_prev w"
    "durable_seq (wr_progress w') = durable_seq (wr_progress w)"
  using assms by (simp_all add: quiet_def live_def running_def landing_def)

lemma sim_quiet: "quiet w w' \<Longrightarrow> sim cx w a \<Longrightarrow> sim cx w' a"
  unfolding sim_def sim_pipe_def by (simp only: quiet_pipe) (simp add: quiet_def)

lemma pipe_update [simp]:
  "live (w\<lparr>wr_state := st\<rparr>) = live w" "running (w\<lparr>wr_state := st\<rparr>) = running w"
  "landing (w\<lparr>wr_state := st\<rparr>) = landing w"
  "live (w\<lparr>calls := cs\<rparr>) = live w" "running (w\<lparr>calls := cs\<rparr>) = running w"
  "landing (w\<lparr>calls := cs\<rparr>) = landing w"
  "live (w\<lparr>wr_notifier := n\<rparr>) = live w" "running (w\<lparr>wr_notifier := n\<rparr>) = running w"
  "landing (w\<lparr>wr_notifier := n\<rparr>) = landing w"
  by (simp_all add: live_def running_def landing_def)

lemma sim_put_state: "sim_state st a \<Longrightarrow> sim cx w a \<Longrightarrow> sim cx (w\<lparr>wr_state := st\<rparr>) a"
  unfolding sim_def sim_pipe_def pipe_update by simp

lemma sim_put_calls: "sim_calls cs a \<Longrightarrow> sim cx w a \<Longrightarrow> sim cx (w\<lparr>calls := cs\<rparr>) a"
  unfolding sim_def sim_pipe_def pipe_update by simp

lemma sim_put_notifier: "sim_board cx n a \<Longrightarrow> sim cx w a \<Longrightarrow> sim cx (w\<lparr>wr_notifier := n\<rparr>) a"
  unfolding sim_def sim_pipe_def pipe_update by simp

lemma sim_pipe_update [simp]:
  "sim_pipe (w\<lparr>wr_state := st\<rparr>) a = sim_pipe w a" "sim_pipe (w\<lparr>calls := cs\<rparr>) a = sim_pipe w a"
  "sim_pipe (w\<lparr>wr_notifier := n\<rparr>) a = sim_pipe w a"
  unfolding sim_pipe_def pipe_update by simp_all

lemma sim_pipe_cong:
  assumes "sp_done a' = sp_done a" and "sp_sealed a' = sp_sealed a"
  shows "sim_pipe w a' = sim_pipe w a"
  unfolding sim_pipe_def sim_prev_def prev_at_def assms by (rule refl)

lemma sim_pipe_buffer [simp]:
  "sim_pipe w (a\<lparr>sp_accepted := xs, sp_buffer := ys\<rparr>) = sim_pipe w a"
  by (rule sim_pipe_cong) simp_all

lemma floor_buffer [simp]: "floor_of (a\<lparr>sp_accepted := xs, sp_buffer := ys\<rparr>) = floor_of a"
  by (simp add: floor_of_def)

text \<open>A stage that moves a file on, or exits and takes everything behind it along.\<close>

lemma sim_shrink:
  assumes "sim cx w a" and "prefix (live w') (live w)" and "running w' \<Longrightarrow> running w \<and> live w' = live w"
    and "landing w' = landing w"
    and "wr_state w' = wr_state w" "calls w' = calls w" "wr_notifier w' = wr_notifier w"
      "order_fatal w' = order_fatal w" "put_prev w' = put_prev w"
      "durable_seq (wr_progress w') = durable_seq (wr_progress w)"
  shows "sim cx w' a"
proof -
  from assms(2) obtain zs where "live w = live w' @ zs" by (auto simp: prefix_def)
  with assms show ?thesis
    by (auto simp: sim_def sim_pipe_def intro: prefix_order.trans [rotated] append_prefixD)
qed


section \<open>Steps of the stages\<close>

lemma sim_render_exit: "sim cx w a \<Longrightarrow> sim cx (w\<lparr>render_task := RExit\<rparr>) a"
  by (rule sim_shrink) (auto simp: live_def running_def landing_def)

lemma sim_gzip_exit: "sim cx w a \<Longrightarrow> sim cx (w\<lparr>gzip_task := GExit\<rparr>) a"
  by (rule sim_shrink) (auto simp: live_def running_def landing_def)

lemma sim_put_exit: "landing w = None \<Longrightarrow> sim cx w a \<Longrightarrow> sim cx (w\<lparr>put_task := PExit\<rparr>) a"
  by (rule sim_shrink) (auto simp: live_def running_def landing_def)

lemma sim_fenced: "sim cx w a \<Longrightarrow> sim cx (fenced_exit cx c w) a"
  using sim_quiet [of w "fenced_exit cx c w"] by simp

lemma sim_state_avg: "sim_state (st\<lparr>avg_row_bytes := x\<rparr>) a \<longleftrightarrow> sim_state st a"
  by (simp add: sim_state_def)

lemma sim_render_work:
  assumes "sim cx w a" and "render_task w = RWork f n" and "render_files p = [sl_meta f]" and "p \<noteq> RExit"
  shows "sim cx (w\<lparr>render_task := p\<rparr>) a"
  by (rule sim_shrink [OF assms(1)])
     (use assms in \<open>auto simp: live_def running_def landing_def render_files_def\<close>)

lemma sim_gzip_work:
  assumes "sim cx w a" and "gzip_task w = GWork f n" and "gzip_files p = [rn_meta f]" and "p \<noteq> GExit"
  shows "sim cx (w\<lparr>gzip_task := p\<rparr>) a"
  by (rule sim_shrink [OF assms(1)])
     (use assms in \<open>auto simp: live_def running_def landing_def gzip_files_def\<close>)

lemma sim_put_work:
  assumes "sim cx w a" and "put_files (put_task w) = [m]" and "put_files p = [m]"
  shows "sim cx (w\<lparr>put_task := p\<rparr>) a"
  by (rule sim_shrink [OF assms(1)])
     (use assms in \<open>auto simp: live_def running_def landing_def put_files_def split: put_pc.splits\<close>)

lemma sim_render_step:
  assumes "sim cx w a"
  shows "sim cx (render_step lb cx c join w) a"
proof (cases "render_task w")
  case RRecv
  with assms show ?thesis
    by (auto simp: render_step_def live_def running_def landing_def render_files_def
        intro: sim_render_exit intro!: sim_shrink [OF assms] split: list.splits)
next
  case (RSend r)
  with assms show ?thesis
    by (auto simp: render_step_def live_def running_def landing_def render_files_def
        intro: sim_render_exit intro!: sim_shrink [OF assms])
next
  case (RWork f n)
  have "sim cx (render_attempt lb cx c join f n w) a"
  proof (cases "render_once lb cx join (sl_batches f)")
    case (Inl e)
    from attempt_failed_cases obtain w' where q: "quiet w w'" and
      w': "render_attempt lb cx c join f n w = w'\<lparr>render_task := RExit\<rparr> \<or>
        render_attempt lb cx c join f n w = w'\<lparr>render_task := RWork f (n + 1)\<rparr>"
      unfolding render_attempt_def Inl sum.case by metis
    have "render_task w' = RWork f n" using q RWork by (simp add: quiet_def)
    with sim_quiet [OF q assms] have "sim cx (w'\<lparr>render_task := RExit\<rparr>) a"
        "sim cx (w'\<lparr>render_task := RWork f (n + 1)\<rparr>) a"
      by (simp_all add: render_files_def sim_render_exit sim_render_work)
    with w' show ?thesis by auto
  next
    case (Inr out)
    let ?w = "cleared n (sl_meta f) w"
    have q: "quiet w ?w" by simp
    have w: "sim cx ?w a" "render_task ?w = RWork f n"
      using sim_quiet [OF q assms] q RWork by (simp_all add: quiet_def)
    obtain body rows where out: "out = (body, rows)" by fastforce
    let ?r = "\<lparr>rn_meta = sl_meta f, rn_body = body, rn_rows = rows\<rparr>"
    have s1: "sim cx (?w\<lparr>render_task := RSend ?r\<rparr>) a"
      using w by (simp add: render_files_def sim_render_work)
    then have "sim_state (wr_state ?w) a" by (simp add: sim_def)
    then have "sim cx (?w\<lparr>render_task := RSend ?r, wr_state := (if rows > 0 then (wr_state ?w)\<lparr>avg_row_bytes :=
        Some (f64_div (f64_of_nat (length body)) (f64_of_nat rows))\<rparr> else wr_state ?w)\<rparr>) a"
      using s1 by (intro sim_put_state) (simp_all add: sim_state_avg)
    then show ?thesis by (simp add: render_attempt_def Inr out Let_def)
  qed
  with RWork assms show ?thesis
    by (auto simp: render_step_def intro: sim_render_exit sim_fenced)
qed (use assms in \<open>simp add: render_step_def\<close>)


lemma sim_gzip_step:
  assumes "sim cx w a"
  shows "sim cx (gzip_step lb cx c join w) a"
proof (cases "gzip_task w")
  case GRecv
  with assms show ?thesis
    by (auto simp: gzip_step_def live_def running_def landing_def gzip_files_def compressed_of_def
        intro: sim_gzip_exit intro!: sim_shrink [OF assms] split: list.splits)
next
  case (GSend r)
  with assms show ?thesis
    by (auto simp: gzip_step_def live_def running_def landing_def gzip_files_def
        intro: sim_gzip_exit intro!: sim_shrink [OF assms])
next
  case (GWork f n)
  have "sim cx (gzip_attempt lb cx c join f n w) a"
  proof (cases "gzip_once lb join (rn_body f)")
    case (Inl e)
    from attempt_failed_cases obtain w' where q: "quiet w w'" and
      w': "gzip_attempt lb cx c join f n w = w'\<lparr>gzip_task := GExit\<rparr> \<or>
        gzip_attempt lb cx c join f n w = w'\<lparr>gzip_task := GWork f (n + 1)\<rparr>"
      unfolding gzip_attempt_def Inl sum.case by metis
    have "gzip_task w' = GWork f n" using q GWork by (simp add: quiet_def)
    with sim_quiet [OF q assms] have "sim cx (w'\<lparr>gzip_task := GExit\<rparr>) a"
        "sim cx (w'\<lparr>gzip_task := GWork f (n + 1)\<rparr>) a"
      by (simp_all add: gzip_files_def sim_gzip_exit sim_gzip_work)
    with w' show ?thesis by auto
  next
    case (Inr out)
    let ?w = "cleared n (rn_meta f) w"
    have q: "quiet w ?w" by simp
    have "gzip_task ?w = GWork f n" using q GWork by (simp add: quiet_def)
    with sim_quiet [OF q assms] show ?thesis
      by (auto simp: gzip_attempt_def Inr gzip_files_def compressed_of_def intro!: sim_gzip_work)
  qed
  with GWork assms show ?thesis
    by (auto simp: gzip_step_def intro: sim_gzip_exit sim_fenced)
qed (use assms in \<open>simp add: gzip_step_def\<close>)

text \<open>The order check holds for the next file: the tripwire stays quiet.\<close>

lemma check_order_follows:
  "check_order (Some (e, s, off)) f = Inr () \<longleftrightarrow> slot_follows (e, s) (slot f)"
  by (simp add: check_order_def slot_follows_def slot_def)

lemma prefix_drop_head:
  assumes "prefix (x # xs) (drop n ys)"
  shows "n < length ys \<and> ys ! n = x"
proof -
  from assms obtain zs where "drop n ys = x # zs" by (auto simp: prefix_def)
  then show ?thesis by (metis drop_all list.distinct(1) not_le nth_via_drop)
qed

lemma sim_head:
  assumes "sim cx w a" and "live w = m # ms"
  shows "sp_done a < length (sp_sealed a)" "fst (sp_sealed a ! sp_done a) = fm_file m" "meta_ok m"
  using assms prefix_drop_head [of "fm_file m" "map fm_file ms" "sp_done a" "map fst (sp_sealed a)"]
  by (auto simp: sim_def sim_pipe_def)

lemma sim_check_order:
  assumes "sim cx w a" and "spool_inv a" and "put_task w = PCheck f"
  shows "check_order (put_prev w) (fm_file (cp_meta f)) = Inr ()"
proof -
  have pv: "put_prev w = prev_at a (sp_done a)"
    using assms(1,3) by (simp add: sim_def sim_pipe_def sim_prev_def landing_def)
  have d: "sp_done a < length (sp_sealed a)" "fst (sp_sealed a ! sp_done a) = fm_file (cp_meta f)"
    using sim_head [OF assms(1)] assms(3) by (simp_all add: live_def put_files_def)
  show ?thesis
  proof (cases "sp_done a = 0")
    case False
    with d assms(2) have "slot_follows (slot (fst (sp_sealed a ! (sp_done a - 1)))) (slot (fm_file (cp_meta f)))"
      unfolding spool_inv_def by (metis Suc_diff_1 gr0I)
    with False pv show ?thesis
      by (simp add: prev_at_def Let_def check_order_follows slot_def)
  qed (simp add: pv prev_at_def check_order_def)
qed


section \<open>A file becomes durable\<close>

lemma board_inv_same:
  assumes "\<And>g. Notify_Queue.pending n' g = Notify_Queue.pending n g" and "nt_confirmed n' = nt_confirmed n"
  shows "board_inv n' \<longleftrightarrow> board_inv n"
  using assms by (simp add: board_inv_def in_order_def)

lemma board_enqueue:
  assumes "board_inv n" and "below_floor cx n fl" and "nr_group r = group_of cx" and "fl \<le> nr_serial_seq r"
  shows "board_inv (snd (enqueue b r n))" and "below_floor cx (snd (enqueue b r n)) (nr_serial_seq r + 1)"
proof -
  show "board_inv (snd (enqueue b r n))"
  proof (cases b)
    case True
    have "board_allowed (Enqueue r) n"
      using assms by (fastforce simp: below_floor_def split: option.splits)
    from board.inv_guarded [OF assms(1) this] True show ?thesis by simp
  next
    case False
    then have "board_inv (snd (enqueue b r n)) \<longleftrightarrow> board_inv n"
      by (intro board_inv_same) (simp_all add: pending_enqueue)
    with assms(1) show ?thesis by simp
  qed
  show "below_floor cx (snd (enqueue b r n)) (nr_serial_seq r + 1)"
    using assms(2-4) by (auto simp: below_floor_def pending_enqueue split: option.splits)
qed

lemma sealed_slot_ok:
  "spool_inv a \<Longrightarrow> i < length (sp_sealed a) \<Longrightarrow>
     slot_ok (epoch_ms (fst (sp_sealed a ! i))) (seq (fst (sp_sealed a ! i)))"
  using spool_inv_parts(4) by (fastforce simp: list_all_length file_of_ranges_def)

lemma serial_step:
  assumes "spool_inv a" and "Suc i < length (sp_sealed a)"
  shows "serial_of (fst (sp_sealed a ! i)) < serial_of (fst (sp_sealed a ! Suc i))"
proof -
  have "slot_follows (slot (fst (sp_sealed a ! i))) (slot (fst (sp_sealed a ! Suc i)))"
    using assms by (simp add: spool_inv_def)
  from slot_follows_serial [OF this] sealed_slot_ok [OF assms(1), of i] assms(2) show ?thesis
    by (simp add: serial_of_def slot_def)
qed

lemma floor_le:
  assumes "spool_inv a" and "sp_done a < length (sp_sealed a)"
  shows "floor_of a \<le> serial_of (fst (sp_sealed a ! sp_done a))"
proof (cases "sp_done a = 0")
  case True
  with assms have "slot (fst (sp_sealed a ! 0)) = (sp_first a, 0)"
    by (auto simp: spool_inv_def hd_conv_nth)
  with True show ?thesis by (simp add: floor_of_def serial_of_def slot_def)
next
  case False
  with serial_step [OF assms(1), of "sp_done a - 1"] assms(2) show ?thesis by (simp add: floor_of_def)
qed

lemma sim_record:
  assumes "sim cx w a" and "spool_inv a" and "put_task w = PRecord f"
  shows "spool_allowed Landed a \<and>
    sim cx ((record_durable cx b (cp_meta f) w)\<lparr>put_task := PLand f\<rparr>) (spool_step Landed a)"
proof -
  obtain ms where l: "live w = cp_meta f # ms"
    using assms(3) by (simp add: live_def put_files_def)
  note h = sim_head [OF assms(1) l]
  let ?m = "cp_meta f"
  let ?w' = "(record_durable cx b ?m w)\<lparr>put_task := PLand f\<rparr>"
  let ?a = "spool_step Landed a"
  have ys: "drop (sp_done a) (map fst (sp_sealed a))
      = fm_file ?m # drop (Suc (sp_done a)) (map fst (sp_sealed a))"
    using h(1,2) by (metis Cons_nth_drop_Suc length_map nth_map)
  have live': "live ?w' = ms" "running ?w' = running w" "landing ?w' = Some f" "landing w = None"
    using l assms(3)
    by (auto simp: live_def put_files_def record_durable_def Let_def running_def landing_def)
  have other: "calls ?w' = calls w" "order_fatal ?w' = order_fatal w" "put_prev ?w' = put_prev w"
      "wr_progress ?w' = wr_progress w"
    by (simp_all add: record_durable_def Let_def)
  have pipe: "sim_pipe ?w' ?a"
    using assms(1) l live' ys h
    by (simp add: sim_def sim_pipe_def sim_prev_def other prev_at_def Let_def)
  have st: "sim_state (wr_state ?w') ?a"
    using assms(1) h(2)
    by (auto simp: sim_def sim_state_def record_durable_def Let_def raise_to_def next_slot_def split: option.splits)
  have cl: "sim_calls (calls ?w') ?a"
    using assms(1) by (simp add: sim_def sim_calls_def other)
  let ?r = "file_request cx (url_base (current (wr_staging w))) ?m"
  have r: "nr_group ?r = group_of cx" "nr_serial_seq ?r = serial_of (fst (sp_sealed a ! sp_done a))"
    using h(2,3) by (simp_all add: file_request_def meta_ok_def)
  have "board_inv (wr_notifier w)" "below_floor cx (wr_notifier w) (floor_of a)"
    using assms(1) by (simp_all add: sim_def sim_board_def)
  from board_enqueue [OF this r(1)] floor_le [OF assms(2) h(1)] r(2)
  have "board_inv (snd (enqueue b ?r (wr_notifier w)))"
      "below_floor cx (snd (enqueue b ?r (wr_notifier w))) (floor_of ?a)"
    by (simp_all add: floor_of_def)
  then have bd: "sim_board cx (wr_notifier ?w') ?a"
    by (simp add: sim_board_def record_durable_def Let_def)
  from h(1) pipe st cl bd assms(1) show ?thesis by (simp add: sim_def other)
qed

lemma sim_land:
  assumes "sim cx w a" and "put_task w = PLand f"
  shows "sim cx (put_step lb cx c b w) a"
proof -
  let ?m = "cp_meta f"
  let ?w' = "put_step lb cx c b w"
  have lw: "live ?w' = live w" "running ?w' = running w" "landing ?w' = None" "landing w = Some f"
    using assms(2) by (simp_all add: live_def running_def landing_def put_step_def put_files_def
        set_progress_def Let_def)
  have other: "wr_state ?w' = wr_state w" "calls ?w' = calls w" "order_fatal ?w' = order_fatal w"
      "wr_notifier ?w' = wr_notifier w" "durable_seq (wr_progress ?w') = Some (fm_serial_seq ?m)"
      "put_prev ?w' = Some (epoch_ms (fm_file ?m), seq (fm_file ?m), end_offset (fm_file ?m))"
    using assms(2) by (simp_all add: put_step_def set_progress_def Let_def)
  have m: "sp_done a \<noteq> 0" "fst (sp_sealed a ! (sp_done a - 1)) = fm_file ?m" "meta_ok ?m"
    using assms(1) lw(4) by (simp_all add: sim_def sim_pipe_def sim_prev_def)
  then have "prev_at a (sp_done a) = put_prev ?w'"
    unfolding other prev_at_def Let_def by simp
  moreover have "durable_seq (wr_progress ?w') = map_option (\<lambda>(e, s, _). int (serial_nat e s)) (put_prev ?w')"
    using m(3) unfolding other by (simp add: meta_ok_def serial_of_def)
  moreover have "sim_state (wr_state w) a" "sim_calls (calls w) a" "sim_board cx (wr_notifier w) a"
      "order_fatal w = None" and p: "sim_pipe w a"
    using assms(1) by (simp_all add: sim_def)
  moreover have "prefix (map fm_file (live w)) (drop (sp_done a) (map fst (sp_sealed a)))"
      "running w \<longrightarrow> map fm_file (live w) = drop (sp_done a) (map fst (sp_sealed a))" "list_all meta_ok (live w)"
    using p by (simp_all add: sim_pipe_def)
  ultimately show ?thesis
    unfolding sim_def sim_pipe_def sim_prev_def lw other(1-4) option.case by metis
qed


text \<open>The event of the spool that a step of the writer is.\<close>

definition call_event ::
  "'s libs \<Rightarrow> writer_ctx \<Rightarrow> reading \<Rightarrow> pc option \<Rightarrow> writer_state \<Rightarrow> spool_event option" where
  "call_event lb cx c p st =
     (case p of
        Some (Buffering b s e) \<Rightarrow>
          (case fst (push_batch lb (wx_cfg cx) (mono c) b s e st) of Inr _ \<Rightarrow> Some (Accept s e) | Inl _ \<Rightarrow> None)
      | Some (Unbuffering s e prev _) \<Rightarrow> if fst (unbuffer lb s e prev st) then Some (Retract s e) else None
      | Some (Cutting k) \<Rightarrow>
          (case fst (seal cx c (aged_only k) st) of
             Inr (Some f) \<Rightarrow> Some (Cut (fm_file (sl_meta f))) | _ \<Rightarrow> None)
      | _ \<Rightarrow> None)"

definition put_event :: "put_pc \<Rightarrow> spool_event option" where
  "put_event p = (case p of PRecord _ \<Rightarrow> Some Landed | _ \<Rightarrow> None)"

fun spool_event_of ::
  "'s libs \<Rightarrow> writer_ctx \<Rightarrow> reading \<times> 's writer_event \<Rightarrow> 's writer \<Rightarrow> spool_event option" where
  "spool_event_of lb cx (c, Run t b) w = call_event lb cx c (calls w t) (wr_state w)"
| "spool_event_of lb cx (c, PutStep up) w = put_event (put_task w)"
| "spool_event_of lb cx (c, ev) w = None"

definition sim_follows :: "writer_ctx \<Rightarrow> spool_event option \<Rightarrow> 's writer \<Rightarrow> spool \<Rightarrow> bool" where
  "sim_follows cx ev w a \<longleftrightarrow>
     sim cx w (after spool_step ev a) \<and> (\<forall>e. ev = Some e \<longrightarrow> spool_allowed e a)"

lemma sim_follows_same [intro]: "sim cx w a \<Longrightarrow> sim_follows cx None w a"
  by (simp add: sim_follows_def)

lemma sim_follows_event: "spool_allowed ev a \<Longrightarrow> sim cx w (spool_step ev a) \<Longrightarrow> sim_follows cx (Some ev) w a"
  by (auto simp: sim_follows_def)

lemma sim_put_attempt:
  assumes "sim cx w a" and "put_task w = PWork f n"
  shows "sim cx (put_attempt lb cx c f n w) a"
proof -
  obtain r h s where put: "put_once lb (fm_object_key (cp_meta f)) (cp_payload f) (wr_staging w) (wr_world w) = (r, h, s)"
    by (metis prod_cases3)
  let ?w = "w\<lparr>wr_staging := h, wr_world := s\<rparr>"
  have q: "quiet w ?w" by (simp add: quiet_def)
  show ?thesis
  proof (cases r)
    case (Inl e)
    from attempt_failed_cases obtain w' where q': "quiet ?w w'" and
      w': "put_attempt lb cx c f n w = w'\<lparr>put_task := PExit\<rparr> \<or>
        put_attempt lb cx c f n w = w'\<lparr>put_task := PWork f (n + 1)\<rparr>"
      unfolding put_attempt_def put Inl sum.case Let_def prod.case by metis
    have p: "put_task w' = PWork f n" using q' assms(2) by (simp add: quiet_def)
    have "sim cx w' a" by (rule sim_quiet [OF quiet_trans [OF q q'] assms(1)])
    with p have "sim cx (w'\<lparr>put_task := PExit\<rparr>) a" "sim cx (w'\<lparr>put_task := PWork f (n + 1)\<rparr>) a"
      by (simp_all add: put_files_def landing_def sim_put_exit sim_put_work)
    with w' show ?thesis by auto
  next
    case (Inr u)
    let ?v = "cleared n (cp_meta f) ?w"
    have q': "quiet w ?v" using q by simp
    have "put_task ?v = PWork f n" using q' assms(2) by (simp add: quiet_def)
    with sim_quiet [OF q' assms(1)] show ?thesis
      by (simp add: put_attempt_def put Inr put_files_def sim_put_work)
  qed
qed

lemma sim_put_step:
  assumes "sim cx w a" and "spool_inv a"
  shows "sim_follows cx (put_event (put_task w)) (put_step lb cx c b w) a"
proof (cases "put_task w")
  case PRecv
  with assms show ?thesis
    by (auto simp: put_event_def put_step_def live_def running_def landing_def put_files_def
        intro: sim_put_exit intro!: sim_shrink [OF assms(1)] split: list.splits)
next
  case (PCheck f)
  have "landing w = None" "landing (fenced_exit cx c w) = None"
    using PCheck quiet_pipe(3) [of w "fenced_exit cx c w"] by (simp_all add: landing_def)
  then have "sim cx (w\<lparr>put_task := PExit\<rparr>) a" "sim cx ((fenced_exit cx c w)\<lparr>put_task := PExit\<rparr>) a"
    using assms(1) by (blast intro: sim_put_exit sim_fenced)+
  moreover have "sim cx (w\<lparr>put_task := PWork f 0\<rparr>) a"
    using PCheck by (intro sim_put_work [OF assms(1)]) (simp_all add: put_files_def)
  ultimately show ?thesis
    using PCheck sim_check_order [OF assms PCheck] by (auto simp: put_step_def put_event_def)
next
  case (PWork f n)
  have "landing w = None" "landing (fenced_exit cx c w) = None"
    using PWork quiet_pipe(3) [of w "fenced_exit cx c w"] by (simp_all add: landing_def)
  then have "sim cx (w\<lparr>put_task := PExit\<rparr>) a" "sim cx ((fenced_exit cx c w)\<lparr>put_task := PExit\<rparr>) a"
    using assms(1) by (blast intro: sim_put_exit sim_fenced)+
  with PWork sim_put_attempt [OF assms(1) PWork] show ?thesis by (auto simp: put_step_def put_event_def)
next
  case (PLanded f)
  have "landing w = None" "landing (fenced_exit cx c w) = None"
    using PLanded quiet_pipe(3) [of w "fenced_exit cx c w"] by (simp_all add: landing_def)
  then have "sim cx (w\<lparr>put_task := PExit\<rparr>) a" "sim cx ((fenced_exit cx c w)\<lparr>put_task := PExit\<rparr>) a"
    using assms(1) by (blast intro: sim_put_exit sim_fenced)+
  moreover have "sim cx (w\<lparr>put_task := PRecord f\<rparr>) a"
    using PLanded by (intro sim_put_work [OF assms(1)]) (simp_all add: put_files_def)
  ultimately show ?thesis using PLanded by (auto simp: put_step_def put_event_def)
next
  case (PRecord f)
  then have "put_step lb cx c b w = (record_durable cx b (cp_meta f) w)\<lparr>put_task := PLand f\<rparr>"
    by (simp add: put_step_def)
  with sim_record [OF assms PRecord, of b] PRecord show ?thesis
    by (simp add: sim_follows_event put_event_def)
next
  case (PLand f)
  from sim_land [OF assms(1) PLand] PLand show ?thesis by (auto simp: put_event_def)
qed (use assms in \<open>auto simp: put_step_def put_event_def\<close>)

section \<open>Calls\<close>

text \<open>A call moves on: what it owns afterwards it owned before.\<close>

lemma sim_goto:
  assumes "sim cx w a" and "\<And>s e prev. owns (Some p) s e prev \<Longrightarrow> owns (calls w t) s e prev"
    and "\<And>b s e. p = Buffering b s e \<Longrightarrow> 0 \<le> s \<and> s \<le> e"
  shows "sim cx (goto t p w) a"
proof -
  let ?cs = "(calls w)(t \<mapsto> p)"
  have o: "owns (calls w t') s e prev" if "owns (?cs t') s e prev" for t' s e prev
    using that assms(2) by (cases "t' = t") auto
  have b: "0 \<le> s \<and> s \<le> e" if "?cs t' = Some (Buffering b s e)" for t' b s e
    using that assms(1,3) by (cases "t' = t") (auto simp: sim_def sim_calls_def)
  have "sim_calls (calls w) a" using assms(1) by (simp add: sim_def)
  then have "sim_calls ?cs a"
    using o b unfolding sim_calls_def by meson
  then show ?thesis using assms(1) by (simp add: goto_def sim_put_calls)
qed

lemma owns_sealed_result: "owns (Some (sealed_result k r)) s e prev \<Longrightarrow> k = ForAppend s e prev"
  by (auto simp: owns_def sealed_result_def split: purpose.splits sum.splits option.splits if_splits)

lemma sealed_result_not_buffering: "sealed_result k r \<noteq> Buffering b s e"
  by (auto simp: sealed_result_def split: purpose.splits sum.splits option.splits)

lemma owns_purpose: "pc_purpose p = Some k \<Longrightarrow> owns (Some p) s e prev \<longleftrightarrow> k = ForAppend s e prev"
  by (auto simp: owns_def)

lemma sim_sealed_result:
  assumes "sim cx w a" and "calls w t = Some p" and "pc_purpose p = Some k"
  shows "sim cx (goto t (sealed_result k r) w) a"
  using assms(2,3)
  by (intro sim_goto [OF assms(1)])
     (auto dest: owns_sealed_result simp: owns_purpose sealed_result_not_buffering)

lemma sim_seal_return:
  assumes "sim cx w a" and "calls w t = Some p" and "pc_purpose p = Some k"
  shows "sim cx (seal_return t k r w) a"
proof -
  have "quiet w (unlock w)" by (simp add: quiet_def unlock_def)
  from sim_quiet [OF this assms(1)] show ?thesis
    unfolding seal_return_def
    by (rule sim_sealed_result) (use assms(2,3) in \<open>simp_all add: unlock_def\<close>)
qed

lemma sim_same_purpose:
  assumes "sim cx w a" and "calls w t = Some p" and "pc_purpose p = Some k" and "pc_purpose q = Some k"
  shows "sim cx (goto t q w) a"
  using assms(2-4) by (intro sim_goto [OF assms(1)]) (auto simp: owns_purpose)

lemma sim_no_purpose:
  assumes "sim cx w a" and "pc_purpose p = None" and "\<And>b s e. p \<noteq> Buffering b s e"
  shows "sim cx (goto t p w) a"
  using assms(2,3) by (intro sim_goto [OF assms(1)]) (auto simp: owns_def)


lemma sim_run_lock:
  assumes "sim cx w a" and "calls w t = Some p" and "pc_purpose p = Some k"
  shows "sim cx (run_lock cx t parked give_up k w) a"
proof -
  let ?w = "w\<lparr>seal_lock := Some t\<rparr>"
  have "sim cx ?w a" using assms(1) by (rule sim_quiet [rotated]) (simp add: quiet_def)
  then have "sim cx (goto t (TryReserve k) ?w) a"
    by (rule sim_same_purpose) (use assms(2,3) in simp_all)
  moreover have "sim cx (goto t (ParkLock k) w) a"
    by (rule sim_same_purpose [OF assms]) simp
  ultimately show ?thesis
    using sim_sealed_result [OF assms] by (auto simp: run_lock_def split: option.splits)
qed

lemma sim_seal_gone:
  assumes "sim cx w a" and "calls w t = Some p" and "pc_purpose p = Some k"
  shows "sim cx (seal_gone cx t k w) a"
proof -
  obtain e pr where pg: "pipeline_gone (wr_progress w) = (e, pr)" by fastforce
  then have "durable_seq pr = durable_seq (wr_progress w)"
    using durable_kept(4) [of "wr_progress w"] by simp
  then have "quiet w (w\<lparr>wr_progress := pr\<rparr>)" by (simp add: quiet_def)
  from sim_quiet [OF this assms(1)] have "sim cx (seal_return t k (Inl e) (w\<lparr>wr_progress := pr\<rparr>)) a"
    by (rule sim_seal_return) (use assms(2,3) in simp_all)
  then show ?thesis
    using sim_seal_return [OF assms] by (auto simp: seal_gone_def pg split: sum.splits)
qed

lemma sim_run_reserve:
  assumes "sim cx w a" and "calls w t = Some p" and "pc_purpose p = Some k"
  shows "sim cx (run_reserve cx t parked give_up k w) a"
proof -
  let ?w = "w\<lparr>permit := True\<rparr>"
  have "sim cx ?w a" using assms(1) by (rule sim_quiet [rotated]) (simp add: quiet_def)
  then have "sim cx (goto t (Granted k) ?w) a"
    by (rule sim_same_purpose) (use assms(2,3) in simp_all)
  moreover have "sim cx (goto t (ParkReserve k) w) a"
    by (rule sim_same_purpose [OF assms]) simp
  ultimately show ?thesis
    using sim_seal_return [OF assms] sim_seal_gone [OF assms]
    by (auto simp: run_reserve_def split: option.splits)
qed

section \<open>A batch is accepted\<close>

lemma sim_accept_calls:
  assumes "sim_calls cs a" and "spool_inv a" and "spool_allowed (Accept s e) a"
    and "\<forall>r \<in> set (sp_accepted a). \<exists>m. prev = Some m \<and> snd r \<le> m"
    and "\<And>s' e' prev'. owns (Some p) s' e' prev' \<Longrightarrow> s' = s \<and> e' = e \<and> prev' = prev"
    and "\<And>b s e. p \<noteq> Buffering b s e"
  shows "sim_calls (cs(t \<mapsto> p)) (spool_step (Accept s e) a)"
proof -
  have new: "(s, e) \<notin> set (sp_accepted a)" "\<And>r. r \<in> set (sp_accepted a) \<Longrightarrow> snd r < e"
    using assms(3) by fastforce+
  have old: "(s', e') \<in> set (sp_accepted a) \<and>
      (\<forall>r \<in> set (sp_accepted a). snd r < e' \<longrightarrow> (\<exists>m. prev' = Some m \<and> snd r \<le> m))"
    if "owns (cs t') s' e' prev'" for t' s' e' prev'
    using assms(1) that unfolding sim_calls_def by blast
  show ?thesis
    unfolding sim_calls_def
  proof (intro conjI allI impI)
    fix t' s' e' prev' assume o: "owns ((cs(t \<mapsto> p)) t') s' e' prev'"
    show "(s', e') \<in> set (sp_accepted (spool_step (Accept s e) a))"
      using o assms(5) old by (cases "t' = t") auto
    show "\<forall>r \<in> set (sp_accepted (spool_step (Accept s e) a)). snd r < e' \<longrightarrow> (\<exists>m. prev' = Some m \<and> snd r \<le> m)"
    proof (cases "t' = t")
      case True
      with o assms(4,5) show ?thesis by fastforce
    next
      case False
      with o old new(2) show ?thesis by fastforce
    qed
  next
    fix t1 t2 s' e' p1 p2
    assume "owns ((cs(t \<mapsto> p)) t1) s' e' p1 \<and> owns ((cs(t \<mapsto> p)) t2) s' e' p2"
    then show "t1 = t2"
      using assms(1,5) old new(1) unfolding sim_calls_def
      by (cases "t1 = t"; cases "t2 = t") (auto, metis+)
  next
    fix t' b s' e'
    assume "(cs(t \<mapsto> p)) t' = Some (Buffering b s' e')"
    then show "0 \<le> s'" "s' \<le> e'"
      using assms(1,6) unfolding sim_calls_def by (cases "t' = t", auto)+
  qed
qed

lemma sim_run_buffer:
  assumes "sim cx w a" and "spool_inv a" and "calls w t = Some (Buffering b s e)"
  shows "sim_follows cx (call_event lb cx c (calls w t) (wr_state w)) (run_buffer lb cx c t b s e w) a"
proof (cases "fst (push_batch lb (wx_cfg cx) (mono c) b s e (wr_state w))")
  case (Inl err)
  then have "snd (push_batch lb (wx_cfg cx) (mono c) b s e (wr_state w)) = wr_state w"
    by (auto simp: push_batch_def Let_def split: option.splits if_splits)
  then have "push_batch lb (wx_cfg cx) (mono c) b s e (wr_state w) = (Inl err, wr_state w)"
    using Inl by (simp add: prod_eq_iff)
  then have "run_buffer lb cx c t b s e w = goto t (Finished (AppendDone (Inl err))) w"
    by (simp add: run_buffer_def)
  then show ?thesis using sim_no_purpose [OF assms(1)] Inl assms(3) by (auto simp: call_event_def)
next
  case (Inr dp)
  obtain due prev where dp: "dp = (due, prev)" by fastforce
  define st where "st = snd (push_batch lb (wx_cfg cx) (mono c) b s e (wr_state w))"
  let ?st = "wr_state w"
  let ?a = "spool_step (Accept s e) a"
  have st: "buffered st = buffered ?st @ [(b, s, e)]" "max_end_offset st = Some e" "prev = max_end_offset ?st"
      "staged_offset st = staged_offset ?st" "ws_epoch_ms st = ws_epoch_ms ?st" "next_seq st = next_seq ?st"
      "last_sealed_seq st = last_sealed_seq ?st"
    and lt: "case prev of None \<Rightarrow> True | Some m \<Rightarrow> m < s"
    using Inr by (auto simp: dp st_def push_batch_def Let_def split: option.splits if_splits)
  have ss: "sim_state ?st a" and sc: "sim_calls (calls w) a" using assms(1) by (simp_all add: sim_def)
  have cov: "\<forall>r \<in> set (sp_accepted a). \<exists>m. prev = Some m \<and> snd r \<le> m"
    using ss st(3) by (simp add: sim_state_def)
  have "0 \<le> s" "s \<le> e" using sc assms(3) unfolding sim_calls_def by blast+
  with cov lt have al: "spool_allowed (Accept s e) a" by fastforce
  have "sim_state st ?a"
    using ss st al by (fastforce simp: sim_state_def next_slot_def)
  moreover define q where "q = (if due then TryLock (ForAppend s e prev) else Finished (AppendDone (Inr ())))"
  have "sim_calls ((calls w)(t \<mapsto> q)) ?a"
    by (rule sim_accept_calls [OF sc assms(2) al cov]) (auto simp: q_def owns_def split: if_splits)
  moreover have "sim_pipe (w\<lparr>wr_state := st, calls := (calls w)(t \<mapsto> q)\<rparr>) ?a"
    using assms(1) by (simp add: sim_def)
  moreover have "sim_board cx (wr_notifier w) ?a"
    using assms(1) by (simp add: sim_def sim_board_def)
  ultimately have "sim cx (w\<lparr>wr_state := st, calls := (calls w)(t \<mapsto> q)\<rparr>) ?a"
    using assms(1) by (simp add: sim_def)
  moreover have "run_buffer lb cx c t b s e w = w\<lparr>wr_state := st, calls := (calls w)(t \<mapsto> q)\<rparr>"
  proof -
    have "push_batch lb (wx_cfg cx) (mono c) b s e (wr_state w) = (Inr (due, prev), st)"
      using Inr by (simp add: prod_eq_iff st_def dp)
    then show ?thesis by (simp add: run_buffer_def q_def goto_def)
  qed
  ultimately show ?thesis using sim_follows_event [OF al] Inr assms(3) by (simp add: call_event_def)
qed


section \<open>A batch is handed back\<close>

lemma ascending_ends_inj:
  assumes "ascending rs" and "x \<in> set rs" and "y \<in> set rs" and "snd x = snd y"
  shows "x = y"
  using assms
proof (induction rs)
  case (Cons r rs)
  have lt: "snd r < snd z" if "z \<in> set rs" for z
    using Cons.prems(1) that by (fastforce simp: ascending_def)
  have "ascending rs" using Cons.prems(1) by (simp add: ascending_def)
  with Cons.IH Cons.prems(2-4) lt show ?case by (metis less_irrefl set_ConsD)
qed simp

lemma rposition_Some:
  "rposition P xs = Some i \<Longrightarrow> i < length xs \<and> P (xs ! i)"
proof -
  assume r: "rposition P xs = Some i"
  then have "filter (\<lambda>i. P (xs ! i)) [0..<length xs] \<noteq> []" "i = last (filter (\<lambda>i. P (xs ! i)) [0..<length xs])"
    by (auto simp: rposition_def split: list.splits)
  then have "i \<in> set (filter (\<lambda>i. P (xs ! i)) [0..<length xs])" using last_in_set by metis
  then show ?thesis by auto
qed

lemma rposition_None: "rposition P xs = None \<longleftrightarrow> (\<forall>x \<in> set xs. \<not> P x)"
proof -
  have "rposition P xs = None \<longleftrightarrow> filter (\<lambda>i. P (xs ! i)) [0..<length xs] = []"
    by (simp add: rposition_def split: list.splits)
  then show ?thesis by (auto simp: filter_empty_conv all_set_conv_all_nth)
qed

lemma remove1_distinct_nth:
  "distinct xs \<Longrightarrow> i < length xs \<Longrightarrow> remove1 (xs ! i) xs = take i xs @ drop (Suc i) xs"
proof (induction xs arbitrary: i)
  case (Cons x xs)
  then show ?case by (cases i) auto
qed simp

lemma sim_run_unbuffer:
  assumes "sim cx w a" and "spool_inv a" and "calls w t = Some (Unbuffering s e prev err)"
  shows "sim_follows cx (call_event lb cx c (calls w t) (wr_state w)) (run_unbuffer lb t s e prev err w) a"
proof -
  let ?st = "wr_state w"
  obtain took st where u: "unbuffer lb s e prev ?st = (took, st)" by fastforce
  define q where "q = Finished (AppendDone
      (if took \<or> \<not> (case err of StagingStalled _ _ \<Rightarrow> True | _ \<Rightarrow> False) then Inl err else Inr ()))"
  have run: "run_unbuffer lb t s e prev err w = goto t q (w\<lparr>wr_state := st\<rparr>)"
    by (simp add: run_unbuffer_def u q_def Let_def)
  have ss: "sim_state ?st a" and sc: "sim_calls (calls w) a" using assms(1) by (simp_all add: sim_def)
  have own: "owns (calls w t) s e prev" using assms(3) by (simp add: owns_def)
  show ?thesis
  proof (cases "rposition (\<lambda>(_, x, y). x = s \<and> y = e) (buffered ?st)")
    case None
    with u have "st = ?st" "\<not> took" by (simp_all add: unbuffer_def)
    then have "run_unbuffer lb t s e prev err w = goto t q w" by (simp add: run)
    moreover have "call_event lb cx c (calls w t) ?st = None"
      using \<open>\<not> took\<close> assms(3) u by (simp add: call_event_def)
    ultimately show ?thesis using sim_no_purpose [OF assms(1), of q] by (auto simp: q_def)
  next
    case (Some i)
    let ?a = "spool_step (Retract s e) a"
    have i: "i < length (buffered ?st)" "snd (buffered ?st ! i) = (s, e)"
      using rposition_Some [OF Some] by (auto split: prod.splits)
    have buf: "map snd (buffered ?st) = sp_buffer a" using ss by (simp add: sim_state_def)
    have al: "spool_allowed (Retract s e) a"
      using i buf by (metis length_map nth_map nth_mem spool_allowed.simps(2))
    have "distinct (sp_buffer a)"
      using ascending_distinct [OF spool_inv_parts(2) [OF assms(2)]] by simp
    then have rem: "remove1 (s, e) (sp_buffer a) = take i (sp_buffer a) @ drop (Suc i) (sp_buffer a)"
      using remove1_distinct_nth [of "sp_buffer a" i] i buf by (metis length_map nth_map)
    have st: "buffered st = take i (buffered ?st) @ drop (Suc i) (buffered ?st)"
        "max_end_offset st = (if max_end_offset ?st = Some e then prev else max_end_offset ?st)"
        "staged_offset st = staged_offset ?st" "ws_epoch_ms st = ws_epoch_ms ?st" "next_seq st = next_seq ?st"
        "last_sealed_seq st = last_sealed_seq ?st"
      using u Some by (auto simp: unbuffer_def Let_def)
    have acc: "set (sp_accepted ?a) \<subseteq> set (sp_accepted a) - {(s, e)}"
      using ascending_distinct [OF spool_inv_parts(2) [OF assms(2)]] spool_inv_parts(1) [OF assms(2)]
      by (simp add: set_remove1_eq)
    have cov: "\<exists>m. max_end_offset st = Some m \<and> snd r \<le> m" if "r \<in> set (sp_accepted ?a)" for r
    proof -
      have r: "r \<in> set (sp_accepted a)" "r \<noteq> (s, e)" using that acc by auto
      have se: "(s, e) \<in> set (sp_accepted a)"
        using sc own unfolding sim_calls_def by blast
      have "snd r \<noteq> e"
        using ascending_ends_inj [OF spool_inv_parts(2) [OF assms(2)], of r "(s, e)"] r se
        unfolding spool_inv_parts(1) [OF assms(2)] by auto
      moreover obtain m where m: "max_end_offset ?st = Some m" "snd r \<le> m"
        using ss r(1) unfolding sim_state_def by blast
      moreover have "snd r < e \<Longrightarrow> \<exists>m. prev = Some m \<and> snd r \<le> m"
        using sc own r(1) unfolding sim_calls_def by blast
      ultimately show ?thesis using st(2) by (cases "m = e") auto
    qed
    have "sim_state st ?a"
      using ss cov st rem buf by (simp add: sim_state_def next_slot_def take_map [symmetric] drop_map [symmetric])
    moreover have "sim_calls ((calls w)(t \<mapsto> q)) ?a"
    proof -
      have o: "owns (calls w t') s' e' p' \<and> t' \<noteq> t" if "owns (((calls w)(t \<mapsto> q)) t') s' e' p'" for t' s' e' p'
        using that by (cases "t' = t") (auto simp: q_def owns_def)
      have k: "(s', e') \<in> set (sp_accepted ?a) \<and>
          (\<forall>r \<in> set (sp_accepted ?a). snd r < e' \<longrightarrow> (\<exists>m. p' = Some m \<and> snd r \<le> m))"
        if "owns (calls w t') s' e' p'" "t' \<noteq> t" for t' s' e' p'
      proof -
        have "(s', e') \<in> set (sp_accepted a)" "(s', e') \<noteq> (s, e)"
          and "\<forall>r \<in> set (sp_accepted a). snd r < e' \<longrightarrow> (\<exists>m. p' = Some m \<and> snd r \<le> m)"
          using sc own that unfolding sim_calls_def by blast+
        then show ?thesis using acc by auto
      qed
      have b: "calls w t' = Some (Buffering b s' e')" if "((calls w)(t \<mapsto> q)) t' = Some (Buffering b s' e')"
        for t' b s' e' using that by (cases "t' = t") (auto simp: q_def)
      show ?thesis
        unfolding sim_calls_def
      proof (intro conjI allI impI)
        fix t1 t2 s' e' p1 p2
        assume "owns (((calls w)(t \<mapsto> q)) t1) s' e' p1 \<and> owns (((calls w)(t \<mapsto> q)) t2) s' e' p2"
        then have "owns (calls w t1) s' e' p1 \<and> owns (calls w t2) s' e' p2" using o by blast
        then show "t1 = t2" using sc unfolding sim_calls_def by blast
      next
        fix t' b s' e' assume "((calls w)(t \<mapsto> q)) t' = Some (Buffering b s' e')"
        then show "0 \<le> s'" "s' \<le> e'" using b sc unfolding sim_calls_def by blast+
      qed (use k o in blast)+
    qed
    moreover have "sim_pipe (w\<lparr>wr_state := st, calls := (calls w)(t \<mapsto> q)\<rparr>) ?a"
      using assms(1) by (simp add: sim_def)
    moreover have "sim_board cx (wr_notifier w) ?a"
      using assms(1) by (simp add: sim_def sim_board_def)
    ultimately have "sim cx (goto t q (w\<lparr>wr_state := st\<rparr>)) ?a"
      using assms(1) by (simp add: sim_def goto_def)
    moreover have "took" using u Some by (auto simp: unbuffer_def Let_def)
    then have "call_event lb cx c (calls w t) ?st = Some (Retract s e)"
      using assms(3) u by (simp add: call_event_def)
    ultimately show ?thesis using sim_follows_event [OF al] run by simp
  qed
qed


section \<open>The buffer is cut\<close>

lemma ascending_ends:
  assumes "ascending rs" and "rs \<noteq> []"
  shows "list_min (map fst rs) = fst (hd rs)" and "list_max (map snd rs) = snd (last rs)"
proof -
  have "fold min (map fst qs) m = m" if "\<forall>q \<in> set qs. m \<le> fst q" for qs and m :: i64
    using that by (induction qs) auto
  moreover have "\<forall>q \<in> set (tl rs). fst (hd rs) \<le> fst q"
    using assms by (cases rs) (fastforce simp: ascending_def)+
  ultimately show "list_min (map fst rs) = fst (hd rs)"
    using assms(2) by (cases rs) (simp_all add: list_min_def)
  have "fold max (map snd qs) m = snd (last (p # qs))" if "ascending (p # qs)" "snd p = m" for qs p m
    using that
  proof (induction qs arbitrary: p m)
    case (Cons q qs)
    have "ascending (q # qs)" "m \<le> snd q" using Cons.prems by (auto simp: ascending_def)
    with Cons.IH [of q "snd q"] show ?case by (simp add: max_absorb2)
  qed simp
  from this [of "hd rs" "tl rs"] show "list_max (map snd rs) = snd (last rs)"
    using assms by (cases rs) (simp_all add: list_max_def)
qed

lemma sim_roll:
  assumes "sim_state st a" and "spool_inv a"
  shows "sim_state (roll_epoch st) a"
proof (cases "next_seq st > MAX_SEQ")
  case True
  have n: "next_slot a (ws_epoch_ms st, next_seq st)" using assms(1) by (simp add: sim_state_def)
  have ne: "sp_sealed a \<noteq> []" and nz: "next_seq st \<noteq> 0"
    using n True by (auto simp: next_slot_def)
  let ?f = "fst (last (sp_sealed a))"
  have "slot_ok (epoch_ms ?f) (seq ?f)"
    using sealed_slot_ok [OF assms(2), of "length (sp_sealed a) - 1"] ne by (simp add: last_conv_nth)
  then have "unat (epoch_ms ?f) < 8796093022208" by (simp add: slot_ok_unat)
  then have "unat (epoch_ms ?f + 1) = unat (epoch_ms ?f) + 1" by (simp add: unat_plus_if_size word_size)
  moreover have "epoch_ms ?f = ws_epoch_ms st"
    using n ne nz by (auto simp: next_slot_def slot_follows_def slot_def split: if_splits)
  ultimately have "next_slot a (ws_epoch_ms st + 1, 0)"
    using ne by (auto simp: next_slot_def slot_follows_def slot_def word_less_nat_alt)
  with assms(1) True show ?thesis by (simp add: sim_state_def roll_epoch_def)
qed (use assms in \<open>simp add: roll_epoch_def\<close>)

lemma sim_seal:
  assumes "sim_state st a" and "spool_inv a" and "seal cx c ao st = (r, st')"
  shows "case r of
      Inr (Some f) \<Rightarrow> spool_allowed (Cut (fm_file (sl_meta f))) a \<and> meta_ok (sl_meta f)
        \<and> sim_state st' (spool_step (Cut (fm_file (sl_meta f))) a)
    | _ \<Rightarrow> sim_state st' a"
proof (cases "sealable (wx_cfg cx) (mono c) ao st")
  case False
  with assms show ?thesis by (auto simp: seal_def)
next
  case True
  let ?st = "roll_epoch st"
  let ?f = "cut_file (wx_cfg cx) ?st"
  have s: "sim_state ?st a" by (rule sim_roll [OF assms(1,2)])
  have b: "buffered ?st = buffered st" "buffered st \<noteq> []"
    using True by (simp_all add: roll_epoch_def sealable_def)
  have m: "map snd (buffered st) = sp_buffer a" using assms(1) by (simp add: sim_state_def)
  then have ne: "sp_buffer a \<noteq> []" using b(2) by auto
  have "ascending (sp_buffer a)" using spool_inv_parts(2) [OF assms(2)] by (simp add: ascending_append)
  from ascending_ends [OF this ne]
  have f: "start_offset ?f = fst (hd (sp_buffer a))" "end_offset ?f = snd (last (sp_buffer a))"
    "slot ?f = (ws_epoch_ms ?st, next_seq ?st)"
    unfolding m [symmetric] by (simp_all add: cut_file_def b slot_def comp_def case_prod_unfold)
  show ?thesis
  proof (cases "serial_seq ?f")
    case (Inl e)
    with True s assms(3) show ?thesis by (auto simp: seal_def Let_def)
  next
    case (Inr serial)
    note ser = Inr
    show ?thesis
    proof (cases "job_identifier ?f (wx_ident cx)")
      case (Inl e)
      with True ser s assms(3) show ?thesis by (auto simp: seal_def Let_def)
    next
      case (Inr ident)
      have ok: "slot_ok (epoch_ms ?f) (seq ?f) \<and> serial = serial_of ?f"
        using ser by (simp add: serial_seq_def encode_Inr serial_of_def)
      have al: "spool_allowed (Cut ?f) a"
        using ne f ok s by (simp add: sim_state_def)
      obtain g where r: "r = Inr (Some g)" "fm_file (sl_meta g) = ?f" "fm_serial_seq (sl_meta g) = serial"
        and st': "st' = ?st\<lparr>next_seq := next_seq ?st + 1, buffered := [], buffered_bytes_estimate := 0,
                   buffered_rows := 0, oldest_buffered_at := None, last_sealed_seq := Some serial,
                   known_files := known_files ?st @ [(serial, now_ms (machine c))],
                   in_flight := in_flight ?st @ [(serial, mono c)]\<rparr>"
        using True ser Inr assms(3) by (auto simp: seal_def Let_def)
      have "sim_state st' (spool_step (Cut ?f) a)"
        using s ok f(3) by (simp add: sim_state_def st' next_slot_def slot_follows_def)
      with al ok r show ?thesis by (simp add: meta_ok_def)
    qed
  qed
qed


lemma live_cut:
  "live (w\<lparr>seal_queue := seal_queue w @ [f]\<rparr>) = live w @ (if running w then [sl_meta f] else [])"
  "running (w\<lparr>seal_queue := q\<rparr>) = running w" "landing (w\<lparr>seal_queue := q\<rparr>) = landing w"
  by (auto simp: live_def running_def landing_def)

lemma drop_cut: "n \<le> length xs \<Longrightarrow> drop n (map fst (xs @ [x])) = drop n (map fst xs) @ [fst x]"
  by simp

lemma prev_at_cut:
  "n \<le> length (sp_sealed a) \<Longrightarrow> prev_at (spool_step (Cut f) a) n = prev_at a n"
  by (cases n) (simp_all add: prev_at_def nth_append)

lemma sim_pipe_cut:
  assumes "sim_pipe w a" and "spool_inv a" and "meta_ok (sl_meta f)"
  shows "sim_pipe (w\<lparr>seal_queue := seal_queue w @ [f]\<rparr>) (spool_step (Cut (fm_file (sl_meta f))) a)"
proof -
  let ?a = "spool_step (Cut (fm_file (sl_meta f))) a"
  have d: "sp_done a \<le> length (sp_sealed a)" by (rule spool_inv_parts(5) [OF assms(2)])
  have p: "sp_done a \<noteq> 0 \<Longrightarrow> sp_sealed ?a ! (sp_done a - 1) = sp_sealed a ! (sp_done a - 1)"
    using d by (auto simp: nth_append)
  have "sim_prev (landing w) (put_prev w) ?a"
    using assms(1) p d prev_at_cut [of _ a "fm_file (sl_meta f)"]
    by (auto simp: sim_pipe_def sim_prev_def split: option.splits)
  with assms(1,3) d show ?thesis
    by (auto simp: sim_pipe_def live_cut drop_cut prefix_append)
qed

lemma sim_run_cut:
  assumes "sim cx w a" and "spool_inv a" and "calls w t = Some (Cutting k)"
  shows "sim_follows cx (call_event lb cx c (calls w t) (wr_state w)) (run_cut cx c t k w) a"
proof -
  obtain r st where se: "seal cx c (aged_only k) (wr_state w) = (r, st)" by fastforce
  let ?w = "w\<lparr>wr_state := st, permit := False\<rparr>"
  have ev: "call_event lb cx c (calls w t) (wr_state w) =
      (case r of Inr (Some f) \<Rightarrow> Some (Cut (fm_file (sl_meta f))) | _ \<Rightarrow> None)"
    using assms(3) se by (simp add: call_event_def)
  have sst: "sim_state (wr_state w) a" using assms(1) by (simp add: sim_def)
  note seal = sim_seal [OF sst assms(2) se]
  have ret: "sim cx (seal_return t k res v) b"
    if "sim cx v b" "calls v = calls w" for res v b
    using sim_seal_return [OF that(1), of t "Cutting k" k] that(2) assms(3) by simp
  have kept: "sim cx ?w a" if "sim_state st a"
    using sim_put_state [OF that assms(1)] by (rule sim_quiet [rotated]) (simp add: quiet_def)
  show ?thesis
  proof (cases r)
    case (Inl e)
    with seal have "sim_state st a" by simp
    then have "sim cx ?w a" by (rule kept)
    with ret [of ?w a "Inl e"] have "sim cx (seal_return t k (Inl e) ?w) a" by simp
    with Inl ev show ?thesis by (auto simp: run_cut_def se Let_def)
  next
    case (Inr mf)
    show ?thesis
    proof (cases mf)
      case None
      with seal Inr have "sim_state st a" by simp
      then have "sim cx ?w a" by (rule kept)
      with ret [of ?w a "Inr None"] have "sim cx (seal_return t k (Inr None) ?w) a" by simp
      with None Inr ev show ?thesis by (auto simp: run_cut_def se Let_def)
    next
      case (Some f)
      let ?f = "fm_file (sl_meta f)"
      let ?v = "?w\<lparr>seal_queue := seal_queue ?w @ [f]\<rparr>"
      let ?a = "spool_step (Cut ?f) a"
      have f: "spool_allowed (Cut ?f) a" "meta_ok (sl_meta f)" "sim_state st ?a"
        using seal Inr Some by auto
      have "sim_pipe (w\<lparr>seal_queue := seal_queue w @ [f]\<rparr>) ?a"
        using sim_pipe_cut [of w, OF _ assms(2) f(2)] assms(1) by (simp add: sim_def)
      moreover have "sim_calls (calls w) ?a"
        using assms(1) by (simp add: sim_def sim_calls_def)
      moreover have "floor_of ?a = floor_of a"
        using spool_inv_parts(5) [OF assms(2)] by (auto simp: floor_of_def nth_append)
      then have "sim_board cx (wr_notifier w) ?a"
        using assms(1) by (simp add: sim_def sim_board_def)
      ultimately have "sim cx (w\<lparr>seal_queue := seal_queue w @ [f], wr_state := st\<rparr>) ?a"
        using assms(1) f(3) by (simp add: sim_def)
      then have "sim cx ?v ?a" by (rule sim_quiet [rotated]) (simp add: quiet_def)
      then have "sim cx (run_cut cx c t k w) ?a"
        using ret [of ?v ?a] by (simp add: run_cut_def se Inr Some Let_def)
      from sim_follows_event [OF f(1) this] ev Inr Some show ?thesis by simp
    qed
  qed
qed


section \<open>Every step\<close>

lemma sim_start_op:
  assumes "sim cx w a"
  shows "sim cx (start_op cx c t o' w) a"
proof -
  have q: "sim cx (goto t p v) a" if "quiet w v" "pc_purpose p = None \<or> (\<exists>k. pc_purpose p = Some k \<and> (\<forall>s e m. k \<noteq> ForAppend s e m))"
    "\<And>b s e. p = Buffering b s e \<Longrightarrow> 0 \<le> s \<and> s \<le> e" for p v
    using that(2,3) by (intro sim_goto [OF sim_quiet [OF that(1) assms]]) (auto simp: owns_def)
  have l: "quiet w (w\<lparr>seal_lock := Some t, permit := True\<rparr>)" "quiet w (w\<lparr>ticker_on := False\<rparr>)"
    "quiet w ((raise_stream_stopped cx c w)\<lparr>ticker_on := False\<rparr>)"
    by (simp_all add: quiet_def)
  show ?thesis
  proof (cases o')
    case (Append b s e)
    show ?thesis unfolding Append start_op_def op.case start_append_def
      by (rule q) (auto split: sum.splits if_splits)
  next
    case Flush
    show ?thesis unfolding Flush start_op_def op.case by (rule q) (auto split: sum.splits)
  next
    case Close
    show ?thesis unfolding Close start_op_def op.case by (rule q) (auto split: sum.splits)
  next
    case Tick
    show ?thesis unfolding Tick start_op_def op.case start_tick_def
      by (auto intro!: q l)
  qed
qed

lemma sim_persist:
  assumes "sim cx w a"
  shows "sim cx (run_persist cx c t k w) a" and "sim cx (run_write_state lb cx c t k sf w) a"
proof -
  have pp: "pc_purpose (persisted k w) = None" "\<And>b s e. persisted k w \<noteq> Buffering b s e"
    by (auto simp: persisted_def)
  have fin: "sim cx (goto t (persisted k w) v) a" if "sim cx v a" for v
    by (rule sim_no_purpose [OF that pp])
  show "sim cx (run_persist cx c t k w) a"
    using fin [OF assms] sim_no_purpose [OF assms] by (auto simp: run_persist_def Let_def)
  obtain r s where ws: "write_state (store_of w) (json lb) (wx_ident cx) sf (wr_world w) = (r, s)"
    by fastforce
  have 1: "sim cx (w\<lparr>wr_world := s\<rparr>) a"
    by (rule sim_quiet [OF _ assms]) (simp add: quiet_def)
  have "sim_state ((wr_state w)\<lparr>resume_persisted := x, state_written_at := y\<rparr>) a" for x y
    using assms by (simp add: sim_def sim_state_def)
  from sim_put_state [OF this 1] have "sim cx (w\<lparr>wr_world := s, wr_state := (wr_state w)
      \<lparr>resume_persisted := x, state_written_at := y\<rparr>\<rparr>) a" for x y
    by simp
  with 1 assms show "sim cx (run_write_state lb cx c t k sf w) a"
    by (auto simp: run_write_state_def ws intro: fin split: sum.splits)
qed

lemma sim_finish:
  assumes "sim cx w a"
  shows "sim cx (run_await cx t k target w) a" and "sim cx (run_stop_heartbeat t b staged w) a"
    and "sim cx (run_release lb cx t staged w) a"
proof -
  have fl: "pc_purpose (flushed k) = None" "\<And>b s e. flushed k \<noteq> Buffering b s e"
    by (auto simp: flushed_def)
  show "sim cx (run_await cx t k target w) a"
    using assms sim_no_purpose [OF assms] sim_no_purpose [OF assms fl]
    by (auto simp: run_await_def split: option.splits)
  have q: "sim cx (w\<lparr>hb_stop := True\<rparr>) a" "sim cx (w\<lparr>hb_stop := True, hb_pc := HbExit\<rparr>) a"
      "sim cx (w\<lparr>wr_world := s\<rparr>) a" for s
    by (rule sim_quiet [OF _ assms], simp add: quiet_def)+
  show "sim cx (run_stop_heartbeat t b staged w) a"
    using q(1,2) sim_no_purpose [OF q(1)] sim_no_purpose [OF q(2)]
    by (auto simp: run_stop_heartbeat_def split: heartbeat_pc.splits)
  show "sim cx (run_release lb cx t staged w) a"
    using sim_no_purpose [OF q(3)] by (auto simp: run_release_def split: prod.splits)
qed

lemma sim_run_call:
  assumes "sim cx w a" and "spool_inv a"
  shows "sim_follows cx (call_event lb cx c (calls w t) (wr_state w)) (run_call lb cx c t b w) a"
proof (cases "calls w t")
  case None
  with assms show ?thesis by (auto simp: run_call_def call_event_def call_event_def)
next
  case (Some p)
  have perm: "sim cx (w\<lparr>permit := False\<rparr>) a"
    by (rule sim_quiet [OF _ assms(1)]) (simp add: quiet_def)
  show ?thesis
  proof (cases p)
    case (Buffering x s e)
    from sim_run_buffer [OF assms Some [unfolded Buffering], of lb c] Some Buffering show ?thesis by (simp add: run_call_def)
  next
    case (Unbuffering s e prev err)
    from sim_run_unbuffer [OF assms Some [unfolded Unbuffering], of lb c] Some Unbuffering show ?thesis by (simp add: run_call_def)
  next
    case (Cutting k)
    from sim_run_cut [OF assms Some [unfolded Cutting], of lb c] Some Cutting show ?thesis by (simp add: run_call_def)
  next
    case (TryReserve k)
    with Some sim_run_reserve [OF assms(1), of t p k] sim_seal_return [OF assms(1), of t p k]
    show ?thesis by (auto simp: run_call_def call_event_def)
  next
    case (Granted k)
    with Some sim_seal_return [OF perm, of t p k] sim_same_purpose [OF assms(1), of t p k]
    show ?thesis by (auto simp: run_call_def call_event_def split: sum.splits)
  next
    case (TryLock k)
    with Some sim_run_lock [OF assms(1), of t p k] show ?thesis by (auto simp: run_call_def call_event_def)
  next
    case (ParkLock k)
    with Some sim_run_lock [OF assms(1), of t p k] show ?thesis by (auto simp: run_call_def call_event_def)
  next
    case (ParkReserve k)
    with Some sim_run_reserve [OF assms(1), of t p k] show ?thesis by (auto simp: run_call_def call_event_def)
  next
    case ReadOffset
    with Some sim_no_purpose [OF assms(1)] show ?thesis by (auto simp: run_call_def call_event_def)
  next
    case (ReadTarget k)
    with Some sim_no_purpose [OF assms(1)] show ?thesis
      by (auto simp: run_call_def call_event_def flushed_def split: option.splits)
  qed (use Some assms(1) in \<open>auto simp: run_call_def call_event_def intro: sim_start_op sim_finish sim_persist\<close>)
qed

lemma sim_heartbeat:
  assumes "sim cx w a"
  shows "sim cx (heartbeat_step lb cx c w) a"
proof -
  have "quiet w (heartbeat_step lb cx c w)"
  proof (cases "hb_pc w")
    case HbIdle
    then show ?thesis
      by (auto simp: heartbeat_step_def heartbeat_tick_def Let_def fence_and_exit_def fence_def quiet_def
          split: prod.splits sum.splits option.splits)
  next
    case (HbRenew l)
    then show ?thesis
      by (auto simp: heartbeat_step_def heartbeat_renew_def Let_def fence_and_exit_def fence_def quiet_def
          split: prod.splits sum.splits)
  qed (simp add: heartbeat_step_def)
  from sim_quiet [OF this assms] show ?thesis .
qed

lemma sim_lag:
  assumes "sim cx w a"
  shows "sim cx (lag_step lb cx c b w) a"
proof -
  have "sim cx (w\<lparr>wr_world := s\<rparr>) a" "sim cx (w\<lparr>lag_on := False\<rparr>) a" for s
    by (rule sim_quiet [OF _ assms], simp add: quiet_def)+
  moreover have "sim_state (snd (lag_sample c m (wr_state w))) a" for m
    using assms by (auto simp: lag_sample_def sim_def sim_state_def split: prod.splits)
  from sim_put_state [OF this assms]
  have "sim cx (w\<lparr>wr_state := snd (lag_sample c m (wr_state w))\<rparr>) a" for m by blast
  then have "sim cx (w\<lparr>wr_world := s, wr_state := snd (lag_sample c m (wr_state w)), wr_lag := l\<rparr>) a" for s m l
    by (rule sim_quiet [rotated]) (simp add: quiet_def)
  ultimately show ?thesis
    using assms by (auto simp: lag_step_def split: prod.splits sum.splits) (metis snd_conv)+
qed


lemma below_floor_board:
  assumes "board_inv n" and "board_allowed ev n" and "below_floor cx n fl"
    and "\<And>r. ev = Enqueue r \<Longrightarrow> nr_group r \<noteq> group_of cx"
  shows "below_floor cx (board_step ev n) fl"
proof (cases ev)
  case (Loop e)
  show ?thesis
  proof (cases "settled e n")
    case None
    from loop_unsettled [OF None] assms(3) Loop show ?thesis by (simp add: below_floor_def)
  next
    case (Some hro)
    then obtain h r out where s: "settled e n = Some (h, r, out)" by (metis prod_cases3)
    from loop_settled [OF s] obtain rest where p: "Notify_Queue.pending n h = r # rest"
      "\<And>g. Notify_Queue.pending (notify_loop e n) g = (if g = h then rest else Notify_Queue.pending n g)" by blast
    show ?thesis
      using assms(3) p settled_confirmed [OF assms(1) s] Loop
      by (auto simp: below_floor_def split: submit_outcome.splits if_splits)
  qed
next
  case (Enqueue r)
  with assms(3,4) show ?thesis by (simp add: below_floor_def pending_enqueue)
next
  case (Clear g)
  with assms(3) show ?thesis by (simp add: below_floor_def Notify_Queue.pending_def)
qed

lemma sim_writer_step:
  assumes "sim cx w a" and "spool_inv a" and "writer_allowed cx l w"
  shows "sim_follows cx (spool_event_of lb cx l w) (writer_step lb cx l w) a"
proof -
  obtain c ev where l: "l = (c, ev)" by fastforce
  show ?thesis
  proof (cases ev)
    case (Call t o')
    then show ?thesis using sim_no_purpose [OF assms(1)] by (auto simp: l)
  next
    case (Board b)
    have n: "board_inv (wr_notifier w)" "below_floor cx (wr_notifier w) (floor_of a)"
      using assms(1) by (simp_all add: sim_def sim_board_def)
    have al: "board_allowed b (wr_notifier w)" "\<And>r. b = Enqueue r \<Longrightarrow> nr_group r \<noteq> group_of cx"
      using assms(3) by (auto simp: l Board)
    have "sim_board cx (board_step b (wr_notifier w)) a"
      using board.inv_guarded [OF n(1) al(1)] below_floor_board [OF n(1) al(1) n(2) al(2)]
      by (simp add: sim_board_def)
    from sim_put_notifier [OF this assms(1)] show ?thesis by (auto simp: l Board)
  next
    case GcStep
    have "quiet w (gc_step lb cx c w)" by (simp add: gc_step_def quiet_def)
    from sim_quiet [OF this assms(1)] show ?thesis by (auto simp: l GcStep)
  next
    case Refresh
    have "quiet w (writer_step lb cx (c, Refresh) w)" by (simp add: quiet_def)
    from sim_quiet [OF this assms(1)] show ?thesis by (auto simp: l Refresh)
  next
    case (World f)
    have "quiet w (w\<lparr>wr_world := f (wr_world w)\<rparr>)" by (simp add: quiet_def)
    from sim_quiet [OF this assms(1)] show ?thesis by (auto simp: l World)
  next
    case DropWriter
    have "quiet w (w\<lparr>alive := False\<rparr>)" by (simp add: quiet_def)
    from sim_quiet [OF this assms(1)] show ?thesis by (auto simp: l DropWriter)
  qed (use assms sim_run_call [OF assms(1,2)] sim_put_step [OF assms(1,2)]
      in \<open>auto simp: l intro: sim_render_step sim_gzip_step sim_heartbeat sim_lag\<close>)
qed

interpretation writer: simulation "writer_step lb cx" "writer_allowed cx" spool_step spool_allowed spool_inv "sim cx"
  "spool_event_of lb cx" for lb :: "'s libs" and cx
proof
  fix a ev assume "spool_inv a" and "spool_allowed ev a"
  then show "spool_inv (spool_step ev a)" by (rule spool.inv_guarded)
next
  fix w :: "'s writer" and a l
  assume "sim cx w a" and "spool_inv a" and "writer_allowed cx l w"
  from sim_writer_step [OF this, of lb] show
    "sim cx (writer_step lb cx l w) (after spool_step (spool_event_of lb cx l w) a)
      \<and> (\<forall>e. spool_event_of lb cx l w = Some e \<longrightarrow> spool_allowed e a)"
    by (simp add: sim_follows_def)
qed

lemma sim_new:
  assumes "board_inv n" and "below_floor cx n (int (serial_nat epoch 0))"
  shows "sim cx (writer_new cx h n s epoch staged resume known now) (spool_new epoch staged)"
  using assms
  by (auto simp: sim_def sim_state_def sim_pipe_def sim_prev_def sim_calls_def sim_board_def writer_new_def
      writer_state_new_def spool_new_def live_def running_def landing_def put_files_def gzip_files_def
      render_files_def next_slot_def floor_of_def prev_at_def progress_default_def owns_def)

end
