(* ===== verification/Writer_Demo.thy ===== *)
theory Writer_Demo
  imports Writer_Machine
begin

text \<open>
  A writer run on concrete libraries, for the witnesses: one batch of one row is appended, cut,
  rendered, uploaded to a map that stands for the object store, recorded and landed, while a flush waits
  for it.
\<close>

definition demo_row :: record_batch where
  "demo_row = \<lparr>batch_schema = [\<lparr>field_name = ''id'', field_type = Int64, nullable = False\<rparr>],
     columns = [Int64Array [Some 1]], num_rows = 1\<rparr>"

definition demo_cfg :: client_config where
  "demo_cfg = (config_new ''host=h'')\<lparr>cfg_stream_mode := InsertOnly, cfg_compression := Plain,
     rotate_size_bytes := 1\<rparr>"

definition demo_cx :: writer_ctx where
  "demo_cx = \<lparr>wx_schema = \<lparr>arrow = batch_schema demo_row, pk = [], ts_db_oid = 5, ts_rel_oid = 7\<rparr>,
     wx_ident = \<lparr>cluster_id = ''c'', db_oid = 5, rel_oid = 7, writer_id = ''w''\<rparr>,
     wx_names = (''db'', ''public'', ''t''), wx_cfg = demo_cfg, wx_uuid = ''me''\<rparr>"

type_synonym objects = "string \<Rightarrow> string option"

definition demo_libs :: "objects libs" where
  "demo_libs = \<lparr>mem_size = (\<lambda>_. 1), debug_type = (\<lambda>_. []),
     float_text = \<lparr>show_f32 = (\<lambda>_. ''0''), show_f64 = (\<lambda>_. ''0'')\<rparr>, gzip_bytes = Inr,
     mk_store = (\<lambda>_. Inr map_operator),
     control = \<lparr>connect_control = (\<lambda>_ s. (Inr (), s)), query_staging_config = (\<lambda>s. (Inr ([], [], []), s)),
       query_instance_id = (\<lambda>s. (Inr None, s)), query_watermark = (\<lambda>_ s. (Inr None, s)),
       query_database = (\<lambda>s. (Inr ''db'', s))\<rparr>,
     json = epoch_json demo_state demo_lock\<rparr>"

definition demo_handle :: "objects operator staging_handle" where
  "demo_handle = \<lparr>current = \<lparr>live_cfg = \<lparr>endpoint = ''e'', bucket = ''b'', key_prefix = [], access_key_id = ''a'',
       secret_access_key = ''s'', service = Oss, region = None\<rparr>, live_store = map_operator,
       url_base = ''s3://e/b''\<rparr>, managed_dsn = None\<rparr>"

definition demo_reading :: reading where
  "demo_reading = \<lparr>mono = 0, machine = \<lparr>wall_clock = Some 7, kernel_hostname = None, env_hostname = None,
     own_pid = 1, live_pids = [], target_linux = True\<rparr>\<rparr>"

definition demo_writer :: "objects writer" where
  "demo_writer = writer_new demo_cx demo_handle notifier_spawn (\<lambda>_. None) 3 None None [] 0"

section \<open>The values on the way\<close>

definition demo_staged :: staged_file where
  "demo_staged = \<lparr>epoch_ms = 3, seq = 0, start_offset = 0, end_offset = 9, compressed = False\<rparr>"

definition demo_meta :: file_meta where
  "demo_meta = \<lparr>fm_file = demo_staged, fm_serial_seq = 3145728,
     fm_identifier = projr (job_identifier demo_staged (wx_ident demo_cx)),
     fm_object_key = object_key demo_staged (wx_ident demo_cx), fm_rows_in = 1, fm_sealed_at = 0\<rparr>"

definition demo_body :: string where
  "demo_body = fst (projr (render_once demo_libs demo_cx None [demo_row]))"

definition demo_payload :: compressed_file where
  "demo_payload = \<lparr>cp_meta = demo_meta, cp_payload = demo_body, cp_rows = 1, cp_bytes = length demo_body,
     cp_stored_bytes = length demo_body\<rparr>"

lemma show_digit: "n < 10 \<Longrightarrow> show_nat n = [digit n]"
  by (subst show_nat.simps) simp

lemma demo_ident: "job_identifier demo_staged (wx_ident demo_cx) = Inr (fm_identifier demo_meta)"
  by (simp add: demo_meta_def job_identifier_def demo_staged_def demo_cx_def Let_def show_digit
      IDENTIFIER_MAX_LEN_def del: show_nat.simps)

lemma demo_serial: "serial_seq demo_staged = Inr 3145728"
  by (simp add: serial_seq_def demo_staged_def encode_Inr slot_ok_unat serial_nat_def)

lemma demo_render: "render_once demo_libs demo_cx None [demo_row] = Inr (demo_body, 1)"
  by (simp add: demo_body_def render_once_def render_def demo_cx_def demo_cfg_def config_new_def
      with_staging_def demo_row_def demo_libs_def format_rows_def)

lemma demo_healthy:
  "order_fatal w = None \<Longrightarrow> fenced w = None \<Longrightarrow> wr_notifier w = notifier_spawn
     \<Longrightarrow> wr_progress w = progress_default \<Longrightarrow> check_health demo_cx w = Inr ()"
  by (simp add: check_health_def fatal_state_def notifier_fatal_def stall_error_def notifier_spawn_def
      progress_default_def)

section \<open>The run\<close>

definition demo_buffered :: "objects writer" where
  "demo_buffered = demo_writer\<lparr>calls := [1 \<mapsto> TryLock (ForAppend 0 9 None)],
     wr_state := (wr_state demo_writer)\<lparr>buffered := [(demo_row, 0, 9)], buffered_bytes_estimate := 1,
       oldest_buffered_at := Some 0, buffered_rows := 1, max_end_offset := Some 9\<rparr>\<rparr>"

definition demo_cut :: "objects writer" where
  "demo_cut = demo_writer\<lparr>calls := [1 \<mapsto> Finished (AppendDone (Inr ()))],
     seal_queue := [\<lparr>sl_meta = demo_meta, sl_batches = [demo_row]\<rparr>],
     wr_state := (wr_state demo_writer)\<lparr>next_seq := 1, max_end_offset := Some 9,
       last_sealed_seq := Some 3145728, known_files := [(3145728, 7)], in_flight := [(3145728, 0)]\<rparr>\<rparr>"

definition demo_waiting :: "objects writer" where
  "demo_waiting = demo_cut\<lparr>calls := (calls demo_cut)(2 \<mapsto> AwaitFile ForFlush 3145728)\<rparr>"

abbreviation demo_step :: "objects writer_event \<Rightarrow> objects writer \<Rightarrow> objects writer" where
  "demo_step ev \<equiv> writer_step demo_libs demo_cx (demo_reading, ev)"

lemma demo_projections:
  "wx_schema demo_cx = \<lparr>arrow = batch_schema demo_row, pk = [], ts_db_oid = 5, ts_rel_oid = 7\<rparr>"
  "wx_cfg demo_cx = demo_cfg" "wx_uuid demo_cx = ''me''" "schema_compatible (batch_schema demo_row) (batch_schema demo_row)"
  by (simp_all add: demo_cx_def schema_compatible_def demo_row_def)

lemma demo_push:
  "demo_step (Run 1 False) (demo_step (Run 1 False) (demo_step (Call 1 (Append demo_row 0 9)) demo_writer))
     = demo_buffered"
proof -
  have 1: "demo_step (Run 1 False) (demo_step (Call 1 (Append demo_row 0 9)) demo_writer)
      = goto 1 (Buffering demo_row 0 9) demo_writer"
    by (simp add: run_call_def goto_def start_append_def start_op_def demo_writer_def writer_new_def
        demo_healthy demo_projections)
  show ?thesis
    unfolding 1
    by (simp add: run_call_def run_buffer_def push_batch_def Let_def demo_buffered_def demo_row_def goto_def
        writer_state_new_def est_bytes_def demo_libs_def demo_cfg_def demo_projections demo_reading_def
        demo_writer_def writer_new_def)
qed

lemma demo_seal:
  "seal demo_cx demo_reading False (wr_state demo_buffered)
     = (Inr (Some \<lparr>sl_meta = demo_meta, sl_batches = [demo_row]\<rparr>), wr_state demo_cut)"
proof -
  have "serial_seq (cut_file demo_cfg (wr_state demo_buffered)) = Inr 3145728"
      and "cut_file demo_cfg (wr_state demo_buffered) = demo_staged"
    using demo_serial
    by (simp_all add: cut_file_def demo_buffered_def demo_staged_def demo_writer_def writer_new_def
        writer_state_new_def list_min_def list_max_def demo_cfg_def)
  moreover have "roll_epoch (wr_state demo_buffered) = wr_state demo_buffered"
    by (simp add: roll_epoch_def demo_buffered_def demo_writer_def writer_new_def writer_state_new_def MAX_SEQ_def)
  moreover have "job_identifier demo_staged (wx_ident demo_cx) = Inr (fm_identifier demo_meta)"
    by (rule demo_ident)
  ultimately show ?thesis
    by (simp add: seal_def sealable_def demo_projections Let_def)
       (simp add: demo_buffered_def demo_cut_def demo_meta_def demo_writer_def writer_new_def
         writer_state_new_def demo_reading_def now_ms_def)
qed

lemma demo_cutting:
  "demo_step (Run 1 False) (demo_step (Run 1 False) (demo_step (Run 1 False)
     (demo_step (Run 1 False) demo_buffered))) = demo_cut"
proof -
  have 1: "demo_step (Run 1 False) (demo_step (Run 1 False) (demo_step (Run 1 False) demo_buffered))
      = goto 1 (Cutting (ForAppend 0 9 None)) (demo_buffered\<lparr>seal_lock := Some 1, permit := True\<rparr>)"
    by (simp add: run_call_def run_lock_def run_reserve_def goto_def sealable_def has_room_def aged_only_def
        demo_healthy demo_buffered_def demo_writer_def writer_new_def)
  have "wr_state (goto 1 (Cutting (ForAppend 0 9 None)) (demo_buffered\<lparr>seal_lock := Some 1, permit := True\<rparr>))
      = wr_state demo_buffered"
    by (simp add: goto_def)
  with demo_seal show ?thesis
    unfolding 1
    by (simp add: run_call_def run_cut_def goto_def aged_only_def seal_return_def unlock_def sealed_result_def)
       (simp add: demo_cut_def demo_buffered_def demo_writer_def writer_new_def)
qed

text \<open>The file is stored, and the upload stage is about to record it; then it is recorded.\<close>

definition demo_recording :: "objects writer" where
  "demo_recording = demo_waiting\<lparr>seal_queue := [], put_task := PRecord demo_payload,
     wr_world := (wr_world demo_waiting)(fm_object_key demo_meta \<mapsto> demo_body),
     wr_state := (wr_state demo_waiting)
       \<lparr>avg_row_bytes := Some (f64_div (f64_of_nat (length demo_body)) (f64_of_nat 1))\<rparr>\<rparr>"

definition demo_recorded :: "objects writer" where
  "demo_recorded = (record_durable demo_cx True demo_meta demo_recording)\<lparr>put_task := PLand demo_payload\<rparr>"

definition demo_landed :: "objects writer" where
  "demo_landed = demo_recorded\<lparr>put_task := PRecv, put_prev := Some (3, 0, 9),
     wr_progress := \<lparr>durable_seq = Some 3145728, pr_failing = None\<rparr>\<rparr>"

lemma demo_flushing:
  "demo_step (Run 2 False) (demo_step (Run 2 False) (demo_step (Run 2 False) (demo_step (Run 2 False)
     (demo_step (Call 2 Flush) demo_cut)))) = demo_waiting"
  by (simp add: run_call_def start_op_def run_lock_def goto_def sealable_def aged_only_def seal_return_def
      unlock_def sealed_result_def demo_healthy demo_cut_def demo_waiting_def demo_writer_def writer_new_def
      writer_state_new_def)

lemma demo_put: "put_once lb key body demo_handle s = (Inr (), demo_handle, s(key \<mapsto> body))"
  by (simp add: put_once_def put_def lift_storage_def demo_handle_def map_operator_def)

lemma demo_queued:
  "demo_step (GzipStep None) (demo_step (GzipStep None) (demo_step (RenderStep None)
        (demo_step (RenderStep None) (demo_step (RenderStep None) demo_waiting))))
      = demo_recording\<lparr>wr_world := wr_world demo_waiting, put_task := PRecv, put_chan := [demo_payload]\<rparr>"
proof -
  have 1: "demo_step (RenderStep None) (demo_step (RenderStep None) demo_waiting)
      = demo_recording\<lparr>wr_world := wr_world demo_waiting, put_task := PRecv,
          render_task := RSend \<lparr>rn_meta = demo_meta, rn_body = demo_body, rn_rows = 1\<rparr>\<rparr>"
    by (simp add: render_step_def render_attempt_def cleared_def demo_render demo_recording_def
        demo_waiting_def demo_cut_def demo_writer_def writer_new_def)
  show ?thesis
    unfolding 1
    by (simp add: render_step_def gzip_step_def compressed_of_def demo_payload_def demo_recording_def
        demo_waiting_def demo_cut_def demo_writer_def writer_new_def demo_meta_def demo_staged_def)
qed

definition demo_putting :: "objects writer" where
  "demo_putting = demo_recording\<lparr>put_task := PWork demo_payload 0, wr_world := wr_world demo_waiting\<rparr>"

lemma demo_checked:
  "demo_step (PutStep True) (demo_step (PutStep True) (demo_step (GzipStep None) (demo_step (GzipStep None)
     (demo_step (RenderStep None) (demo_step (RenderStep None) (demo_step (RenderStep None) demo_waiting)))))) = demo_putting"
  unfolding demo_queued
  by (simp add: put_step_def check_order_def demo_putting_def demo_payload_def
      demo_recording_def demo_waiting_def demo_cut_def demo_writer_def writer_new_def)

lemma demo_pipeline:
  "demo_step (PutStep True) (demo_step (PutStep True) (demo_step (PutStep True) (demo_step (PutStep True)
     (demo_step (GzipStep None) (demo_step (GzipStep None) (demo_step (RenderStep None)
       (demo_step (RenderStep None) (demo_step (RenderStep None) demo_waiting)))))))) = demo_recording"
  unfolding demo_checked
  by (simp add: put_step_def put_attempt_def demo_put cleared_def demo_payload_def demo_putting_def
      demo_recording_def demo_waiting_def demo_cut_def demo_writer_def writer_new_def)

lemma demo_record: "demo_step (PutStep True) demo_recording = demo_recorded"
  by (simp add: put_step_def demo_recording_def demo_recorded_def demo_payload_def)

lemma demo_land: "demo_step (PutStep True) demo_recorded = demo_landed"
  by (simp add: put_step_def demo_recorded_def demo_landed_def land_def set_progress_def demo_payload_def
      demo_meta_def demo_staged_def record_durable_def demo_recording_def demo_waiting_def demo_cut_def
      demo_writer_def writer_new_def progress_default_def Let_def)

section \<open>The run under a guard\<close>

definition demo_called :: "objects writer" where
  "demo_called = demo_step (Call 1 (Append demo_row 0 9)) demo_writer"

definition demo_asked :: "objects writer" where
  "demo_asked = demo_step (Call 2 Flush) demo_cut"

definition demo_flushed :: "objects writer" where
  "demo_flushed = demo_step (Run 2 False) (demo_step (Run 2 False) demo_landed)"

abbreviation demo_reach :: "(reading \<times> objects writer_event \<Rightarrow> objects writer \<Rightarrow> bool) \<Rightarrow> objects writer \<Rightarrow> objects writer \<Rightarrow> bool" where
  "demo_reach \<equiv> reach (writer_step demo_libs demo_cx)"

text \<open>Guards that let the calls and the stages of the writer run.\<close>

definition lets_run :: "(reading \<times> objects writer_event \<Rightarrow> objects writer \<Rightarrow> bool) \<Rightarrow> bool" where
  "lets_run G \<longleftrightarrow> (\<forall>t b join up w. G (demo_reading, Run t b) w \<and> G (demo_reading, RenderStep join) w
     \<and> G (demo_reading, GzipStep join) w \<and> G (demo_reading, PutStep up) w)"

lemma demo_lets: "lets_run (writer_allowed demo_cx)"
  by (simp add: lets_run_def)

lemma demo_on:
  assumes "lets_run G" and "demo_reach G w0 w"
  shows "demo_reach G w0 (demo_step (Run t b) w)" and "demo_reach G w0 (demo_step (RenderStep join) w)"
    and "demo_reach G w0 (demo_step (GzipStep join) w)" and "demo_reach G w0 (demo_step (PutStep up) w)"
  by (rule reach_step [OF assms(2)], use assms(1) in \<open>simp add: lets_run_def\<close>)+

lemma demo_runs:
  assumes "lets_run G"
  shows "demo_reach G demo_called demo_cut" and "demo_reach G demo_asked demo_putting"
    and "demo_reach G demo_asked demo_recording" and "demo_reach G demo_asked demo_recorded"
    and "demo_reach G demo_asked demo_landed" and "demo_reach G demo_asked demo_flushed"
    and "demo_reach G demo_asked demo_waiting"
proof -
  note on = demo_on [OF assms]
  have "demo_reach G demo_called (demo_step (Run 1 False) (demo_step (Run 1 False) (demo_step (Run 1 False)
      (demo_step (Run 1 False) (demo_step (Run 1 False) (demo_step (Run 1 False) demo_called))))))"
    by (intro on reach_refl)
  then show "demo_reach G demo_called demo_cut" by (simp only: demo_called_def demo_push demo_cutting)
  have "demo_reach G demo_asked (demo_step (Run 2 False) (demo_step (Run 2 False) (demo_step (Run 2 False)
      (demo_step (Run 2 False) demo_asked))))"
    by (intro on reach_refl)
  then show waiting: "demo_reach G demo_asked demo_waiting" by (simp only: demo_asked_def demo_flushing)
  have "demo_reach G demo_asked (demo_step (PutStep True) (demo_step (PutStep True)
      (demo_step (GzipStep None) (demo_step (GzipStep None) (demo_step (RenderStep None) (demo_step (RenderStep None)
        (demo_step (RenderStep None) demo_waiting)))))))"
    by (intro on waiting)
  then show putting: "demo_reach G demo_asked demo_putting" by (simp only: demo_checked)
  have "demo_reach G demo_asked (demo_step (PutStep True) (demo_step (PutStep True) demo_putting))"
    by (intro on putting)
  then show recording: "demo_reach G demo_asked demo_recording" by (simp only: demo_checked [symmetric] demo_pipeline)
  have "demo_reach G demo_asked (demo_step (PutStep True) demo_recording)" by (intro on recording)
  then show recorded: "demo_reach G demo_asked demo_recorded" by (simp only: demo_record)
  have "demo_reach G demo_asked (demo_step (PutStep True) demo_recorded)" by (intro on recorded)
  then show landed: "demo_reach G demo_asked demo_landed" by (simp only: demo_land)
  show "demo_reach G demo_asked demo_flushed"
    unfolding demo_flushed_def by (intro on landed)
qed

text \<open>The two calls are allowed where they are made, and they return.\<close>

lemma demo_calls:
  "writer_allowed demo_cx (demo_reading, Call 1 (Append demo_row 0 9)) demo_writer"
  "writer_allowed demo_cx (demo_reading, Call 2 Flush) demo_cut"
  "calls demo_called 1 = Some (Start (Append demo_row 0 9))" "calls demo_cut 1 = Some (Finished (AppendDone (Inr ())))"
  "calls demo_asked 2 = Some (Start Flush)" "calls demo_flushed 2 = Some (Finished (FlushDone (Inr (Some 9))))"
proof -
  show "writer_allowed demo_cx (demo_reading, Call 1 (Append demo_row 0 9)) demo_writer"
    by (simp add: demo_writer_def writer_new_def idle_def)
  show "writer_allowed demo_cx (demo_reading, Call 2 Flush) demo_cut"
    by (simp add: demo_cut_def demo_writer_def writer_new_def idle_def)
  show "calls demo_called 1 = Some (Start (Append demo_row 0 9))" by (simp add: demo_called_def goto_def)
  show "calls demo_cut 1 = Some (Finished (AppendDone (Inr ())))" by (simp add: demo_cut_def)
  show "calls demo_asked 2 = Some (Start Flush)" by (simp add: demo_asked_def goto_def)
  have "calls demo_landed 2 = Some (AwaitFile ForFlush 3145728)"
      "durable_seq (wr_progress demo_landed) = Some 3145728" "staged_offset (wr_state demo_landed) = Some 9"
    by (simp_all add: demo_landed_def demo_recorded_def demo_recording_def demo_waiting_def demo_cut_def
      demo_writer_def writer_new_def writer_state_new_def record_durable_def Let_def demo_meta_def demo_staged_def)
  then show "calls demo_flushed 2 = Some (Finished (FlushDone (Inr (Some 9))))"
    by (simp add: demo_flushed_def run_call_def run_await_def flushed_def goto_def)
qed

end
