(* ===== verification/Writer_Promises.thy ===== *)
theory Writer_Promises
  imports Writer_Refinement Writer_Demo
begin

text \<open>
  What a writer promises to the application that owns the Kafka consumer, stated over every state it can
  reach from \<open>TableWriter::new\<close> whatever the interleaving, the failures and the servers. Each property is
  read off the simulation of \<open>Writer_Refinement\<close>.
\<close>

section \<open>A writer as \<open>open_table\<close> hands it out\<close>

text \<open>
  The notify queue holds and has confirmed only serial sequences below the session's epoch, which is what
  \<open>next_epoch\<close> is for.
\<close>

definition opened :: "writer_ctx \<Rightarrow> 's writer \<Rightarrow> bool" where
  "opened cx w0 \<longleftrightarrow>
     (\<exists>h n s epoch staged resume known now.
        w0 = writer_new cx h n s epoch staged resume known now \<and> board_inv n
        \<and> below_floor cx n (int (serial_nat epoch 0)))"

abbreviation writer_reach :: "'s libs \<Rightarrow> writer_ctx \<Rightarrow> 's writer \<Rightarrow> 's writer \<Rightarrow> bool" where
  "writer_reach lb cx \<equiv> reach (writer_step lb cx) (writer_allowed cx)"

definition spool_of :: "'s writer \<Rightarrow> spool" where
  "spool_of w0 = spool_new (ws_epoch_ms (wr_state w0)) (staged_offset (wr_state w0))"

lemma opened_sim: "opened cx w0 \<Longrightarrow> sim cx w0 (spool_of w0) \<and> spool_inv (spool_of w0)"
  by (auto simp: opened_def spool_of_def writer_new_def writer_state_new_def spool_inv_new dest: sim_new)

lemma opened_reach:
  assumes "opened cx w0" and "writer_reach lb cx w0 w"
  shows "\<exists>a. reach spool_step spool_allowed (spool_of w0) a \<and> sim cx w a \<and> spool_inv a"
  using writer.rel_reach [OF assms(2)] opened_sim [OF assms(1)] by blast

lemma opened_invariant:
  assumes "\<And>v a. sim cx v a \<Longrightarrow> spool_inv a \<Longrightarrow> P v" and "opened cx w0" and "writer_reach lb cx w0 w"
  shows "P w"
  using opened_reach [OF assms(2,3)] assms(1) by blast

text \<open>What the spool of a state has to do with the state.\<close>

definition spooled :: "spool \<Rightarrow> 's writer \<Rightarrow> bool" where
  "spooled a w \<longleftrightarrow>
     sp_buffer a = map snd (buffered (wr_state w)) \<and> sp_staged a = staged_offset (wr_state w)
     \<and> prefix (map fm_file (live w)) (drop (sp_done a) (map fst (sp_sealed a)))
     \<and> (running w \<longrightarrow> map fm_file (live w) = drop (sp_done a) (map fst (sp_sealed a)))"

lemma sim_spooled: "sim cx w a \<Longrightarrow> spooled a w"
  by (auto simp: sim_def sim_state_def sim_pipe_def spooled_def)

lemma spool_kept: "reach spool_step spool_allowed a0 a \<Longrightarrow> spool_inv a0 \<Longrightarrow> sp_init a = sp_init a0"
  using spool.grows_reach [of a0 a] by (simp add: spool_grows_def)

section \<open>The demo run reaches its states\<close>

lemma demo_opened: "opened demo_cx demo_writer"
  unfolding opened_def demo_writer_def
  by (intro exI conjI, rule refl, rule board_inv_spawn)
     (simp add: below_floor_def notifier_spawn_def Notify_Queue.pending_def)

lemma demo_go:
  "writer_reach demo_libs demo_cx w0 w \<Longrightarrow> writer_allowed demo_cx (demo_reading, ev) w \<Longrightarrow>
     writer_reach demo_libs demo_cx w0 (demo_step ev w)"
  by (rule reach_step)

lemma demo_reach_called: "writer_reach demo_libs demo_cx demo_writer demo_called"
  unfolding demo_called_def by (rule demo_go [OF reach_refl demo_calls(1)])

lemma demo_reach_asked: "writer_reach demo_libs demo_cx demo_writer demo_asked"
proof -
  have "writer_reach demo_libs demo_cx demo_writer demo_cut"
    by (rule reach_trans [OF demo_runs(1) [OF demo_lets] demo_reach_called])
  from demo_go [OF this demo_calls(2)] show ?thesis by (simp only: demo_asked_def)
qed

lemmas demo_reaches = demo_runs(2-7) [OF demo_lets, THEN reach_trans, OF demo_reach_asked]

text \<open>A second batch behind the durable one.\<close>

definition demo_again :: "objects writer" where
  "demo_again = demo_step (Run 3 False) (demo_step (Run 3 False) (demo_step (Call 3 (Append demo_row 10 12)) demo_landed))"

lemma demo_reach_again: "writer_reach demo_libs demo_cx demo_writer demo_again"
proof -
  have "writer_allowed demo_cx (demo_reading, Call 3 (Append demo_row 10 12)) demo_landed"
    by (simp add: idle_def demo_landed_def demo_recorded_def demo_recording_def demo_waiting_def demo_cut_def
        demo_writer_def writer_new_def record_durable_def Let_def)
  from demo_go [OF demo_reaches(4) this] show ?thesis
    unfolding demo_again_def by (intro demo_on demo_lets)
qed

lemma demo_goto: "calls (goto t p w) t = Some p" "goto t q (goto t p w) = goto t q w"
  by (simp_all add: goto_def)

lemma demo_again_buffer:
  "map snd (buffered (wr_state demo_again)) = [(10, 12)] \<and> staged_offset (wr_state demo_again) = Some 9"
proof -
  have h: "check_health demo_cx (goto 3 (Start (Append demo_row 10 12)) demo_landed) = Inr ()"
    by (simp add: check_health_def fatal_state_def notifier_fatal_def stall_error_def goto_def demo_landed_def
        demo_recorded_def demo_recording_def demo_waiting_def demo_cut_def demo_writer_def writer_new_def
        record_durable_def Let_def notifier_spawn_def)
  then have 1: "demo_step (Run 3 False) (demo_step (Call 3 (Append demo_row 10 12)) demo_landed)
      = goto 3 (Buffering demo_row 10 12) demo_landed"
    by (simp add: run_call_def start_append_def start_op_def demo_projections demo_goto)
  show ?thesis
    unfolding demo_again_def 1
    by (simp add: run_call_def run_buffer_def push_batch_def Let_def goto_def demo_landed_def
        demo_recorded_def demo_recording_def demo_waiting_def demo_cut_def demo_writer_def writer_new_def
        writer_state_new_def record_durable_def demo_meta_def demo_staged_def split: prod.splits sum.splits)
qed

section \<open>Durable prefixes\<close>

lemma fresh_above_done:
  assumes "spool_inv a" and "sp_staged a \<noteq> sp_init a" and "sp_staged a = Some x"
    and "(s, e) \<in> set (sp_buffer a) \<or> (\<exists>i < length (sp_sealed a). sp_done a \<le> i \<and> (s, e) \<in> set (snd (sp_sealed a ! i)))"
  shows "x < s"
proof -
  let ?k = "sp_done a - 1"
  have "sp_staged a = (if sp_done a = 0 then sp_init a else raise_to (sp_init a)
      (end_offset (fst (sp_sealed a ! (sp_done a - 1)))))"
    using assms(1) by (simp add: spool_inv_def)
  with assms(2) have d: "sp_done a \<noteq> 0" by metis
  have k: "?k < length (sp_sealed a)" using d spool_inv_parts(5) [OF assms(1)] by simp
  have x: "x = end_offset (fst (sp_sealed a ! ?k))"
    using assms(1-3) d by (auto simp: spool_inv_def raise_to_def max_def split: option.splits if_splits)
  have fr: "file_of_ranges (sp_sealed a ! ?k)"
    using spool_inv_parts(4) [OF assms(1)] k by (simp add: list_all_length)
  from assms(4) show ?thesis
  proof
    assume "(s, e) \<in> set (sp_buffer a)"
    moreover have "last (snd (sp_sealed a ! ?k)) \<in> set (concat (map snd (sp_sealed a)))"
      using fr k by (auto simp: file_of_ranges_def intro!: bexI [of _ "sp_sealed a ! ?k"])
    ultimately show ?thesis
      using spool_inv_parts(2) [OF assms(1)] x fr unfolding ascending_append file_of_ranges_def by fastforce
  next
    assume "\<exists>i < length (sp_sealed a). sp_done a \<le> i \<and> (s, e) \<in> set (snd (sp_sealed a ! i))"
    then obtain i where i: "i < length (sp_sealed a)" "sp_done a \<le> i" "(s, e) \<in> set (snd (sp_sealed a ! i))"
      by blast
    from file_ends_less [OF spool_inv_parts(3,4) [OF assms(1)] _ i(1,3), of ?k] d i(2) x show ?thesis by simp
  qed
qed

lemma live_is_undone:
  assumes "spooled a w" and "m \<in> set (live w)"
  shows "\<exists>i < length (sp_sealed a). sp_done a \<le> i \<and> fst (sp_sealed a ! i) = fm_file m"
proof -
  from assms have "fm_file m \<in> set (drop (sp_done a) (map fst (sp_sealed a)))"
    unfolding spooled_def by (metis (no_types, lifting) image_eqI list.set_map set_mono_prefix subsetD)
  then obtain j where "j < length (sp_sealed a) - sp_done a" "map fst (sp_sealed a) ! (sp_done a + j) = fm_file m"
    by (auto simp: in_set_conv_nth)
  then show ?thesis by (intro exI [of _ "sp_done a + j"]) auto
qed

lemma live_above_staged:
  assumes "spool_inv a" and "spooled a w" and "sp_staged a \<noteq> sp_init a" and "sp_staged a = Some x"
    and "m \<in> set (live w)"
  shows "x < start_offset (fm_file m)"
proof -
  from live_is_undone [OF assms(2,5)] obtain i where
    i: "i < length (sp_sealed a)" "sp_done a \<le> i" "fst (sp_sealed a ! i) = fm_file m" by blast
  have fr: "file_of_ranges (sp_sealed a ! i)"
    using spool_inv_parts(4) [OF assms(1)] i(1) by (simp add: list_all_length)
  then have "hd (snd (sp_sealed a ! i)) \<in> set (snd (sp_sealed a ! i))" by (simp add: file_of_ranges_def)
  then have "x < fst (hd (snd (sp_sealed a ! i)))"
    using i by (intro fresh_above_done [OF assms(1,3,4), of _ "snd (hd (snd (sp_sealed a ! i)))"]) auto
  with i fr show ?thesis by (simp add: file_of_ranges_def)
qed

lemma below_floor_allowed:
  "below_floor cx n fl \<Longrightarrow> nr_group r = group_of cx \<Longrightarrow> fl \<le> nr_serial_seq r \<Longrightarrow> board_allowed (Enqueue r) n"
  by (fastforce simp: below_floor_def split: option.splits)

lemma sim_announces:
  assumes "sim cx w a" and "spool_inv a" and "put_task w = PRecord f"
  shows "board_inv (wr_notifier w) \<and> board_allowed (Enqueue (file_request cx base (cp_meta f))) (wr_notifier w)"
proof -
  have h: "sp_done a < length (sp_sealed a)" "fst (sp_sealed a ! sp_done a) = fm_file (cp_meta f)" "meta_ok (cp_meta f)"
    using sim_head [OF assms(1)] assms(3) by (simp_all add: live_def put_files_def)
  have "floor_of a \<le> nr_serial_seq (file_request cx base (cp_meta f))"
    using floor_le [OF assms(2) h(1)] h by (simp add: file_request_def meta_ok_def)
  moreover have "nr_group (file_request cx base (cp_meta f)) = group_of cx"
    by (simp add: file_request_def)
  moreover have "board_inv (wr_notifier w)" "below_floor cx (wr_notifier w) (floor_of a)"
    using assms(1) by (simp_all add: sim_def sim_board_def)
  ultimately show ?thesis
    using below_floor_allowed by blast
qed

section \<open>Properties\<close>

text \<open>
  C5. The writer refines the spool. Whatever the tasks, failures and servers do, the state of a writer is
  that of a spool: offset ranges are accepted, cut into files and landed strictly in order. The writer's
  buffer and staged offset are the spool's, the files in its pipeline are the first of the spool's files
  that are not yet durable (all of them while no stage has stopped), and a batch that was accepted above
  the opening offset and lies at or below the staged offset is in a durable file.
\<close>
theorem writer_refines_spool:
  assumes "opened cx w0" and "writer_reach lb cx w0 w"
  shows "\<exists>a. reach spool_step spool_allowed (spool_of w0) a \<and> spooled a w \<and>
    (\<forall>s e x. (s, e) \<in> set (sp_accepted a) \<and> staged_offset (wr_state w) = Some x \<and> e \<le> x
       \<and> (case staged_offset (wr_state w0) of None \<Rightarrow> True | Some y \<Rightarrow> y < e)
       \<longrightarrow> (\<exists>i < sp_done a. (s, e) \<in> set (snd (sp_sealed a ! i))))"
proof -
  from opened_reach [OF assms] obtain a where
    a: "reach spool_step spool_allowed (spool_of w0) a" "sim cx w a" "spool_inv a" by blast
  have "sp_init a = staged_offset (wr_state w0)"
    using spool_kept [OF a(1)] opened_sim [OF assms(1)] by (simp add: spool_of_def spool_new_def)
  moreover have "sp_staged a = staged_offset (wr_state w)"
    using sim_spooled [OF a(2)] by (simp add: spooled_def)
  ultimately have "\<exists>i < sp_done a. (s, e) \<in> set (snd (sp_sealed a ! i))"
    if "(s, e) \<in> set (sp_accepted a) \<and> staged_offset (wr_state w) = Some x \<and> e \<le> x
       \<and> (case staged_offset (wr_state w0) of None \<Rightarrow> True | Some y \<Rightarrow> y < e)" for s e x
    using that by (intro spool_commit_gate [OF a(3)]) auto
  with a(1) sim_spooled [OF a(2)] show ?thesis by blast
qed

theorem writer_refines_spool_witness:
  "staged_offset (wr_state demo_landed) = Some 9 \<and>
   (\<exists>a. reach spool_step spool_allowed (spool_of demo_writer) a \<and> spooled a demo_landed)"
  using writer_refines_spool [OF demo_opened demo_reaches(4)]
  by (auto simp: demo_landed_def demo_recorded_def demo_recording_def demo_waiting_def demo_cut_def
      demo_writer_def writer_new_def writer_state_new_def record_durable_def Let_def demo_meta_def demo_staged_def)

text \<open>
  C6. The commit gate. Once the staged offset has moved from the value the writer was opened with, every
  batch that is still in the buffer and every file that is still in the pipeline starts above it: an
  application that commits \<open>staged_offset() + 1\<close> never commits a row that is not durable.
\<close>
theorem commit_gate:
  assumes "opened cx w0" and "writer_reach lb cx w0 w"
    and "staged_offset (wr_state w) = Some x" and "staged_offset (wr_state w) \<noteq> staged_offset (wr_state w0)"
  shows "(\<forall>(batch, s, e) \<in> set (buffered (wr_state w)). x < s)
    \<and> (\<forall>m \<in> set (live w). x < start_offset (fm_file m))"
proof -
  from opened_reach [OF assms(1,2)] obtain a where
    a: "reach spool_step spool_allowed (spool_of w0) a" "sim cx w a" "spool_inv a" by blast
  have sp: "spooled a w" using a(2) by (rule sim_spooled)
  then have b: "sp_buffer a = map snd (buffered (wr_state w))" "sp_staged a = staged_offset (wr_state w)"
    by (simp_all add: spooled_def)
  have "sp_init a = staged_offset (wr_state w0)"
    using spool_kept [OF a(1)] opened_sim [OF assms(1)] by (simp add: spool_of_def spool_new_def)
  with assms(3,4) b have st: "sp_staged a \<noteq> sp_init a" "sp_staged a = Some x" by simp_all
  show ?thesis
    using fresh_above_done [OF a(3) st] live_above_staged [OF a(3) sp st] b(1) by force
qed

theorem commit_gate_witness:
  "\<exists>b s e. staged_offset (wr_state demo_again) = Some 9 \<and> buffered (wr_state demo_again) = [(b, s, e)] \<and> 9 < s"
proof -
  have "staged_offset (wr_state demo_again) = Some 9" "staged_offset (wr_state demo_writer) = None"
    using demo_again_buffer by (simp_all add: demo_writer_def writer_new_def writer_state_new_def)
  moreover obtain b s e where "buffered (wr_state demo_again) = [(b, s, e)]" using demo_again_buffer by auto
  ultimately show ?thesis using commit_gate [OF demo_opened demo_reach_again] by auto
qed

text \<open>
  C15. The order tripwire is silent. In no reachable state has the tripwire fired, and a file that the upload
  stage is about to check passes: the pipeline cannot reorder, skip or repeat a file, so the check guards
  against a broken pipeline and never stops a healthy one.
\<close>
theorem tripwire_never_fires:
  assumes "opened cx w0" and "writer_reach lb cx w0 w"
  shows "order_fatal w = None
    \<and> (\<forall>f. put_task w = PCheck f \<longrightarrow> check_order (put_prev w) (fm_file (cp_meta f)) = Inr ())"
  by (rule opened_invariant [OF _ assms]) (use sim_check_order in \<open>auto simp: sim_def\<close>)

theorem tripwire_never_fires_witness:
  "put_prev demo_again = Some (3, 0, 9) \<and> order_fatal demo_again = None"
proof -
  have "put_prev demo_again = put_prev demo_landed"
    by (simp add: demo_again_def run_call_def start_op_def start_append_def run_buffer_def goto_def
        demo_projections split: sum.splits prod.splits)
  with tripwire_never_fires [OF demo_opened demo_reach_again] show ?thesis
    by (simp add: demo_landed_def)
qed

end
