(* ===== verification/Spool_Handover.thy ===== *)
theory Spool_Handover
  imports Spool_Spec
begin

text \<open>
  Where the offsets of a spool lie: the ranges of a file, the files against each other, and what it means
  that a consumer may take up after a spool at an offset, batch by batch and offset by offset.
\<close>

section \<open>Ranges and files\<close>

lemma ascending_last: "ascending rs \<Longrightarrow> r \<in> set rs \<Longrightarrow> snd r \<le> snd (last rs)"
proof (induction rs)
  case (Cons x xs)
  show ?case
  proof (cases "xs = []")
    case False
    then have l: "last xs \<in> set xs" by simp
    have "snd x < fst (last xs)" "fst (last xs) \<le> snd (last xs)"
      using Cons.prems(1) l by (auto simp: ascending_def)
    moreover have "ascending xs" using Cons.prems(1) by (simp add: ascending_def)
    ultimately show ?thesis using Cons False by auto
  qed (use Cons in simp)
qed simp

lemma file_ascending:
  assumes "spool_inv a" and "i < length (sp_sealed a)"
  shows "ascending (snd (sp_sealed a ! i))"
proof -
  from spool_inv_parts(3) [OF assms(1)]
  have "ascending (concat (map snd (take i (sp_sealed a @ [])) @ map snd (drop i (sp_sealed a))))"
    by (metis append_Nil2 append_take_drop_id map_append)
  moreover have "drop i (sp_sealed a) = sp_sealed a ! i # drop (Suc i) (sp_sealed a)"
    using assms(2) by (rule Cons_nth_drop_Suc [symmetric])
  ultimately show ?thesis by (simp add: ascending_append)
qed

lemma file_of_ranges_nth:
  "spool_inv a \<Longrightarrow> i < length (sp_sealed a) \<Longrightarrow> file_of_ranges (sp_sealed a ! i)"
  using spool_inv_parts(4) [of a] by (simp add: list_all_length)

lemma range_in_file:
  assumes "spool_inv a" and "i < length (sp_sealed a)" and "(s, e) \<in> set (snd (sp_sealed a ! i))"
  shows "start_offset (fst (sp_sealed a ! i)) \<le> s" and "s \<le> e" and "e \<le> end_offset (fst (sp_sealed a ! i))"
proof -
  let ?rs = "snd (sp_sealed a ! i)"
  note fr = file_of_ranges_nth [OF assms(1,2)] and asc = file_ascending [OF assms(1,2)]
  have "fst (hd ?rs) \<le> s"
    using asc assms(3) by (cases ?rs) (fastforce simp: ascending_def)+
  with fr show "start_offset (fst (sp_sealed a ! i)) \<le> s" by (simp add: file_of_ranges_def)
  show "s \<le> e" using asc assms(3) by (auto simp: ascending_def)
  show "e \<le> end_offset (fst (sp_sealed a ! i))"
    using ascending_last [OF asc assms(3)] fr by (simp add: file_of_ranges_def)
qed

lemma file_bounds:
  assumes "spool_inv a" and "i < length (sp_sealed a)"
  shows "start_offset (fst (sp_sealed a ! i)) \<le> end_offset (fst (sp_sealed a ! i))"
    and "\<exists>s. (s, end_offset (fst (sp_sealed a ! i))) \<in> set (snd (sp_sealed a ! i))"
proof -
  note fr = file_of_ranges_nth [OF assms]
  then have "last (snd (sp_sealed a ! i)) \<in> set (snd (sp_sealed a ! i))" by (simp add: file_of_ranges_def)
  with fr show s: "\<exists>s. (s, end_offset (fst (sp_sealed a ! i))) \<in> set (snd (sp_sealed a ! i))"
    by (metis file_of_ranges_def prod.collapse)
  then show "start_offset (fst (sp_sealed a ! i)) \<le> end_offset (fst (sp_sealed a ! i))"
    using range_in_file [OF assms] by fastforce
qed

lemma range_filed:
  assumes "i < length (sp_sealed a)" and "r \<in> set (snd (sp_sealed a ! i))"
  shows "r \<in> set (concat (map snd (sp_sealed a)))"
  using assms by (auto intro!: bexI [of _ "sp_sealed a ! i"])

text \<open>Files lie one behind the other.\<close>

lemma files_apart:
  assumes "spool_inv a" and "i < j" and "j < length (sp_sealed a)"
  shows "end_offset (fst (sp_sealed a ! i)) < start_offset (fst (sp_sealed a ! j))"
proof -
  have "hd (snd (sp_sealed a ! j)) \<in> set (snd (sp_sealed a ! j))"
    using file_of_ranges_nth [OF assms(1,3)] by (simp add: file_of_ranges_def)
  from file_ends_less [OF spool_inv_parts(3,4) [OF assms(1)] assms(2,3) this] show ?thesis
    using file_of_ranges_nth [OF assms(1,3)] by (simp add: file_of_ranges_def)
qed

lemma ends_mono:
  assumes "spool_inv a" and "i \<le> k" and "k < length (sp_sealed a)"
  shows "end_offset (fst (sp_sealed a ! i)) \<le> end_offset (fst (sp_sealed a ! k))"
  using files_apart [OF assms(1) _ assms(3), of i] file_bounds(1) [OF assms(1,3)] assms(2)
  by (cases "i = k") auto

text \<open>The place of an accepted batch against the end of the file \<open>k\<close> of a spool.\<close>

lemma batch_place:
  assumes "spool_inv a" and "k < length (sp_sealed a)" and "(s, e) \<in> set (sp_accepted a)"
  shows "end_offset (fst (sp_sealed a ! k)) < s
    \<or> (e \<le> end_offset (fst (sp_sealed a ! k)) \<and> (\<exists>i \<le> k. (s, e) \<in> set (snd (sp_sealed a ! i))))"
proof -
  let ?fs = "sp_sealed a"
  have "(s, e) \<in> set (sp_buffer a) \<or> (\<exists>f \<in> set ?fs. (s, e) \<in> set (snd f))"
    using assms(3) unfolding spool_inv_parts(1) [OF assms(1)] by auto
  then consider (held) "(s, e) \<in> set (sp_buffer a)" | (cut) i where "i < length ?fs" "(s, e) \<in> set (snd (?fs ! i))"
    by (metis in_set_conv_nth)
  then show ?thesis
  proof cases
    case held
    from file_bounds(2) [OF assms(1,2)] obtain s' where
      "(s', end_offset (fst (?fs ! k))) \<in> set (concat (map snd ?fs))" using range_filed [OF assms(2)] by blast
    then show ?thesis
      using spool_inv_parts(2) [OF assms(1)] held unfolding ascending_append by fastforce
  next
    case cut
    show ?thesis
    proof (cases "i \<le> k")
      case False
      then show ?thesis
        using files_apart [OF assms(1) _ cut(1), of k] range_in_file(1) [OF assms(1) cut] by simp
    next
      case True
      then show ?thesis
        using range_in_file(3) [OF assms(1) cut] ends_mono [OF assms(1) True assms(2)] cut(2) by auto
    qed
  qed
qed

section \<open>Taking up after a spool\<close>

text \<open>
  An offset to resume at after \<open>a\<close>: it is covered by the offset the spool began with, or it follows the end
  of a file up to which every file is taken care of.
\<close>

definition resumes_after :: "spool \<Rightarrow> (staged_file \<Rightarrow> bool) \<Rightarrow> i64 \<Rightarrow> bool" where
  "resumes_after a kept r \<longleftrightarrow>
     (\<exists>y. sp_init a = Some y \<and> r \<le> y + 1)
     \<or> (\<exists>i < length (sp_sealed a). r = end_offset (fst (sp_sealed a ! i)) + 1
          \<and> (\<forall>j \<le> i. kept (fst (sp_sealed a ! j))))"

lemma resumes_batch:
  assumes "spool_inv a" and "resumes_after a kept r" and "(s, e) \<in> set (sp_accepted a)"
    and "case sp_init a of None \<Rightarrow> True | Some y \<Rightarrow> y < s" and "\<not> r \<le> s"
  shows "e < r \<and> (\<exists>i < length (sp_sealed a). (s, e) \<in> set (snd (sp_sealed a ! i)) \<and> kept (fst (sp_sealed a ! i)))"
proof -
  from assms(2,4,5) obtain i where i: "i < length (sp_sealed a)" "r = end_offset (fst (sp_sealed a ! i)) + 1"
    "\<forall>j \<le> i. kept (fst (sp_sealed a ! j))"
    unfolding resumes_after_def by (auto split: option.splits)
  with batch_place [OF assms(1) i(1) assms(3)] assms(5) obtain j where
    "e < r" "j \<le> i" "(s, e) \<in> set (snd (sp_sealed a ! j))" by auto
  with i show ?thesis by (intro conjI exI [of _ j]) auto
qed

text \<open>A consumer that reads every offset from \<open>x\<close> on, as the batches were accepted.\<close>

fun fed_from :: "i64 \<Rightarrow> range list \<Rightarrow> bool" where
  "fed_from x [] \<longleftrightarrow> True"
| "fed_from x ((s, e) # rs) \<longleftrightarrow> s = x \<and> s \<le> e \<and> fed_from (e + 1) rs"

lemma fed_covers: "fed_from x rs \<Longrightarrow> (s, e) \<in> set rs \<Longrightarrow> x \<le> v \<Longrightarrow> v \<le> e \<Longrightarrow> \<exists>(s, e) \<in> set rs. s \<le> v \<and> v \<le> e"
proof (induction x rs rule: fed_from.induct)
  case (2 x s' e' rs)
  then show ?case by (cases "v \<le> e'") auto
qed simp

lemma fed_above: "fed_from x rs \<Longrightarrow> (s, e) \<in> set rs \<Longrightarrow> x \<le> s"
  by (induction x rs rule: fed_from.induct) fastforce+

definition holds_offset :: "spool \<Rightarrow> nat \<Rightarrow> i64 \<Rightarrow> bool" where
  "holds_offset a i v \<longleftrightarrow> i < length (sp_sealed a)
     \<and> start_offset (fst (sp_sealed a ! i)) \<le> v \<and> v \<le> end_offset (fst (sp_sealed a ! i))"

lemma holds_offset_one: "spool_inv a \<Longrightarrow> holds_offset a i v \<Longrightarrow> holds_offset a j v \<Longrightarrow> i = j"
  using files_apart [of a i j] files_apart [of a j i] by (cases i j rule: linorder_cases) (auto simp: holds_offset_def)

lemma resumes_offset:
  assumes "spool_inv a" and "resumes_after a kept r" and "fed_from x (sp_accepted a)"
    and "case sp_init a of None \<Rightarrow> True | Some y \<Rightarrow> x = y + 1" and "x \<le> v" and "v < r"
  shows "\<exists>!i. holds_offset a i v" and "\<And>i. holds_offset a i v \<Longrightarrow> kept (fst (sp_sealed a ! i))"
proof -
  from assms(2,4-6) obtain k where k: "k < length (sp_sealed a)" "r = end_offset (fst (sp_sealed a ! k)) + 1"
    unfolding resumes_after_def by (auto split: option.splits)
  from file_bounds(2) [OF assms(1) k(1)] obtain s' where
    "(s', end_offset (fst (sp_sealed a ! k))) \<in> set (sp_accepted a)"
    using spool_inv_parts(1) [OF assms(1)] range_filed [OF k(1)] by (metis UnI1 set_append)
  from fed_covers [OF assms(3) this assms(5)] assms(6) k(2) obtain s e where
    se: "(s, e) \<in> set (sp_accepted a)" "s \<le> v" "v \<le> e" by auto
  have "case sp_init a of None \<Rightarrow> True | Some y \<Rightarrow> y < s"
    using fed_above [OF assms(3) se(1)] assms(4) by (auto split: option.splits)
  from resumes_batch [OF assms(1,2) se(1) this] se(2) assms(6) obtain i where
    i: "i < length (sp_sealed a)" "(s, e) \<in> set (snd (sp_sealed a ! i))" "kept (fst (sp_sealed a ! i))" by auto
  with range_in_file [OF assms(1) i(1,2)] se have h: "holds_offset a i v" by (simp add: holds_offset_def)
  with holds_offset_one [OF assms(1)] show "\<exists>!i. holds_offset a i v" by blast
  show "kept (fst (sp_sealed a ! j))" if "holds_offset a j v" for j
    using holds_offset_one [OF assms(1) h that] i(3) by simp
qed

end
