(* ===== verification/Writer_Barrier.thy ===== *)
theory Writer_Barrier
  imports Writer_Promises Spool_Handover
begin

text \<open>
  What a successful \<open>flush\<close> or \<open>close\<close> tells the caller (\<open>flush_pipeline\<close> and \<open>await_durable\<close> in
  \<open>src/table.rs\<close>): there was a moment during the call at which the buffer was empty, and every file that
  was cut by then is durable when the offset that the call returns is read.
\<close>

section \<open>Serial sequences along the spool\<close>

lemma serial_less:
  assumes "spool_inv a" and "i < j" and "j < length (sp_sealed a)"
  shows "serial_of (fst (sp_sealed a ! i)) < serial_of (fst (sp_sealed a ! j))"
  using assms(2,3)
proof (induction j)
  case (Suc j)
  with serial_step [OF assms(1), of j] show ?case
    by (cases "i = j") (auto intro: less_trans)
qed simp

lemma spool_later:
  assumes "sim cx v a" and "spool_inv a" and "writer_reach lb cx v w"
  shows "\<exists>b. reach spool_step spool_allowed a b \<and> sim cx w b \<and> spool_inv b \<and> spool_grows a b"
  using writer.rel_reach [OF assms(3,1,2)] spool.grows_reach [OF _ assms(2)] by blast

lemma sim_last_sealed:
  "sim cx w a \<Longrightarrow> last_sealed_seq (wr_state w) =
     (if sp_sealed a = [] then None else Some (serial_of (fst (sp_sealed a ! (length (sp_sealed a) - 1)))))"
  by (simp add: sim_def sim_state_def last_conv_nth)

lemma last_sealed_grows:
  assumes "sim cx v a" and "spool_inv a" and "writer_reach lb cx v w" and "last_sealed_seq (wr_state v) = Some s"
  shows "\<exists>s'. last_sealed_seq (wr_state w) = Some s' \<and> s \<le> s'"
proof -
  from spool_later [OF assms(1-3)] obtain b where b: "sim cx w b" "spool_inv b" "spool_grows a b" by blast
  from b(3) obtain zs where zs: "sp_sealed b = sp_sealed a @ zs" by (auto simp: spool_grows_def prefix_def)
  let ?i = "length (sp_sealed a) - 1" and ?j = "length (sp_sealed b) - 1"
  from assms(4) have ne: "sp_sealed a \<noteq> []" "s = serial_of (fst (sp_sealed a ! ?i))"
    using sim_last_sealed [OF assms(1)] by (auto split: if_splits)
  then have "s = serial_of (fst (sp_sealed b ! ?i))" "sp_sealed b \<noteq> []" by (simp_all add: zs nth_append)
  moreover have "?i \<le> ?j" "?j < length (sp_sealed b)" using ne by (simp_all add: zs)
  ultimately show ?thesis
    using sim_last_sealed [OF b(1)] serial_less [OF b(2), of ?i ?j] by (cases "?i = ?j") auto
qed

text \<open>The durable serial sequence counts the files that have landed.\<close>

lemma durable_counts:
  assumes "sim cx w a" and "spool_inv a" and "durable_seq (wr_progress w) = Some d"
    and "i < length (sp_sealed a)" and "serial_of (fst (sp_sealed a ! i)) \<le> d"
  shows "i < sp_done a"
proof -
  have "sim_prev (landing w) (put_prev w) a" using assms(1) by (simp add: sim_def sim_pipe_def)
  then have "put_prev w = prev_at a (sp_done a) \<or> put_prev w = prev_at a (sp_done a - 1)"
    by (auto simp: sim_prev_def split: option.splits)
  then have "\<exists>n \<le> sp_done a. put_prev w = prev_at a n" by (metis diff_le_self order_refl)
  then obtain n where n: "n \<le> sp_done a" "put_prev w = prev_at a n" by blast
  have "durable_seq (wr_progress w) = map_option (\<lambda>(e, s, _). int (serial_nat e s)) (put_prev w)"
    using assms(1) by (simp add: sim_def sim_pipe_def)
  with assms(3) n(2) have "n \<noteq> 0" "d = serial_of (fst (sp_sealed a ! (n - 1)))"
    by (auto simp: prev_at_def serial_of_def Let_def split: if_splits)
  moreover have "n - 1 < length (sp_sealed a)" using n(1) spool_inv_parts(5) [OF assms(2)] \<open>n \<noteq> 0\<close> by simp
  ultimately have "\<not> n - 1 < i" using serial_less [OF assms(2), of "n - 1" i] assms(4,5) by auto
  with n(1) \<open>n \<noteq> 0\<close> show ?thesis by linarith
qed

section \<open>The phases of a draining call\<close>

text \<open>
  \<open>em\<close>: the buffer was empty during the call; \<open>target\<close>: and nothing was cut by then above a serial
  sequence; \<open>durable\<close>: and all of that is durable; \<open>got\<close>: and the staged offset read after that.
\<close>

definition phase ::
  "purpose \<Rightarrow> bool \<Rightarrow> (i64 \<Rightarrow> bool) \<Rightarrow> bool \<Rightarrow> (i64 option \<Rightarrow> bool) \<Rightarrow> pc \<Rightarrow> bool" where
  "phase k em target durable got p =
     (case p of
        Start o' \<Rightarrow> (o' = Flush \<and> k = ForFlush) \<or> (o' = Close \<and> k = ForClose)
      | TryLock k' \<Rightarrow> k' = k | ParkLock k' \<Rightarrow> k' = k | TryReserve k' \<Rightarrow> k' = k | ParkReserve k' \<Rightarrow> k' = k
      | Granted k' \<Rightarrow> k' = k | Cutting k' \<Rightarrow> k' = k
      | ReadTarget k' \<Rightarrow> k' = k \<and> em
      | AwaitFile k' q \<Rightarrow> k' = k \<and> target q
      | ReadOffset \<Rightarrow> k = ForFlush \<and> durable
      | Persisting k' \<Rightarrow> k = ForClose \<and> k' = k \<and> durable
      | WritingState k' _ \<Rightarrow> k = ForClose \<and> k' = k \<and> durable
      | StopHeartbeat s \<Rightarrow> k = ForClose \<and> got s
      | Releasing s \<Rightarrow> k = ForClose \<and> got s
      | Finished (FlushDone r) \<Rightarrow> k = ForFlush \<and> (case r of Inr s \<Rightarrow> got s | Inl _ \<Rightarrow> True)
      | Finished (CloseDone r) \<Rightarrow> k = ForClose \<and> (case r of Inr s \<Rightarrow> got s | Inl _ \<Rightarrow> True)
      | _ \<Rightarrow> False)"

lemma phase_mono:
  assumes "phase k e tg d g p" and "e \<Longrightarrow> e'" and "\<And>q. tg q \<Longrightarrow> tg' q" and "d \<Longrightarrow> d'" and "\<And>s. g s \<Longrightarrow> g' s"
  shows "phase k e' tg' d' g' p"
  using assms by (auto simp: phase_def split: pc.splits outcome.splits sum.splits)

definition upto :: "'s writer \<Rightarrow> i64 \<Rightarrow> bool" where
  "upto v q \<longleftrightarrow> (case last_sealed_seq (wr_state v) of None \<Rightarrow> True | Some s \<Rightarrow> s \<le> q)"

definition covered :: "'s writer \<Rightarrow> 's writer \<Rightarrow> bool" where
  "covered v u \<longleftrightarrow>
     (case last_sealed_seq (wr_state v) of
        None \<Rightarrow> True
      | Some s \<Rightarrow> \<exists>d. durable_seq (wr_progress u) = Some d \<and> s \<le> d)"

definition emptied :: "'s libs \<Rightarrow> writer_ctx \<Rightarrow> 's writer \<Rightarrow> 's writer \<Rightarrow> 's writer \<Rightarrow> bool" where
  "emptied lb cx w1 v w \<longleftrightarrow> writer_reach lb cx w1 v \<and> writer_reach lb cx v w \<and> buffered (wr_state v) = []"

definition settled_by :: "'s libs \<Rightarrow> writer_ctx \<Rightarrow> 's writer \<Rightarrow> 's writer \<Rightarrow> bool" where
  "settled_by lb cx w1 w \<longleftrightarrow>
     (\<exists>v u. emptied lb cx w1 v u \<and> writer_reach lb cx u w \<and> covered v u)"

definition drained :: "'s libs \<Rightarrow> writer_ctx \<Rightarrow> 's writer \<Rightarrow> 's writer \<Rightarrow> i64 option \<Rightarrow> bool" where
  "drained lb cx w1 w s \<longleftrightarrow>
     (\<exists>u. settled_by lb cx w1 u \<and> writer_reach lb cx u w \<and> s = staged_offset (wr_state u))"

definition call_phase :: "'s libs \<Rightarrow> writer_ctx \<Rightarrow> 's writer \<Rightarrow> purpose \<Rightarrow> 's writer \<Rightarrow> pc \<Rightarrow> bool" where
  "call_phase lb cx w1 k w =
     phase k (\<exists>v. emptied lb cx w1 v w) (\<lambda>q. \<exists>v. emptied lb cx w1 v w \<and> upto v q)
       (settled_by lb cx w1 w) (drained lb cx w1 w)"

lemma emptied_later: "emptied lb cx w1 v w \<Longrightarrow> writer_reach lb cx w w' \<Longrightarrow> emptied lb cx w1 v w'"
  unfolding emptied_def by (meson reach_trans)

lemma settled_later: "settled_by lb cx w1 w \<Longrightarrow> writer_reach lb cx w w' \<Longrightarrow> settled_by lb cx w1 w'"
  unfolding settled_by_def using reach_trans by fast

lemma drained_later: "drained lb cx w1 w s \<Longrightarrow> writer_reach lb cx w w' \<Longrightarrow> drained lb cx w1 w' s"
  unfolding drained_def using reach_trans by fast

lemma drained_here: "settled_by lb cx w1 w \<Longrightarrow> drained lb cx w1 w (staged_offset (wr_state w))"
  unfolding drained_def by (blast intro: reach_refl)

lemma call_phase_later:
  "call_phase lb cx w1 k w p \<Longrightarrow> writer_reach lb cx w w' \<Longrightarrow> call_phase lb cx w1 k w' p"
  unfolding call_phase_def by (erule phase_mono) (blast intro: emptied_later settled_later drained_later)+

section \<open>One step of the call\<close>

lemma calls_goto [simp]: "calls (goto t p w) = (calls w)(t \<mapsto> p)"
  by (simp add: goto_def)

lemma goto_fields [simp]:
  "wr_state (goto t p w) = wr_state w" "wr_progress (goto t p w) = wr_progress w"
  by (simp_all add: goto_def)

lemma seal_return_fields [simp]:
  "calls (seal_return t k r w) = (calls w)(t \<mapsto> sealed_result k r)"
  "wr_state (seal_return t k r w) = wr_state w"
  by (simp_all add: seal_return_def unlock_def)

lemma seal_result:
  "\<lbrakk>seal cx c False st = (Inr None, st')\<rbrakk> \<Longrightarrow> buffered st' = []"
  "\<lbrakk>seal cx c False st = (Inr (Some f), st')\<rbrakk> \<Longrightarrow>
     buffered st' = [] \<and> last_sealed_seq st' = Some (fm_serial_seq (sl_meta f))"
  by (auto simp: seal_def sealable_def Let_def split: if_splits sum.splits)

text \<open>The ways into a phase.\<close>

lemma to_early:
  assumes "k \<in> {ForFlush, ForClose}"
    and "p \<in> {TryLock k, ParkLock k, TryReserve k, ParkReserve k, Granted k, Cutting k, sealed_result k (Inl err)}"
  shows "phase k e tg d g p"
  using assms by (auto simp: phase_def sealed_result_def)

lemma to_result:
  assumes "k \<in> {ForFlush, ForClose}"
  shows "phase k e tg d g (sealed_result k (Inr None)) \<longleftrightarrow> e"
    and "phase k e tg d g (sealed_result k (Inr (Some q))) \<longleftrightarrow> tg q"
    and "phase k e tg d g (flushed k) \<longleftrightarrow> d"
  using assms by (auto simp: phase_def sealed_result_def flushed_def)

lemma to_persisted: "phase ForClose e tg d g (persisted ForClose w) \<longleftrightarrow> g (staged_offset (wr_state w))"
  by (simp add: phase_def persisted_def)

text \<open>One step keeps the phase, whatever the four facts are, when the states the call looks at establish them.\<close>

lemma run_reserve_calls:
  "calls (run_reserve cx t parked b k w) t
     \<in> {Some (Granted k), Some (ParkReserve k)} \<union> {Some (sealed_result k (Inl e)) | e. True}"
  by (auto simp: run_reserve_def seal_gone_def split: option.splits sum.splits prod.splits)

lemma phase_run:
  fixes lb :: "'s libs" and cx c t b w
  defines "v \<equiv> run_call lb cx c t b w"
  assumes p: "calls w t = Some p" "phase k e tg d g p" and k: "k \<in> {ForFlush, ForClose}"
    and mono: "e \<Longrightarrow> e'" "\<And>q. tg q \<Longrightarrow> tg' q" "d \<Longrightarrow> d'" "\<And>s. g s \<Longrightarrow> g' s"
    and empty: "buffered (wr_state v) = [] \<Longrightarrow> e'"
    and cut: "\<And>q. buffered (wr_state v) = [] \<Longrightarrow> last_sealed_seq (wr_state v) = Some q \<Longrightarrow> tg' q"
    and read: "\<And>q. e \<Longrightarrow> last_sealed_seq (wr_state w) = Some q \<Longrightarrow> tg' q"
      "e \<Longrightarrow> last_sealed_seq (wr_state w) = None \<Longrightarrow> d'"
    and await: "\<And>q n. tg q \<Longrightarrow> durable_seq (wr_progress w) = Some n \<Longrightarrow> q \<le> n \<Longrightarrow> d'"
    and offset: "d \<Longrightarrow> g' (staged_offset (wr_state w))"
  shows "\<exists>p'. calls v t = Some p' \<and> phase k e' tg' d' g' p'"
proof -
  note early = to_early [OF k, of _ _ e' tg' d' g'] and res = to_result [OF k, of e' tg' d' g']
  have "phase k e' tg' d' g' p" by (rule phase_mono [OF p(2)]) (use mono in blast)+
  then have same: "calls v t = Some p \<Longrightarrow> ?thesis" by blast
  have k': "k \<noteq> ForTick" "\<not> aged_only k" "surface_stall k" using k by (auto simp: aged_only_def surface_stall_def)
  show ?thesis
  proof (cases p)
    case (Start o')
    with p(2) k have o: "o' = Flush \<and> k = ForFlush \<or> o' = Close \<and> k = ForClose"
      by (auto simp: phase_def)
    then have "calls v t \<in> {Some (TryLock k)} \<union> {Some (sealed_result k (Inl err)) | err. True}"
      using p(1) Start by (auto simp: v_def run_call_def start_op_def sealed_result_def split: sum.splits)
    then show ?thesis using early by auto
  next
    case (TryLock k2)
    with p have "calls v t \<in> {Some (TryReserve k), Some (ParkLock k)} \<union> {Some (sealed_result k (Inl err)) | err. True}"
      by (auto simp: v_def phase_def run_call_def run_lock_def split: option.splits)
    then show ?thesis using early by auto
  next
    case (ParkLock k2)
    with p have "calls v t \<in> {Some (TryReserve k), Some (ParkLock k)} \<union> {Some (sealed_result k (Inl err)) | err. True}"
      by (auto simp: v_def phase_def run_call_def run_lock_def split: option.splits)
    then show ?thesis using early by auto
  next
    case (TryReserve k2)
    with p(2) have [simp]: "k2 = k" by (simp add: phase_def)
    show ?thesis
    proof (cases "sealable (wx_cfg cx) (mono c) (aged_only k) (wr_state w)")
      case True
      with p(1) TryReserve have "v = run_reserve cx t False b k w" by (simp add: v_def run_call_def)
      with run_reserve_calls [of cx t False b k w] show ?thesis using early by auto
    next
      case False
      with p(1) TryReserve k' have "v = seal_return t k (Inr None) w" "buffered (wr_state w) = []"
        by (simp_all add: v_def run_call_def sealable_def)
      with empty res(1) show ?thesis by simp
    qed
  next
    case (ParkReserve k2)
    with p have "v = run_reserve cx t True b k w" by (simp add: v_def run_call_def phase_def)
    with run_reserve_calls [of cx t True b k w] show ?thesis using early by auto
  next
    case (Granted k2)
    with p have "calls v t \<in> {Some (Cutting k)} \<union> {Some (sealed_result k (Inl err)) | err. True}"
      by (auto simp: v_def run_call_def phase_def split: sum.splits)
    then show ?thesis using early by auto
  next
    case (Cutting k2)
    with p have r: "v = run_cut cx c t k w" by (simp add: v_def run_call_def phase_def)
    obtain r0 st where s: "seal cx c (aged_only k) (wr_state w) = (r0, st)" by fastforce
    show ?thesis
    proof (cases r0)
      case (Inl err)
      with r s have "calls v t = Some (sealed_result k (Inl err))" by (simp add: run_cut_def)
      then show ?thesis using early by auto
    next
      case (Inr so)
      with s k' have "seal cx c False (wr_state w) = (Inr so, st)" by simp
      with seal_result have "buffered st = []"
          "\<And>f. so = Some f \<Longrightarrow> last_sealed_seq st = Some (fm_serial_seq (sl_meta f))"
        by (metis option.exhaust)+
      with r s Inr empty cut res show ?thesis
        by (cases so) (simp_all add: run_cut_def)
    qed
  next
    case (ReadTarget k2)
    with p read res(3) k show ?thesis
      by (cases "last_sealed_seq (wr_state w)") (simp_all add: v_def run_call_def phase_def)
  next
    case (AwaitFile k2 q)
    with p have r: "v = run_await cx t k q w" "tg q" by (simp_all add: v_def run_call_def phase_def)
    show ?thesis
    proof (cases "case durable_seq (wr_progress w) of Some n \<Rightarrow> n \<ge> q | None \<Rightarrow> False")
      case True
      with await [OF r(2)] res(3) r(1) show ?thesis by (auto simp: run_await_def split: option.splits)
    next
      case False
      have "phase k e' tg' d' g' (Finished (if k = ForFlush then FlushDone (Inl err) else CloseDone (Inl err)))" for err
        using k by (auto simp: phase_def)
      with False r(1) same p(1) AwaitFile show ?thesis
        by (cases "stall_error (wx_cfg cx) (wr_progress w) q") (simp_all add: run_await_def)
    qed
  next
    case ReadOffset
    with p offset show ?thesis by (simp add: v_def run_call_def phase_def)
  next
    case (Persisting k2)
    with p have s: "d" "k = ForClose" "k2 = ForClose" by (simp_all add: phase_def)
    have "calls v t = Some (persisted ForClose w) \<or> (\<exists>sf. calls v t = Some (WritingState ForClose sf))"
      using p(1) Persisting s(3) by (auto simp: v_def run_call_def run_persist_def Let_def)
    moreover have "phase ForClose e' tg' d' g' (WritingState ForClose sf)" for sf
      using mono(3) s(1) by (simp add: phase_def)
    ultimately show ?thesis using offset [OF s(1)] s(2) by (auto simp: to_persisted)
  next
    case (WritingState k2 sf)
    with p have s: "d" "k = ForClose" "k2 = ForClose" by (simp_all add: phase_def)
    have "calls v t = Some (persisted ForClose w)"
      using p(1) WritingState s(3)
      by (auto simp: v_def run_call_def run_write_state_def persisted_def split: prod.splits sum.splits)
    with offset [OF s(1)] s(2) show ?thesis by (simp add: to_persisted)
  next
    case (StopHeartbeat s)
    with p have "k = ForClose" "g s" by (simp_all add: phase_def)
    with mono(4) same p(1) StopHeartbeat show ?thesis
      by (auto simp: v_def run_call_def run_stop_heartbeat_def phase_def split: heartbeat_pc.splits)
  next
    case (Releasing s)
    with p have "k = ForClose" "g s" by (simp_all add: phase_def)
    with mono(4) p(1) Releasing show ?thesis
      by (auto simp: v_def run_call_def run_release_def phase_def split: prod.splits)
  next
    case (Finished r)
    with p(1) same show ?thesis by (simp add: v_def run_call_def)
  qed (use p(2) in \<open>simp_all add: phase_def\<close>)
qed

text \<open>The four facts of a draining call, established by the states it looks at.\<close>

lemma emptied_here: "writer_reach lb cx w1 w \<Longrightarrow> buffered (wr_state w) = [] \<Longrightarrow> emptied lb cx w1 w w"
  by (simp add: emptied_def reach_refl)

lemma read_target:
  assumes "sim cx w1 a" "spool_inv a" and v: "emptied lb cx w1 v w"
  shows "case last_sealed_seq (wr_state w) of None \<Rightarrow> covered v w | Some q \<Rightarrow> upto v q"
proof -
  from v have "writer_reach lb cx w1 v" "writer_reach lb cx v w" by (simp_all add: emptied_def)
  moreover from spool_later [OF assms(1,2) this(1)] obtain b where "sim cx v b" "spool_inv b" by blast
  ultimately have "last_sealed_seq (wr_state v) = Some s \<Longrightarrow>
      \<exists>s'. last_sealed_seq (wr_state w) = Some s' \<and> s \<le> s'" for s
    using last_sealed_grows by blast
  then show ?thesis
    by (cases "last_sealed_seq (wr_state v)") (auto simp: covered_def upto_def split: option.splits)
qed

lemma settled_here: "emptied lb cx w1 v w \<Longrightarrow> covered v w \<Longrightarrow> writer_reach lb cx w w' \<Longrightarrow> settled_by lb cx w1 w'"
  unfolding settled_by_def by blast

lemma call_phase_run:
  assumes w: "writer_reach lb cx w1 w" and p: "calls w t = Some p" "call_phase lb cx w1 k w p"
    and k: "k \<in> {ForFlush, ForClose}" and a: "sim cx w1 a" "spool_inv a"
  shows "\<exists>p'. calls (run_call lb cx c t b w) t = Some p' \<and> call_phase lb cx w1 k (run_call lb cx c t b w) p'"
proof -
  let ?w = "run_call lb cx c t b w"
  have step: "writer_reach lb cx w ?w"
    using reach_step [OF reach_refl, of "writer_allowed cx" "(c, Run t b)" w "writer_step lb cx"] by simp
  have w': "writer_reach lb cx w1 ?w" using w step by (rule reach_trans [rotated])
  show ?thesis
    unfolding call_phase_def
  proof (rule phase_run [OF p(1) p(2) [unfolded call_phase_def] k])
    fix q assume "\<exists>v. emptied lb cx w1 v w" and s: "last_sealed_seq (wr_state w) = Some q"
    then obtain v where "emptied lb cx w1 v w" by blast
    with read_target [OF a this] s emptied_later [OF _ step] show "\<exists>v. emptied lb cx w1 v ?w \<and> upto v q" by auto
  next
    assume "\<exists>v. emptied lb cx w1 v w" and s: "last_sealed_seq (wr_state w) = None"
    then obtain v where "emptied lb cx w1 v w" by blast
    with read_target [OF a this] s settled_here [OF _ _ step] show "settled_by lb cx w1 ?w" by auto
  next
    fix q n assume "\<exists>v. emptied lb cx w1 v w \<and> upto v q" and n: "durable_seq (wr_progress w) = Some n" "q \<le> n"
    then obtain v where "emptied lb cx w1 v w" "upto v q" by blast
    with n settled_here [OF _ _ step] show "settled_by lb cx w1 ?w"
      by (auto simp: upto_def covered_def split: option.splits)
  next
    fix q assume e: "buffered (wr_state ?w) = []" and "last_sealed_seq (wr_state ?w) = Some q"
    then have "upto ?w q" by (simp add: upto_def)
    with emptied_here [OF w' e] show "\<exists>v. emptied lb cx w1 v ?w \<and> upto v q" by blast
  qed (use emptied_later [OF _ step] settled_later [OF _ step] drained_later [OF _ step] emptied_here [OF w']
      drained_later [OF drained_here step] in blast)+
qed

section \<open>The property\<close>

text \<open>No other call runs on the task while this one does.\<close>

definition during :: "writer_ctx \<Rightarrow> nat \<Rightarrow> reading \<times> 's writer_event \<Rightarrow> 's writer \<Rightarrow> bool" where
  "during cx t l w \<longleftrightarrow> writer_allowed cx l w \<and> (\<forall>o'. snd l \<noteq> Call t o')"

lemma calls_set_progress [simp]: "calls (set_progress f w) = calls w"
  by (simp add: set_progress_def)

lemma calls_attempt_failed:
  assumes "\<And>w. calls (ex w) = calls w" and "\<And>w. calls (rt w) = calls w"
  shows "calls (attempt_failed cx c m st n e ex rt w) = calls w"
  using assms by (simp add: attempt_failed_def Let_def)

lemma other_stages:
  "calls (render_step lb cx c join w) = calls w"
  "calls (gzip_step lb cx c join w) = calls w"
  "calls (put_step lb cx c up w) = calls w"
  "calls (heartbeat_step lb cx c w) = calls w"
  "calls (gc_step lb cx c w) = calls w"
  "calls (lag_step lb cx c b w) = calls w"
proof -
  have fe: "calls (fenced_exit cx c w) = calls w" for w :: "'s writer" by (simp add: fenced_exit_def)
  have fc: "calls (fence cx c r w) = calls w" for r and w :: "'s writer" by (simp add: fence_def)
  have cl: "calls (cleared n m w) = calls w" for n m and w :: "'s writer" by (simp add: cleared_def)
  show "calls (render_step lb cx c join w) = calls w"
    by (auto simp: render_step_def render_attempt_def Let_def fe cl calls_attempt_failed
        split: render_pc.splits list.splits sum.splits)
  show "calls (gzip_step lb cx c join w) = calls w"
    by (auto simp: gzip_step_def gzip_attempt_def Let_def fe cl calls_attempt_failed
        split: gzip_pc.splits list.splits sum.splits)
  show "calls (put_step lb cx c up w) = calls w"
    by (auto simp: put_step_def put_attempt_def Let_def fe cl calls_attempt_failed record_durable_def
        trip_order_fatal_def split: put_pc.splits list.splits sum.splits prod.splits)
  show "calls (heartbeat_step lb cx c w) = calls w"
    by (auto simp: heartbeat_step_def heartbeat_tick_def heartbeat_renew_def fence_and_exit_def Let_def fc
        split: heartbeat_pc.splits sum.splits prod.splits option.splits)
  show "calls (gc_step lb cx c w) = calls w" by (simp add: gc_step_def)
  show "calls (lag_step lb cx c b w) = calls w"
    by (auto simp: lag_step_def split: sum.splits prod.splits)
qed

lemma other_pc:
  assumes "t' \<noteq> t"
  shows "calls (run_pc lb cx c t' b p w) t = calls w t"
  using assms
  by (cases p)
     (auto simp: start_op_def start_append_def start_tick_def run_buffer_def run_lock_def run_reserve_def
       seal_gone_def run_cut_def run_unbuffer_def run_await_def run_persist_def run_write_state_def
       run_stop_heartbeat_def run_release_def Let_def
       split: op.splits option.splits sum.splits prod.splits heartbeat_pc.splits)

lemma other_calls:
  assumes "\<And>c b. l \<noteq> (c, Run t b)" and "\<And>c o'. l \<noteq> (c, Call t o')"
  shows "calls (writer_step lb cx l w) t = calls w t"
proof -
  obtain c ev where l: "l = (c, ev)" by fastforce
  show ?thesis
  proof (cases ev)
    case (Run t' b)
    with assms(1) l have "t' \<noteq> t" by auto
    then show ?thesis
      by (cases "calls w t'") (auto simp: l Run run_call_def other_pc)
  qed (use assms l in \<open>auto simp: other_stages\<close>)
qed

lemma during_reach: "reach (writer_step lb cx) (during cx t) w1 w \<Longrightarrow> writer_reach lb cx w1 w"
  by (induction rule: reach.induct) (auto simp: during_def intro: reach.intros)

lemma phase_kept:
  assumes "reach (writer_step lb cx) (during cx t) w1 w" and "sim cx w1 a" "spool_inv a"
    and "calls w1 t = Some p1" "call_phase lb cx w1 k w1 p1" "k \<in> {ForFlush, ForClose}"
  shows "\<exists>p. calls w t = Some p \<and> call_phase lb cx w1 k w p"
  using assms
proof (induction rule: reach.induct)
  case reach_refl
  then show ?case by blast
next
  case (reach_step w l)
  then obtain p where p: "calls w t = Some p" "call_phase lb cx w1 k w p" by blast
  have w: "writer_reach lb cx w1 w" using reach_step.hyps(1) by (rule during_reach)
  show ?case
  proof (cases "\<exists>c b. l = (c, Run t b)")
    case True
    then obtain c b where "l = (c, Run t b)" by blast
    with call_phase_run [OF w p reach_step.prems(5,1,2)] show ?thesis by simp
  next
    case False
    with reach_step.hyps(2) have "calls (writer_step lb cx l w) t = Some p"
      by (subst other_calls) (auto simp: during_def p(1))
    moreover have "writer_reach lb cx w (writer_step lb cx l w)"
      using reach_step.hyps(2) by (auto simp: during_def intro: reach.intros)
    ultimately show ?thesis using call_phase_later [OF p(2)] by blast
  qed
qed

text \<open>The staged offset reaches every range of a durable file.\<close>

lemma staged_covers:
  assumes "spool_inv a" and "i < sp_done a" and "r \<in> set (snd (sp_sealed a ! i))"
  shows "\<exists>x. sp_staged a = Some x \<and> snd r \<le> x"
proof -
  let ?j = "sp_done a - 1"
  have j: "?j < length (sp_sealed a)" "i \<le> ?j" using assms(2) spool_inv_parts(5) [OF assms(1)] by simp_all
  have "snd r \<le> end_offset (fst (sp_sealed a ! i))"
    using range_in_file(3) [OF assms(1), of i "fst r" "snd r"] j assms(3) by simp
  also have "\<dots> \<le> end_offset (fst (sp_sealed a ! ?j))" by (rule ends_mono [OF assms(1) j(2,1)])
  finally have "snd r \<le> end_offset (fst (sp_sealed a ! ?j))" .
  moreover have "sp_staged a = raise_to (sp_init a) (end_offset (fst (sp_sealed a ! ?j)))"
    using assms(1,2) by (simp add: spool_inv_def)
  ultimately show ?thesis by (auto simp: raise_to_def split: option.splits)
qed

lemma emptied_covers:
  assumes "spool_inv a" and "reach spool_step spool_allowed a b" and "sp_buffer a = []"
    and "length (sp_sealed a) \<le> sp_done b" and "r \<in> set (sp_accepted a)"
  shows "\<exists>x. sp_staged b = Some x \<and> snd r \<le> x"
proof -
  from spool_inv_parts(1) [OF assms(1)] assms(3,5) obtain f where
    "f \<in> set (sp_sealed a)" "r \<in> set (snd f)" by auto
  then obtain i where i: "i < length (sp_sealed a)" "r \<in> set (snd (sp_sealed a ! i))"
    by (metis in_set_conv_nth)
  from spool.grows_reach [OF assms(2,1)] obtain zs where "sp_sealed b = sp_sealed a @ zs"
    by (auto simp: spool_grows_def prefix_def)
  with i have "r \<in> set (snd (sp_sealed b ! i))" by (simp add: nth_append)
  moreover have "i < sp_done b" using i(1) assms(4) by simp
  ultimately show ?thesis using staged_covers [OF spool.inv_reach [OF assms(2,1)]] by blast
qed

text \<open>What a drained call has seen, told by the spool.\<close>

lemma drained_spool:
  assumes "sim cx w1 a1" "spool_inv a1" and "drained lb cx w1 w s"
  shows "\<exists>v u a b. writer_reach lb cx w1 v \<and> writer_reach lb cx v u \<and> writer_reach lb cx u w
    \<and> reach spool_step spool_allowed a1 a \<and> reach spool_step spool_allowed a b
    \<and> spooled a v \<and> spooled b u \<and> spool_inv b
    \<and> sp_buffer a = [] \<and> length (sp_sealed a) \<le> sp_done b \<and> s = sp_staged b"
proof -
  from assms(3) obtain v u u' where v: "writer_reach lb cx w1 v" "buffered (wr_state v) = []"
    and u: "writer_reach lb cx v u" "covered v u" and u': "writer_reach lb cx u u'" "writer_reach lb cx u' w"
    and s: "s = staged_offset (wr_state u')"
    unfolding drained_def settled_by_def emptied_def by blast
  from spool_later [OF assms(1,2) v(1)] obtain a where
    a: "reach spool_step spool_allowed a1 a" "sim cx v a" "spool_inv a" by blast
  from spool_later [OF a(2,3) u(1)] obtain b where
    b: "reach spool_step spool_allowed a b" "sim cx u b" "spool_inv b" "spool_grows a b" by blast
  from spool_later [OF b(2,3) u'(1)] obtain d where
    d: "reach spool_step spool_allowed b d" "sim cx u' d" "spool_inv d" "spool_grows b d" by blast
  have "length (sp_sealed a) \<le> sp_done b"
  proof (cases "sp_sealed a = []")
    case False
    let ?i = "length (sp_sealed a) - 1"
    from b(4) obtain zs where zs: "sp_sealed b = sp_sealed a @ zs" by (auto simp: spool_grows_def prefix_def)
    from u(2) sim_last_sealed [OF a(2)] False obtain n where
      n: "durable_seq (wr_progress u) = Some n" "serial_of (fst (sp_sealed b ! ?i)) \<le> n"
      by (auto simp: covered_def zs nth_append)
    have "?i < length (sp_sealed a)" using False by simp
    then have "?i < length (sp_sealed b)" by (simp add: zs)
    from durable_counts [OF b(2,3) n(1) this n(2)] show ?thesis by simp
  qed simp
  also have "sp_done b \<le> sp_done d" using d(4) by (simp add: spool_grows_def)
  finally have "length (sp_sealed a) \<le> sp_done d" .
  moreover have "sp_buffer a = []" using sim_spooled [OF a(2)] v(2) by (simp add: spooled_def)
  moreover have "s = sp_staged d" using sim_spooled [OF d(2)] s by (simp add: spooled_def)
  moreover have "writer_reach lb cx v u'" using u'(1) u(1) by (rule reach_trans)
  moreover have "reach spool_step spool_allowed a d" using d(1) b(1) by (rule reach_trans)
  ultimately show ?thesis
    using v(1) u'(2) a(1) sim_spooled [OF a(2)] sim_spooled [OF d(2)] d(3) by blast
qed

text \<open>
  C9. Flush and close are barriers. When a \<open>flush\<close> or \<open>close\<close> answers with an offset, there was a moment
  during the call (\<open>v\<close>) at which the buffer was empty, and when the offset was read (\<open>u\<close>) every file cut
  by that moment was durable; the offset is the staged offset of \<open>u\<close> and reaches every batch accepted by
  \<open>v\<close>. This holds whatever the other calls, the ticker and the stages do meanwhile.
\<close>
theorem flush_is_barrier:
  assumes "opened cx w0" and "writer_reach lb cx w0 w1" and "calls w1 t = Some (Start o')"
    and "reach (writer_step lb cx) (during cx t) w1 w2" and "calls w2 t = Some (Finished r)"
    and "(o', r) \<in> {(Flush, FlushDone (Inr off)), (Close, CloseDone (Inr off))}"
  shows "\<exists>v u a b. writer_reach lb cx w1 v \<and> writer_reach lb cx v u \<and> writer_reach lb cx u w2
    \<and> reach spool_step spool_allowed (spool_of w0) a \<and> reach spool_step spool_allowed a b
    \<and> spooled a v \<and> spooled b u \<and> buffered (wr_state v) = [] \<and> length (sp_sealed a) \<le> sp_done b
    \<and> off = staged_offset (wr_state u) \<and> (\<forall>s e. (s, e) \<in> set (sp_accepted a) \<longrightarrow> (\<exists>x. off = Some x \<and> e \<le> x))"
proof -
  from opened_reach [OF assms(1,2)] obtain a1 where
    a1: "reach spool_step spool_allowed (spool_of w0) a1" "sim cx w1 a1" "spool_inv a1" by blast
  let ?k = "if o' = Flush then ForFlush else ForClose"
  have "call_phase lb cx w1 ?k w1 (Start o')" using assms(6) by (auto simp: call_phase_def phase_def)
  from phase_kept [OF assms(4) a1(2,3) assms(3) this] assms(5,6) have d: "drained lb cx w1 w2 off"
    by (auto simp: call_phase_def phase_def)
  from drained_spool [OF a1(2,3) d] obtain v u a b where
    r: "writer_reach lb cx w1 v" "writer_reach lb cx v u" "writer_reach lb cx u w2"
      "reach spool_step spool_allowed a1 a" "reach spool_step spool_allowed a b" "spooled a v" "spooled b u"
      "sp_buffer a = []" "length (sp_sealed a) \<le> sp_done b" "off = sp_staged b" by blast
  have "reach spool_step spool_allowed (spool_of w0) a" using r(4) a1(1) by (rule reach_trans)
  moreover have "buffered (wr_state v) = []" "off = staged_offset (wr_state u)"
    using r(6-8,10) by (simp_all add: spooled_def)
  moreover have "spool_inv a" using spool.inv_reach [OF r(4) a1(3)] .
  ultimately show ?thesis
    using r emptied_covers [OF _ r(5,8,9)] by (metis snd_conv)
qed

lemma demo_lets_during: "lets_run (during demo_cx t)"
  by (simp add: lets_run_def during_def)

theorem flush_is_barrier_witness:
  "\<exists>v u. writer_reach demo_libs demo_cx demo_asked v \<and> writer_reach demo_libs demo_cx v u
    \<and> writer_reach demo_libs demo_cx u demo_flushed
    \<and> buffered (wr_state v) = [] \<and> staged_offset (wr_state u) = Some 9"
proof -
  have "(Flush, FlushDone (Inr (Some 9))) \<in> {(Flush, FlushDone (Inr (Some 9))), (Close, CloseDone (Inr (Some 9)))}"
    by simp
  from flush_is_barrier [OF demo_opened demo_reach_asked demo_calls(5) demo_runs(6) [OF demo_lets_during] demo_calls(6) this] show ?thesis by metis
qed

end
