(* ===== verification/Writer_Announce.thy ===== *)
theory Writer_Announce
  imports Writer_Promises
begin

text \<open>
  What the upload stage announces: only files whose upload the store has answered, and in the order in
  which they were cut.
\<close>

section \<open>Who moves the upload stage\<close>

abbreviation keeps_stage :: "'s writer \<Rightarrow> 's writer \<Rightarrow> bool" where
  "keeps_stage w v \<equiv> put_task v = put_task w \<and> put_prev v = put_prev w"

lemma stage_fields [simp]:
  "put_task (goto t p w) = put_task w" "put_task (seal_return t k r w) = put_task w"
  "put_task (unlock w) = put_task w" "put_task (fence cx c reason w) = put_task w"
  "put_task (set_progress g w) = put_task w" "put_task (fenced_exit cx c w) = put_task w"
  "put_task (fence_and_exit cx c reason w) = put_task w"
  "put_prev (goto t p w) = put_prev w" "put_prev (seal_return t k r w) = put_prev w"
  "put_prev (unlock w) = put_prev w" "put_prev (fence cx c reason w) = put_prev w"
  "put_prev (set_progress g w) = put_prev w" "put_prev (fenced_exit cx c w) = put_prev w"
  "put_prev (fence_and_exit cx c reason w) = put_prev w"
  by (simp_all add: goto_def seal_return_def unlock_def fence_def set_progress_def fenced_exit_def fence_and_exit_def)

lemma stage_run: "keeps_stage w (run_pc lb cx c t b p w)"
proof (cases p)
  case (Start o')
  then show ?thesis
    by (cases o') (simp_all add: start_op_def start_append_def start_tick_def)
next
  case (Buffering batch s e)
  then show ?thesis by (simp add: run_buffer_def split: prod.splits sum.splits)
next
  case (Unbuffering s e prev err)
  then show ?thesis by (simp add: run_unbuffer_def split: prod.splits)
next
  case (Cutting k)
  then show ?thesis by (simp add: run_cut_def Let_def split: prod.splits sum.splits option.splits)
next
  case (AwaitFile k q)
  then show ?thesis by (simp add: run_await_def split: option.splits)
qed (auto simp: run_lock_def run_reserve_def seal_gone_def run_persist_def run_write_state_def Let_def
      run_stop_heartbeat_def run_release_def split: option.splits prod.splits sum.splits heartbeat_pc.splits)

lemma stage_attempt:
  assumes "\<And>v. keeps_stage v (ex v)" and "\<And>v. keeps_stage v (rt v)"
  shows "keeps_stage w (attempt_failed cx c m st n e ex rt w)"
  using assms by (simp add: attempt_failed_def Let_def)


lemma stage_render: "keeps_stage w (render_step lb cx c join w)"
  by (auto simp: render_step_def render_attempt_def cleared_def stage_attempt Let_def
      split: render_pc.splits list.splits sum.splits prod.splits)

lemma stage_gzip: "keeps_stage w (gzip_step lb cx c join w)"
  by (auto simp: gzip_step_def gzip_attempt_def cleared_def stage_attempt Let_def
      split: gzip_pc.splits list.splits sum.splits prod.splits)

lemma stage_heartbeat: "keeps_stage w (heartbeat_step lb cx c w)"
  by (auto simp: heartbeat_step_def heartbeat_tick_def heartbeat_renew_def Let_def
      split: heartbeat_pc.splits prod.splits sum.splits option.splits)

lemma stage_others: "(\<And>b. ev \<noteq> PutStep b) \<Longrightarrow> keeps_stage w (writer_step lb cx (c, ev) w)"
  by (cases ev)
     (auto simp: run_call_def stage_run stage_render stage_gzip stage_heartbeat gc_step_def lag_step_def
      split: option.splits prod.splits sum.splits)

section \<open>Uploads\<close>

text \<open>In the state \<open>u\<close> the stage is at an upload of \<open>f\<close> that the store answers, leaving the location \<open>h\<close> and the world \<open>s\<close>.\<close>

definition uploads :: "'s libs \<Rightarrow> 's writer \<Rightarrow> compressed_file \<Rightarrow> 's operator staging_handle \<Rightarrow> 's \<Rightarrow> bool" where
  "uploads lb u f h s \<longleftrightarrow>
     (\<exists>n. put_task u = PWork f n) \<and> fenced u = None
     \<and> put_once lb (fm_object_key (cp_meta f)) (cp_payload f) (wr_staging u) (wr_world u) = (Inr (), h, s)"

lemma put_attempt_landed:
  assumes "put_task (put_attempt lb cx c g n w) \<in> {PLanded f, PRecord f, PLand f}"
  shows "g = f \<and> (\<exists>h s. put_once lb (fm_object_key (cp_meta f)) (cp_payload f) (wr_staging w) (wr_world w) = (Inr (), h, s))"
proof -
  obtain r h s where p: "put_once lb (fm_object_key (cp_meta g)) (cp_payload g) (wr_staging w) (wr_world w) = (r, h, s)"
    by (metis prod_cases3)
  show ?thesis
  proof (cases r)
    case (Inl e)
    let ?w = "w\<lparr>wr_staging := h, wr_world := s\<rparr>"
    have "put_task (attempt_failed cx c (cp_meta g) ''put'' (n + 1) e (\<lambda>w. w\<lparr>put_task := PExit\<rparr>)
        (\<lambda>w. w\<lparr>put_task := PWork g (n + 1)\<rparr>) ?w) \<in> {PExit, PWork g (n + 1)}"
      by (simp add: attempt_failed_def Let_def)
    with assms show ?thesis by (auto simp: put_attempt_def p Inl Let_def)
  next
    case (Inr u)
    with assms p show ?thesis by (auto simp: put_attempt_def Let_def)
  qed
qed

lemma landed_step:
  assumes "put_task (writer_step lb cx (c, ev) w) \<in> {PLanded f, PRecord f, PLand f}"
  shows "put_task w \<in> {PLanded f, PRecord f, PLand f} \<or> (\<exists>h s. uploads lb w f h s)"
proof (cases "\<exists>b. ev = PutStep b")
  case False
  with assms stage_others [of ev lb cx c w] show ?thesis by auto
next
  case True
  then obtain b where ev: "ev = PutStep b" by blast
  note p = assms [unfolded ev writer_step.simps put_step_def]
  show ?thesis
  proof (cases "put_task w")
    case (PWork g n)
    with p have "put_task (put_attempt lb cx c g n w) \<in> {PLanded f, PRecord f, PLand f}" "fenced w = None"
      by (auto split: if_splits)
    with put_attempt_landed [OF this(1)] PWork show ?thesis by (auto simp: uploads_def)
  next
    case PRecv
    with p show ?thesis by (auto split: list.splits if_splits)
  next
    case (PCheck g)
    with p show ?thesis by (auto split: if_splits sum.splits)
  next
    case (PLanded g)
    with p show ?thesis by (auto split: if_splits)
  next
    case (PRecord g)
    with p show ?thesis by simp
  next
    case (PLand g)
    with p show ?thesis by (simp add: Let_def)
  next
    case PExit
    with p show ?thesis by simp
  qed
qed

lemma landed_uploaded:
  assumes "writer_reach lb cx w0 w" and "put_task w \<in> {PLanded f, PRecord f, PLand f}"
    and "put_task w0 \<notin> {PLanded f, PRecord f, PLand f}"
  shows "\<exists>u h s. writer_reach lb cx w0 u \<and> writer_reach lb cx u w \<and> uploads lb u f h s"
  using assms
proof (induction rule: reach.induct)
  case (reach_step s l)
  obtain c ev where l: "l = (c, ev)" by fastforce
  from landed_step [of lb cx c ev s f] reach_step.prems(1) l consider
    "put_task s \<in> {PLanded f, PRecord f, PLand f}" | "\<exists>h x. uploads lb s f h x" by blast
  then show ?case
  proof cases
    case 1
    with reach_step obtain u h x where "writer_reach lb cx w0 u" "writer_reach lb cx u s" "uploads lb u f h x" by blast
    with reach_step.hyps(2) show ?thesis by (meson reach.reach_step)
  next
    case 2
    with reach_step.hyps show ?thesis by (meson reach.reach_step reach_refl)
  qed
qed simp

lemma put_stored:
  assumes "put_once lb key payload h0 s0 = (Inr (), h, s)" and "store_laws (live_store (current h)) obj"
  shows "obj s key = Some payload"
proof -
  have ok: "obj s' key = Some payload" if "put (live_store (current h)) key payload s1 = (Inr u, s')" for s1 s' u
    using that store_write [OF assms(2)] by (fastforce simp: put_def lift_storage_def split: prod.splits sum.splits)
  then show ?thesis
    using assms(1) by (auto simp: put_once_def Let_def split: prod.splits sum.splits if_splits bool.splits)
qed

section \<open>Property\<close>

text \<open>
  C10. Files are announced in order, and only after their upload. When the upload stage is about to record a
  file and hand it to the notifier, the store has answered an upload of exactly this payload at the key the
  request names, at a moment when the writer was not fenced: an object store that keeps its laws held the
  object then. And the request meets the contract the notifier rests on: its serial sequence is above
  everything this writer has queued or had confirmed, so load jobs come in the order in which files were cut.
\<close>
theorem announced_after_upload:
  assumes "opened cx w0" and "writer_reach lb cx w0 w" and "put_task w = PRecord f"
  shows "(let r = file_request cx (url_base (current (wr_staging w))) (cp_meta f); key = fm_object_key (cp_meta f) in
      nr_source_url r = url_base (current (wr_staging w)) @ ''/'' @ key
    \<and> (\<exists>u h s. writer_reach lb cx w0 u \<and> writer_reach lb cx u w \<and> uploads lb u f h s
         \<and> (\<forall>obj. store_laws (live_store (current h)) obj \<longrightarrow> obj s key = Some (cp_payload f)))
    \<and> board_inv (wr_notifier w) \<and> board_allowed (Enqueue r) (wr_notifier w))"
proof -
  from opened_reach [OF assms(1,2)] obtain a where "sim cx w a" "spool_inv a" by blast
  note board = sim_announces [OF this assms(3)]
  have "put_task w0 = PRecv" using assms(1) by (auto simp: opened_def writer_new_def)
  with landed_uploaded [OF assms(2), of f] assms(3) obtain u h s where
    "writer_reach lb cx w0 u" "writer_reach lb cx u w" "uploads lb u f h s" by auto
  moreover from this(3) have "\<forall>obj. store_laws (live_store (current h)) obj \<longrightarrow>
      obj s (fm_object_key (cp_meta f)) = Some (cp_payload f)"
    using put_stored by (fastforce simp: uploads_def)
  moreover have "nr_source_url (file_request cx b (cp_meta f)) = b @ ''/'' @ fm_object_key (cp_meta f)" for b
    by (simp add: file_request_def)
  ultimately show ?thesis using board unfolding Let_def by blast
qed

theorem announced_after_upload_witness:
  "nr_serial_seq (file_request demo_cx ''s3://e/b'' demo_meta) = 3145728
   \<and> board_allowed (Enqueue (file_request demo_cx ''s3://e/b'' demo_meta)) (wr_notifier demo_recording)
   \<and> (\<exists>u h s. writer_reach demo_libs demo_cx demo_writer u \<and> uploads demo_libs u demo_payload h s)"
proof -
  have "put_task demo_recording = PRecord demo_payload" "cp_meta demo_payload = demo_meta"
      "url_base (current (wr_staging demo_recording)) = ''s3://e/b''"
    by (simp_all add: demo_recording_def demo_payload_def demo_waiting_def demo_cut_def demo_writer_def
        writer_new_def demo_handle_def)
  with announced_after_upload [OF demo_opened demo_reaches(2) this(1)] show ?thesis
    by (auto simp: file_request_def demo_meta_def Let_def)
qed

end
