(* ===== verification/Crash_Recovery.thy ===== *)
theory Crash_Recovery
  imports Writer_Announce Spool_Handover
begin

text \<open>
  A crash at any moment of a session and the recovery after it, put together: what the writer had accepted,
  what the store then lists, and what \<open>plan_recovery\<close> makes of the listing.
\<close>

section \<open>Durable files were uploaded\<close>

text \<open>An upload of the file was answered between the start of the session and \<open>w\<close>.\<close>

definition uploaded :: "'s libs \<Rightarrow> writer_ctx \<Rightarrow> 's writer \<Rightarrow> 's writer \<Rightarrow> staged_file \<Rightarrow> bool" where
  "uploaded lb cx w0 w f \<longleftrightarrow>
     (\<exists>u g h s. writer_reach lb cx w0 u \<and> writer_reach lb cx u w \<and> uploads lb u g h s \<and> fm_file (cp_meta g) = f)"

lemma uploaded_later: "uploaded lb cx w0 w f \<Longrightarrow> writer_reach lb cx w w' \<Longrightarrow> uploaded lb cx w0 w' f"
  unfolding uploaded_def by (blast intro: reach_trans)

definition all_uploaded :: "'s libs \<Rightarrow> writer_ctx \<Rightarrow> 's writer \<Rightarrow> 's writer \<Rightarrow> spool \<Rightarrow> bool" where
  "all_uploaded lb cx w0 w a \<longleftrightarrow> (\<forall>i < sp_done a. uploaded lb cx w0 w (fst (sp_sealed a ! i)))"

lemma landed_uploaded_file:
  assumes "writer_reach lb cx w0 w" and "put_task w = PLand f" and "put_task w0 = PRecv"
  shows "uploaded lb cx w0 w (fm_file (cp_meta f))"
  using landed_uploaded [OF assms(1), of f] assms(2,3) unfolding uploaded_def by auto

text \<open>A file that becomes durable is the one the upload stage is recording.\<close>

lemma landed_is_recorded:
  assumes "sim cx w a" and "spool_event_of lb cx l w = Some Landed"
  shows "\<exists>f. put_task w = PRecord f \<and> put_task (writer_step lb cx l w) = PLand f
    \<and> fm_file (cp_meta f) = fst (sp_sealed a ! sp_done a)"
proof -
  obtain c ev where l: "l = (c, ev)" by fastforce
  have "call_event lb cx c p st \<noteq> Some Landed" for p st
    by (auto simp: call_event_def split: pc.splits option.splits sum.splits)
  with assms(2) obtain b f where ev: "ev = PutStep b" "put_task w = PRecord f"
    by (cases ev) (auto simp: l put_event_def split: put_pc.splits)
  then have "live w = cp_meta f # tl (live w)" by (simp add: live_def put_files_def)
  from sim_head(2) [OF assms(1) this] ev show ?thesis by (simp add: l put_step_def)
qed

lemma all_uploaded_step:
  assumes "writer_reach lb cx w0 s" and "put_task w0 = PRecv" and "writer_allowed cx l s"
    and "sim cx s a" "spool_inv a" "all_uploaded lb cx w0 s a"
  shows "all_uploaded lb cx w0 (writer_step lb cx l s) (after spool_step (spool_event_of lb cx l s) a)"
proof -
  let ?s = "writer_step lb cx l s"
  have one: "writer_reach lb cx s ?s" using assms(3) by (blast intro: reach.intros)
  have w: "writer_reach lb cx w0 ?s" using one assms(1) by (rule reach_trans)
  show ?thesis
  proof (cases "spool_event_of lb cx l s")
    case (Some e)
    show ?thesis
    proof (cases e)
      case Landed
      from landed_is_recorded [OF assms(4) Some [unfolded Landed]] obtain f where
        f: "put_task ?s = PLand f" "fm_file (cp_meta f) = fst (sp_sealed a ! sp_done a)" by blast
      from landed_uploaded_file [OF w f(1) assms(2)] assms(6) uploaded_later [OF _ one] f(2) Some show ?thesis
        by (auto simp: all_uploaded_def Landed less_Suc_eq)
    qed (use Some assms(6) uploaded_later [OF _ one] spool_inv_parts(5) [OF assms(5)]
        in \<open>auto simp: all_uploaded_def nth_append\<close>)
  qed (use assms(6) uploaded_later [OF _ one] in \<open>simp add: all_uploaded_def\<close>)
qed

lemma durable_uploaded:
  assumes "writer_reach lb cx u w" and "writer_reach lb cx w0 u" "put_task w0 = PRecv"
    and "sim cx u b" "spool_inv b" "all_uploaded lb cx w0 u b"
  shows "\<exists>a. reach spool_step spool_allowed b a \<and> sim cx w a \<and> spool_inv a \<and> all_uploaded lb cx w0 w a"
  using assms
proof (induction rule: reach.induct)
  case reach_refl
  then show ?case by (blast intro: reach.reach_refl)
next
  case (reach_step s l)
  then obtain a where a: "reach spool_step spool_allowed b a" "sim cx s a" "spool_inv a" "all_uploaded lb cx w0 s a" by blast
  note next' = writer.rel_after [OF a(2,3) reach_step.hyps(2), of lb]
  have s: "writer_reach lb cx w0 s" using reach_step.hyps(1) reach_step.prems(1) by (rule reach_trans)
  from all_uploaded_step [OF s reach_step.prems(2) reach_step.hyps(2) a(2-4)] next' reach_trans [OF next'(3) a(1)]
  show ?case by blast
qed


section \<open>What the store lists\<close>

text \<open>
  An upload of the file was at least begun: the object may be there whatever the answer was. A file the
  server has consumed may have been collected.
\<close>

definition begun :: "'s libs \<Rightarrow> writer_ctx \<Rightarrow> 's writer \<Rightarrow> 's writer \<Rightarrow> staged_file \<Rightarrow> bool" where
  "begun lb cx w0 w f \<longleftrightarrow>
     (\<exists>u g n. writer_reach lb cx w0 u \<and> writer_reach lb cx u w \<and> put_task u = PWork g n \<and> fm_file (cp_meta g) = f)"

definition consumed :: "i64 option \<Rightarrow> staged_file \<Rightarrow> bool" where
  "consumed wm f \<longleftrightarrow> (\<exists>x. wm = Some x \<and> serial_of f \<le> x)"

definition listed :: "'s libs \<Rightarrow> writer_ctx \<Rightarrow> 's writer \<Rightarrow> 's writer \<Rightarrow> i64 option \<Rightarrow> staged_file list \<Rightarrow> bool" where
  "listed lb cx w0 w wm fs \<longleftrightarrow>
     (\<forall>f \<in> set fs. (\<exists>x. staged_offset (wr_state w0) = Some x \<and> end_offset f \<le> x) \<or> begun lb cx w0 w f)
     \<and> (\<forall>f. uploaded lb cx w0 w f \<longrightarrow> f \<in> set fs \<or> consumed wm f)"

lemma planned_offset:
  assumes "plan_recovery fs wm = Inr p" and "\<forall>f \<in> set fs. offsets_ok f \<and> end_offset f < i64_max"
  shows "kafka_resume_offset p = (if fs = [] then None else Some (Max (end_offset ` set fs) + 1))"
  using assms max_list_ends [of "sort_key (\<lambda>f. (epoch_ms f, seq f)) fs"]
  by (auto simp: plan_recovery_def Let_def res_simps)

lemma resume_is_max:
  assumes "plan_recovery fs wm = Inr p" and "kafka_resume_offset p = Some r"
    and "\<forall>f \<in> set fs. offsets_ok f \<and> end_offset f < i64_max"
  shows "\<exists>k \<in> set fs. r = end_offset k + 1 \<and> (\<forall>f \<in> set fs. end_offset f \<le> end_offset k)"
proof -
  from assms(2) have r: "fs \<noteq> []" "r = Max (end_offset ` set fs) + 1"
    using planned_offset [OF assms(1,3)] by (auto split: if_splits)
  then have "Max (end_offset ` set fs) \<in> end_offset ` set fs" by (intro Max_in) auto
  then obtain k where "k \<in> set fs" "Max (end_offset ` set fs) = end_offset k" by auto
  moreover have "end_offset f \<le> Max (end_offset ` set fs)" if "f \<in> set fs" for f using that by simp
  ultimately show ?thesis using r(2) by (intro bexI [of _ k]) auto
qed

lemma opened_init:
  assumes "opened cx w0" and "reach spool_step spool_allowed (spool_of w0) a"
  shows "sp_init a = staged_offset (wr_state w0)"
  using spool_kept [OF assms(2)] opened_sim [OF assms(1)] by (simp add: spool_of_def spool_new_def)

lemma begun_chain:
  assumes "opened cx w0" and "begun lb cx w0 w k"
  shows "\<exists>a i. reach spool_step spool_allowed (spool_of w0) a \<and> sim cx w a \<and> spool_inv a \<and> i < length (sp_sealed a)
    \<and> fst (sp_sealed a ! i) = k \<and> (\<forall>j < i. uploaded lb cx w0 w (fst (sp_sealed a ! j)))"
proof -
  from assms(2) obtain u g n where u: "writer_reach lb cx w0 u" "writer_reach lb cx u w" "put_task u = PWork g n"
    "fm_file (cp_meta g) = k" unfolding begun_def by blast
  have w0: "put_task w0 = PRecv" using assms(1) by (auto simp: opened_def writer_new_def)
  have "all_uploaded lb cx w0 w0 (spool_of w0)" by (simp add: all_uploaded_def spool_of_def spool_new_def)
  with durable_uploaded [OF u(1) reach_refl w0] opened_sim [OF assms(1)] obtain b where
    b: "reach spool_step spool_allowed (spool_of w0) b" "sim cx u b" "spool_inv b" "all_uploaded lb cx w0 u b" by blast
  from durable_uploaded [OF u(2,1) w0 b(2-4)] obtain a where
    a: "reach spool_step spool_allowed b a" "sim cx w a" "spool_inv a" by blast
  obtain ms where "live u = cp_meta g # ms" using u(3) by (simp add: live_def put_files_def)
  from sim_head [OF b(2) this] u(4) have h: "sp_done b < length (sp_sealed b)" "fst (sp_sealed b ! sp_done b) = k" by simp_all
  have "spool_grows b a" by (rule spool.grows_reach [OF a(1) b(3)])
  then obtain zs where z: "sp_sealed a = sp_sealed b @ zs" by (auto simp: spool_grows_def prefix_def)
  have "\<forall>j < sp_done b. uploaded lb cx w0 w (fst (sp_sealed b ! j))"
    using b(4) uploaded_later [OF _ u(2)] by (simp add: all_uploaded_def)
  then show ?thesis
    using reach_trans [OF a(1) b(1)] a(2,3) h z by (intro exI [of _ a] exI [of _ "sp_done b"]) (simp add: nth_append)
qed

section \<open>Resuming from the listing\<close>

text \<open>
  A file that is taken care of: the server has loaded it, or the next session announces it again.
\<close>

definition safe_file :: "i64 option \<Rightarrow> recovery_plan \<Rightarrow> staged_file \<Rightarrow> bool" where
  "safe_file wm p f \<longleftrightarrow> consumed wm f \<or> f \<in> set (backfill p)"

lemma listed_safe:
  assumes "plan_recovery fs wm = Inr p" and "f \<in> set fs"
  shows "safe_file wm p f"
  using plan_recovery_facts(2) [OF assms(1)] assms(2)
  by (auto simp: safe_file_def Recovery.pending_def above_watermark_def consumed_def serial_of_def not_less split: option.splits)

lemma uploaded_safe:
  assumes "listed lb cx w0 w wm fs" and "plan_recovery fs wm = Inr p" and "uploaded lb cx w0 w f"
  shows "safe_file wm p f"
proof -
  have "f \<in> set fs \<or> consumed wm f" using assms(1,3) unfolding listed_def by blast
  with listed_safe [OF assms(2)] show ?thesis by (auto simp: safe_file_def)
qed

lemma crash_resumes:
  assumes "opened cx w0" and "writer_reach lb cx w0 w" and "listed lb cx w0 w wm fs"
    and "\<forall>f \<in> set fs. offsets_ok f \<and> end_offset f < i64_max"
    and "plan_recovery fs wm = Inr p" and "kafka_resume_offset p = Some r"
  shows "\<exists>a. reach spool_step spool_allowed (spool_of w0) a \<and> sim cx w a \<and> spool_inv a
    \<and> resumes_after a (safe_file wm p) r"
proof -
  from resume_is_max [OF assms(5,6,4)] obtain k where k: "k \<in> set fs" "r = end_offset k + 1" by blast
  from assms(3) k(1) consider (old) x where "staged_offset (wr_state w0) = Some x" "end_offset k \<le> x"
    | (now) "begun lb cx w0 w k" unfolding listed_def by blast
  then show ?thesis
  proof cases
    case old
    from opened_reach [OF assms(1,2)] obtain a where
      a: "reach spool_step spool_allowed (spool_of w0) a" "sim cx w a" "spool_inv a" by blast
    have "sp_init a = Some x" using opened_init [OF assms(1) a(1)] old(1) by simp
    with a old(2) k(2) show ?thesis by (auto simp: resumes_after_def)
  next
    case now
    from begun_chain [OF assms(1) now] obtain a i where
      a: "reach spool_step spool_allowed (spool_of w0) a" "sim cx w a" "spool_inv a"
      and i: "i < length (sp_sealed a)" "fst (sp_sealed a ! i) = k"
      and up: "\<forall>j < i. uploaded lb cx w0 w (fst (sp_sealed a ! j))" by blast
    have "safe_file wm p (fst (sp_sealed a ! j))" if "j \<le> i" for j
      using that up i(2) listed_safe [OF assms(5) k(1)] uploaded_safe [OF assms(3,5)] by (cases "j = i") auto
    with a i k(2) show ?thesis unfolding resumes_after_def by blast
  qed
qed

lemma uploaded_begun: "uploaded lb cx w0 w f \<Longrightarrow> begun lb cx w0 w f"
  unfolding uploaded_def begun_def uploads_def by blast

end
