(* ===== verification/Writer_Ledger.thy ===== *)
theory Writer_Ledger
  imports Writer_Barrier Crash_Recovery
begin

text \<open>
  What becomes of the rows: a ledger of the files that were cut, each with the batches that went into it,
  kept beside the writer and its spool. The three run together as one machine, so that what a file in the
  pipeline is made of, what an acknowledged \<open>append\<close> may rely on and what a later \<open>flush\<close> has seen are facts
  about the same run.
\<close>

section \<open>What the files in the pipeline are made of\<close>

type_synonym entry = "record_batch \<times> i64 \<times> i64"
type_synonym ledger = "(file_meta \<times> entry list) list"

text \<open>The payload of a file is the rendering of its batches, through gzip where the file says so.\<close>

definition holds_body :: "'s libs \<Rightarrow> compressed_file \<Rightarrow> string \<Rightarrow> bool" where
  "holds_body lb f body \<longleftrightarrow>
     (if compressed (fm_file (cp_meta f)) then gzip lb body = Inr (cp_payload f) else cp_payload f = body)"

definition stored_from :: "'s libs \<Rightarrow> writer_ctx \<Rightarrow> record_batch list \<Rightarrow> compressed_file \<Rightarrow> bool" where
  "stored_from lb cx bs f \<longleftrightarrow> (\<exists>body. render_once lb cx None bs = Inr (body, cp_rows f) \<and> holds_body lb f body)"

definition sealed_at :: "'s writer \<Rightarrow> sealed set" where
  "sealed_at w = set (seal_queue w) \<union> (case render_task w of RWork f _ \<Rightarrow> {f} | _ \<Rightarrow> {})"

definition rendered_at :: "'s writer \<Rightarrow> rendered set" where
  "rendered_at w =
     (case render_task w of RSend r \<Rightarrow> {r} | _ \<Rightarrow> {}) \<union> set (gzip_chan w)
     \<union> (case gzip_task w of GWork r _ \<Rightarrow> {r} | _ \<Rightarrow> {})"

definition stored_at :: "'s writer \<Rightarrow> compressed_file set" where
  "stored_at w =
     (case gzip_task w of GSend f \<Rightarrow> {f} | _ \<Rightarrow> {}) \<union> set (put_chan w)
     \<union> (case put_task w of PCheck f \<Rightarrow> {f} | PWork f _ \<Rightarrow> {f} | PLanded f \<Rightarrow> {f} | PRecord f \<Rightarrow> {f}
        | PLand f \<Rightarrow> {f} | _ \<Rightarrow> {})"

definition content :: "'s libs \<Rightarrow> writer_ctx \<Rightarrow> ledger \<Rightarrow> 's writer \<Rightarrow> bool" where
  "content lb cx L w \<longleftrightarrow>
     (\<forall>s \<in> sealed_at w. \<exists>es. (sl_meta s, es) \<in> set L \<and> sl_batches s = map fst es)
     \<and> (\<forall>r \<in> rendered_at w. \<exists>es. (rn_meta r, es) \<in> set L
          \<and> render_once lb cx None (map fst es) = Inr (rn_body r, rn_rows r))
     \<and> (\<forall>f \<in> stored_at w. \<exists>es. (cp_meta f, es) \<in> set L \<and> stored_from lb cx (map fst es) f)
     \<and> (\<forall>r n. gzip_task w = GWork r n \<longrightarrow> compressed (fm_file (rn_meta r)))"

text \<open>The files a step cuts, with what was in the buffer.\<close>

definition cut_by :: "writer_ctx \<Rightarrow> reading \<Rightarrow> pc option \<Rightarrow> writer_state \<Rightarrow> sealed list" where
  "cut_by cx c p st =
     (case p of
        Some (Cutting k) \<Rightarrow> (case fst (seal cx c (aged_only k) st) of Inr (Some f) \<Rightarrow> [f] | _ \<Rightarrow> [])
      | _ \<Rightarrow> [])"

fun cuts :: "writer_ctx \<Rightarrow> reading \<times> 's writer_event \<Rightarrow> 's writer \<Rightarrow> ledger" where
  "cuts cx (c, Run t b) w = map (\<lambda>f. (sl_meta f, buffered (wr_state w))) (cut_by cx c (calls w t) (wr_state w))"
| "cuts cx (c, ev) w = []"

text \<open>Which steps leave the pipeline alone.\<close>

abbreviation keeps_pipe :: "'s writer \<Rightarrow> 's writer \<Rightarrow> bool" where
  "keeps_pipe w v \<equiv> seal_queue v = seal_queue w \<and> render_task v = render_task w
     \<and> gzip_chan v = gzip_chan w \<and> gzip_task v = gzip_task w \<and> put_chan v = put_chan w \<and> put_task v = put_task w"

lemma pipe_fields [simp]:
  "keeps_pipe w (goto t p w)" "keeps_pipe w (unlock w)" "keeps_pipe w (seal_return t k r w)"
  "keeps_pipe w (set_progress g w)" "keeps_pipe w (fence cx c reason w)" "keeps_pipe w (fenced_exit cx c w)"
  "keeps_pipe w (fence_and_exit cx c reason w)" "keeps_pipe w (cleared n m w)"
  by (simp_all add: goto_def unlock_def seal_return_def set_progress_def fence_def fenced_exit_def
      fence_and_exit_def cleared_def)

lemma content_pipe:
  assumes "content lb cx L w" and "keeps_pipe w v" and "set L \<subseteq> set L'"
  shows "content lb cx L' v"
proof -
  have "sealed_at v = sealed_at w" "rendered_at v = rendered_at w" "stored_at v = stored_at w"
      "gzip_task v = gzip_task w"
    using assms(2) by (simp_all add: sealed_at_def rendered_at_def stored_at_def)
  with assms(1,3) show ?thesis unfolding content_def by (simp add: subset_iff) blast
qed

lemma pipe_run:
  assumes "\<And>k. p \<noteq> Cutting k"
  shows "keeps_pipe w (run_pc lb cx c t b p w)"
proof (cases p)
  case (Start o')
  then show ?thesis
    by (cases o') (simp_all add: start_op_def start_append_def start_tick_def)
next
  case (Buffering batch s e)
  then show ?thesis by (simp add: run_buffer_def split: prod.splits sum.splits)
next
  case (Unbuffering s e prev err)
  then show ?thesis by (simp add: run_unbuffer_def split: prod.splits)
next
  case (AwaitFile k q)
  then show ?thesis by (simp add: run_await_def split: option.splits)
qed (use assms in \<open>auto simp: run_lock_def run_reserve_def seal_gone_def run_persist_def run_write_state_def Let_def
      run_stop_heartbeat_def run_release_def split: option.splits prod.splits sum.splits heartbeat_pc.splits\<close>)

lemma pipe_heartbeat: "keeps_pipe w (heartbeat_step lb cx c w)"
  by (auto simp: heartbeat_step_def heartbeat_tick_def heartbeat_renew_def Let_def
      split: heartbeat_pc.splits prod.splits sum.splits option.splits)

lemma pipe_quiet: "quiet w v \<Longrightarrow> keeps_pipe w v"
  by (simp add: quiet_def)

text \<open>A step whose files were all there before, or are made of files that were.\<close>

lemma content_moves:
  assumes "content lb cx L w"
    and "sealed_at v \<subseteq> sealed_at w"
    and "\<And>r. r \<in> rendered_at v \<Longrightarrow> r \<in> rendered_at w \<or> (\<exists>s \<in> sealed_at w. rn_meta r = sl_meta s
        \<and> render_once lb cx None (sl_batches s) = Inr (rn_body r, rn_rows r))"
    and "\<And>f. f \<in> stored_at v \<Longrightarrow> f \<in> stored_at w \<or> (\<exists>r \<in> rendered_at w. cp_meta f = rn_meta r \<and> cp_rows f = rn_rows r \<and> holds_body lb f (rn_body r))"
    and "\<And>r n. gzip_task v = GWork r n \<Longrightarrow> compressed (fm_file (rn_meta r)) \<or> (\<exists>m. gzip_task w = GWork r m)"
  shows "content lb cx L v"
  unfolding content_def
proof (intro conjI ballI allI impI)
  fix s assume "s \<in> sealed_at v"
  with assms(1,2) show "\<exists>es. (sl_meta s, es) \<in> set L \<and> sl_batches s = map fst es"
    unfolding content_def by blast
next
  fix r assume "r \<in> rendered_at v"
  with assms(1,3) show "\<exists>es. (rn_meta r, es) \<in> set L \<and> render_once lb cx None (map fst es) = Inr (rn_body r, rn_rows r)"
    unfolding content_def by metis
next
  fix f assume "f \<in> stored_at v"
  from assms(4) [OF this] show "\<exists>es. (cp_meta f, es) \<in> set L \<and> stored_from lb cx (map fst es) f"
  proof
    assume "f \<in> stored_at w"
    with assms(1) show ?thesis unfolding content_def by blast
  next
    assume "\<exists>r \<in> rendered_at w. cp_meta f = rn_meta r \<and> cp_rows f = rn_rows r \<and> holds_body lb f (rn_body r)"
    then obtain r where r: "r \<in> rendered_at w" "cp_meta f = rn_meta r" "cp_rows f = rn_rows r"
      "holds_body lb f (rn_body r)"
      by blast
    with assms(1) obtain es where "(cp_meta f, es) \<in> set L" "render_once lb cx None (map fst es) = Inr (rn_body r, cp_rows f)"
      unfolding content_def by metis
    with r(4) show ?thesis unfolding stored_from_def by blast
  qed
next
  fix r n assume "gzip_task v = GWork r n"
  with assms(1,5) show "compressed (fm_file (rn_meta r))" unfolding content_def by blast
qed

lemma render_join: "render_once lb cx join bs = Inr out \<Longrightarrow> render_once lb cx None bs = Inr out"
  by (cases join) (auto simp: render_once_def res_simps split: sum.splits if_splits)

lemma render_pipe:
  "seal_queue (render_attempt lb cx c join s n w) = seal_queue w"
  "gzip_chan (render_attempt lb cx c join s n w) = gzip_chan w"
  "gzip_task (render_attempt lb cx c join s n w) = gzip_task w"
  "put_chan (render_attempt lb cx c join s n w) = put_chan w"
  "put_task (render_attempt lb cx c join s n w) = put_task w"
  "render_task (render_attempt lb cx c join s n w) \<in> {RExit, RWork s (n + 1)}
     \<union> {RSend r | r. rn_meta r = sl_meta s \<and> render_once lb cx None (sl_batches s) = Inr (rn_body r, rn_rows r)}"
  by (auto simp: render_attempt_def attempt_failed_def Let_def set_progress_def split: sum.splits dest: render_join)

lemma content_render:
  assumes "content lb cx L w"
  shows "content lb cx L (render_step lb cx c join w)"
proof (cases "render_task w")
  case RRecv
  show ?thesis
    by (rule content_moves [OF assms])
       (auto simp: RRecv render_step_def sealed_at_def rendered_at_def stored_at_def split: list.splits if_splits)
next
  case (RSend r)
  show ?thesis
    by (rule content_moves [OF assms])
       (auto simp: RSend render_step_def sealed_at_def rendered_at_def stored_at_def split: if_splits)
next
  case (RWork s n)
  have "content lb cx L (render_attempt lb cx c join s n w)"
    using render_pipe(6) [of lb cx c join s n w]
    by (intro content_moves [OF assms]) (auto simp: RWork sealed_at_def rendered_at_def stored_at_def render_pipe(1-5))
  moreover have "content lb cx L (w\<lparr>render_task := RExit\<rparr>)"
      "content lb cx L ((fenced_exit cx c w)\<lparr>render_task := RExit\<rparr>)"
    by (rule content_moves [OF assms]; auto simp: RWork sealed_at_def rendered_at_def stored_at_def)+
  ultimately show ?thesis using RWork by (simp add: render_step_def)
qed (use assms in \<open>simp add: render_step_def\<close>)

lemma gzip_join: "gzip_once lb join body = Inr out \<Longrightarrow> gzip lb body = Inr out"
  by (cases join) (auto simp: gzip_once_def)

lemma gzip_pipe:
  "seal_queue (gzip_attempt lb cx c join r n w) = seal_queue w"
  "gzip_chan (gzip_attempt lb cx c join r n w) = gzip_chan w"
  "render_task (gzip_attempt lb cx c join r n w) = render_task w"
  "put_chan (gzip_attempt lb cx c join r n w) = put_chan w"
  "put_task (gzip_attempt lb cx c join r n w) = put_task w"
  "gzip_task (gzip_attempt lb cx c join r n w) \<in> {GExit, GWork r (n + 1)}
     \<union> {GSend f | f. cp_meta f = rn_meta r \<and> cp_rows f = rn_rows r \<and> gzip lb (rn_body r) = Inr (cp_payload f)}"
  by (auto simp: gzip_attempt_def attempt_failed_def Let_def set_progress_def compressed_of_def
      split: sum.splits dest: gzip_join)

lemma content_gzip:
  assumes "content lb cx L w"
  shows "content lb cx L (gzip_step lb cx c join w)"
proof (cases "gzip_task w")
  case GRecv
  show ?thesis
    by (rule content_moves [OF assms])
       (auto simp: GRecv gzip_step_def sealed_at_def rendered_at_def stored_at_def compressed_of_def holds_body_def
         split: list.splits if_splits)
next
  case (GSend f)
  show ?thesis
    by (rule content_moves [OF assms])
       (auto simp: GSend gzip_step_def sealed_at_def rendered_at_def stored_at_def split: if_splits)
next
  case (GWork r n)
  have z: "compressed (fm_file (rn_meta r))" using assms GWork by (simp add: content_def)
  have "content lb cx L (gzip_attempt lb cx c join r n w)"
    using gzip_pipe [of lb cx c join r n w] z
    by (intro content_moves [OF assms]) (auto simp: GWork sealed_at_def rendered_at_def stored_at_def holds_body_def)
  moreover have "content lb cx L (w\<lparr>gzip_task := GExit\<rparr>)"
      "content lb cx L ((fenced_exit cx c w)\<lparr>gzip_task := GExit\<rparr>)"
    by (rule content_moves [OF assms]; auto simp: GWork sealed_at_def rendered_at_def stored_at_def)+
  ultimately show ?thesis using GWork by (simp add: gzip_step_def)
qed (use assms in \<open>simp add: gzip_step_def\<close>)

lemma put_pipe:
  "seal_queue (put_step lb cx c up w) = seal_queue w" "render_task (put_step lb cx c up w) = render_task w"
  "gzip_chan (put_step lb cx c up w) = gzip_chan w" "gzip_task (put_step lb cx c up w) = gzip_task w"
  by (auto simp: put_step_def put_attempt_def attempt_failed_def Let_def cleared_def set_progress_def fenced_exit_def
      record_durable_def trip_order_fatal_def split: put_pc.splits list.splits sum.splits prod.splits)

lemma put_stored_at: "stored_at (put_step lb cx c up w) \<subseteq> stored_at w"
proof (cases "put_task w")
  case (PWork f n)
  have "put_chan (put_attempt lb cx c f n w) = put_chan w \<and>
      put_task (put_attempt lb cx c f n w) \<in> {PLanded f, PExit, PWork f (n + 1)}"
    by (auto simp: put_attempt_def attempt_failed_def Let_def cleared_def set_progress_def split: sum.splits prod.splits)
  with PWork put_pipe(4) [of lb cx c up w] show ?thesis by (auto simp: put_step_def stored_at_def)
qed (use put_pipe(4) [of lb cx c up w] in \<open>auto simp: put_step_def stored_at_def record_durable_def trip_order_fatal_def
      Let_def split: list.splits sum.splits\<close>)

lemma content_put:
  assumes "content lb cx L w"
  shows "content lb cx L (put_step lb cx c up w)"
  by (rule content_moves [OF assms])
     (use put_stored_at [of lb cx c up w] in \<open>auto simp: sealed_at_def rendered_at_def put_pipe\<close>)

lemma seal_made: "fst (seal cx c ao st) = Inr (Some f) \<Longrightarrow> sl_batches f = map fst (buffered st)"
  by (auto simp: seal_def roll_epoch_def Let_def split: if_splits sum.splits)

lemma content_cut:
  assumes "content lb cx L w" and "calls w t = Some (Cutting k)"
  shows "content lb cx (L @ cuts cx (c, Run t b) w) (run_cut cx c t k w)"
proof -
  obtain r st where se: "seal cx c (aged_only k) (wr_state w) = (r, st)" by fastforce
  show ?thesis
  proof (cases "\<exists>f. r = Inr (Some f)")
    case True
    then obtain f where f: "r = Inr (Some f)" by blast
    have "keeps_pipe (w\<lparr>seal_queue := seal_queue w @ [f]\<rparr>) (run_cut cx c t k w)"
      by (simp add: run_cut_def se f Let_def)
    moreover have "content lb cx (L @ [(sl_meta f, buffered (wr_state w))]) (w\<lparr>seal_queue := seal_queue w @ [f]\<rparr>)"
      using assms(1) seal_made [of cx c "aged_only k" "wr_state w" f] se f
      unfolding content_def by (fastforce simp: sealed_at_def rendered_at_def stored_at_def)
    ultimately show ?thesis using assms(2) se f content_pipe by (fastforce simp: cut_by_def)
  next
    case False
    then have "keeps_pipe w (run_cut cx c t k w)" by (auto simp: run_cut_def se Let_def split: sum.splits option.splits)
    from content_pipe [OF assms(1) this] show ?thesis by simp
  qed
qed

lemma content_step:
  assumes "content lb cx L w"
  shows "content lb cx (L @ cuts cx l w) (writer_step lb cx l w)"
proof -
  obtain c ev where l: "l = (c, ev)" by fastforce
  have frame: "content lb cx (L @ cuts cx l w) v" if "keeps_pipe w v" for v
    by (rule content_pipe [OF assms that]) simp
  show ?thesis
  proof (cases ev)
    case (Run t b)
    show ?thesis
    proof (cases "\<exists>k. calls w t = Some (Cutting k)")
      case True
      then obtain k where "calls w t = Some (Cutting k)" by blast
      with content_cut [OF assms this, of c b] show ?thesis by (simp add: l Run run_call_def)
    next
      case False
      then have "keeps_pipe w (run_call lb cx c t b w)"
        by (cases "calls w t") (auto simp: run_call_def pipe_run)
      from frame [OF this] show ?thesis by (simp add: l Run)
    qed
  next
    case HeartbeatStep
    from frame [OF pipe_heartbeat] show ?thesis by (simp add: l HeartbeatStep)
  next
    case GcStep
    then show ?thesis using frame by (simp add: l gc_step_def)
  next
    case (LagStep b)
    then show ?thesis using frame [of "lag_step lb cx c b w"]
      by (auto simp: l lag_step_def split: prod.splits sum.splits)
  qed (use content_render [OF assms] content_gzip [OF assms] content_put [OF assms] frame in \<open>simp_all add: l\<close>)
qed

section \<open>Writer, spool and ledger together\<close>

type_synonym 's shadowed = "'s writer \<times> spool \<times> ledger"

fun shadow_step :: "'s libs \<Rightarrow> writer_ctx \<Rightarrow> reading \<times> 's writer_event \<Rightarrow> 's shadowed \<Rightarrow> 's shadowed" where
  "shadow_step lb cx l (w, a, L) =
     (writer_step lb cx l w, after spool_step (spool_event_of lb cx l w) a, L @ cuts cx l w)"

abbreviation on_writer :: "('l \<Rightarrow> 's writer \<Rightarrow> bool) \<Rightarrow> 'l \<Rightarrow> 's shadowed \<Rightarrow> bool" where
  "on_writer G l x \<equiv> G l (fst x)"

text \<open>Every run of the writer is a run of the three.\<close>

lemma shadow_lift:
  "reach (writer_step lb cx) G w0 w \<Longrightarrow> \<exists>a L. reach (shadow_step lb cx) (on_writer G) (w0, a0, L0) (w, a, L)"
proof (induction rule: reach.induct)
  case reach_refl
  then show ?case by (blast intro: reach.reach_refl)
next
  case (reach_step s l)
  then obtain a L where r: "reach (shadow_step lb cx) (on_writer G) (w0, a0, L0) (s, a, L)" by blast
  have "on_writer G l (s, a, L)" using reach_step.hyps(2) by simp
  from reach.reach_step [of "shadow_step lb cx" "on_writer G", OF r this] show ?case by auto
qed

text \<open>An upload of the entry's file, made of the entry's batches, was answered.\<close>

definition entry_stored ::
  "'s libs \<Rightarrow> writer_ctx \<Rightarrow> 's writer \<Rightarrow> 's writer \<Rightarrow> file_meta \<times> entry list \<Rightarrow> bool" where
  "entry_stored lb cx w0 w en \<longleftrightarrow>
     (\<exists>u f h s. writer_reach lb cx w0 u \<and> writer_reach lb cx u w \<and> uploads lb u f h s
        \<and> cp_meta f = fst en \<and> stored_from lb cx (map fst (snd en)) f)"

text \<open>The entry was made by sealing a buffer.\<close>

definition entry_cut ::
  "'s libs \<Rightarrow> writer_ctx \<Rightarrow> 's writer \<Rightarrow> 's writer \<Rightarrow> file_meta \<times> entry list \<Rightarrow> bool" where
  "entry_cut lb cx w0 w en \<longleftrightarrow>
     (\<exists>u c ao f st. writer_reach lb cx w0 u \<and> writer_reach lb cx u w
        \<and> seal cx c ao (wr_state u) = (Inr (Some f), st) \<and> en = (sl_meta f, buffered (wr_state u)))"

fun shadow_ok :: "'s libs \<Rightarrow> writer_ctx \<Rightarrow> 's writer \<Rightarrow> 's shadowed \<Rightarrow> bool" where
  "shadow_ok lb cx w0 (w, a, L) \<longleftrightarrow>
     writer_reach lb cx w0 w \<and> sim cx w a \<and> spool_inv a
     \<and> sp_sealed a = map (\<lambda>(m, es). (fm_file m, map snd es)) L
     \<and> content lb cx L w \<and> (\<forall>i < sp_done a. entry_stored lb cx w0 w (L ! i))
     \<and> (\<forall>en \<in> set L. entry_cut lb cx w0 w en)"

lemma cuts_event:
  "map (\<lambda>(m, es). (fm_file m, map snd es)) (cuts cx l w) =
     (case spool_event_of lb cx l w of Some (Cut g) \<Rightarrow> [(g, map snd (buffered (wr_state w)))] | _ \<Rightarrow> [])"
proof -
  obtain c ev where l: "l = (c, ev)" by fastforce
  show ?thesis
  proof (cases ev)
    case (Run t b)
    then show ?thesis
      by (auto simp: l cut_by_def call_event_def split: option.splits pc.splits sum.splits)
  qed (auto simp: l put_event_def split: put_pc.splits)
qed

lemma sealed_after:
  assumes "sim cx w a"
  shows "sp_sealed (after spool_step (spool_event_of lb cx l w) a)
    = sp_sealed a @ map (\<lambda>(m, es). (fm_file m, map snd es)) (cuts cx l w)"
proof -
  have "sp_buffer a = map snd (buffered (wr_state w))" using assms by (simp add: sim_def sim_state_def)
  then show ?thesis
    unfolding cuts_event [where lb = lb] by (auto simp: after_def split: option.splits spool_event.splits)
qed

lemma entry_later: "entry_stored lb cx w0 w en \<Longrightarrow> writer_reach lb cx w v \<Longrightarrow> entry_stored lb cx w0 v en"
  unfolding entry_stored_def by (blast intro: reach_trans)

lemma cut_later: "entry_cut lb cx w0 w en \<Longrightarrow> writer_reach lb cx w v \<Longrightarrow> entry_cut lb cx w0 v en"
  unfolding entry_cut_def by (blast intro: reach_trans)

lemma cuts_cut:
  assumes "writer_reach lb cx w0 w" and "writer_reach lb cx w v" and "en \<in> set (cuts cx l w)"
  shows "entry_cut lb cx w0 v en"
proof -
  obtain c ev where l: "l = (c, ev)" by fastforce
  from assms(3) obtain t b where ev: "ev = Run t b" by (cases ev) (auto simp: l)
  with assms(3) obtain f where f: "f \<in> set (cut_by cx c (calls w t) (wr_state w))"
    "en = (sl_meta f, buffered (wr_state w))" by (auto simp: l)
  from f(1) have "\<exists>k. fst (seal cx c (aged_only k) (wr_state w)) = Inr (Some f)"
    by (auto simp: cut_by_def split: option.splits pc.splits sum.splits)
  with f(2) assms(1,2) show ?thesis
    unfolding entry_cut_def by (metis prod.collapse)
qed

lemma file_unique:
  assumes "spool_inv a" and "i < length (sp_sealed a)" and "j < length (sp_sealed a)"
    and "fst (sp_sealed a ! i) = fst (sp_sealed a ! j)"
  shows "i = j"
  using serial_less [OF assms(1), of i j] serial_less [OF assms(1), of j i] assms(2-4)
  by (cases i j rule: linorder_cases) auto

lemma head_entry:
  assumes "shadow_ok lb cx w0 (w, a, L)" and "live w = cp_meta f # ms" and "f \<in> stored_at w"
  shows "sp_done a < length L" and "\<exists>es. L ! sp_done a = (cp_meta f, es) \<and> stored_from lb cx (map fst es) f"
proof -
  have ok: "sim cx w a" "spool_inv a" "sp_sealed a = map (\<lambda>(m, es). (fm_file m, map snd es)) L" "content lb cx L w"
    using assms(1) by simp_all
  note h = sim_head [OF ok(1) assms(2)]
  then show "sp_done a < length L" by (simp add: ok(3))
  from ok(4) assms(3) obtain es where es: "(cp_meta f, es) \<in> set L" "stored_from lb cx (map fst es) f"
    by (auto simp: content_def)
  then obtain j where j: "j < length L" "L ! j = (cp_meta f, es)" by (auto simp: in_set_conv_nth)
  have "fst (sp_sealed a ! j) = fm_file (cp_meta f)" using j by (simp add: ok(3))
  then have "j = sp_done a" using file_unique [OF ok(2) _ h(1), of j] h(2) j(1) by (simp add: ok(3))
  with j(2) es(2) show "\<exists>es. L ! sp_done a = (cp_meta f, es) \<and> stored_from lb cx (map fst es) f" by blast
qed

lemma recorded_stored:
  assumes "shadow_ok lb cx w0 (w, a, L)" and "put_task w0 = PRecv" and "put_task w = PRecord f"
    and "writer_reach lb cx w v"
  shows "sp_done a < length L \<and> entry_stored lb cx w0 v (L ! sp_done a)"
proof -
  have "live w = cp_meta f # tl (live w)" "f \<in> stored_at w"
    using assms(3) by (simp_all add: live_def put_files_def stored_at_def)
  note h = head_entry [OF assms(1) this]
  have "writer_reach lb cx w0 w" using assms(1) by simp
  from landed_uploaded [OF this, of f] assms(2,3) obtain u h s where
    u: "writer_reach lb cx w0 u" "writer_reach lb cx u w" "uploads lb u f h s" by auto
  moreover have "writer_reach lb cx u v" by (rule reach_trans [OF assms(4) u(2)])
  moreover from h(2) obtain es where "L ! sp_done a = (cp_meta f, es)" "stored_from lb cx (map fst es) f" by blast
  ultimately show ?thesis using h(1) unfolding entry_stored_def by (metis fst_conv snd_conv)
qed

lemma shadow_ok_step:
  assumes "shadow_ok lb cx w0 x" and "put_task w0 = PRecv" and "writer_allowed cx l (fst x)"
  shows "shadow_ok lb cx w0 (shadow_step lb cx l x)"
proof -
  obtain w a L where x: "x = (w, a, L)" by (metis prod_cases3)
  have ok: "writer_reach lb cx w0 w" "sim cx w a" "spool_inv a"
      "sp_sealed a = map (\<lambda>(m, es). (fm_file m, map snd es)) L" "content lb cx L w"
      "\<forall>i < sp_done a. entry_stored lb cx w0 w (L ! i)" "\<forall>en \<in> set L. entry_cut lb cx w0 w en"
    and al: "writer_allowed cx l w"
    using assms(1,3) by (simp_all add: x)
  let ?w = "writer_step lb cx l w" and ?ev = "spool_event_of lb cx l w"
  have one: "writer_reach lb cx w ?w" using al by (blast intro: reach.intros)
  have len: "sp_done a \<le> length L" using spool_inv_parts(5) [OF ok(3)] by (simp add: ok(4))
  have "entry_stored lb cx w0 ?w ((L @ cuts cx l w) ! i)" if i: "i < sp_done (after spool_step ?ev a)" for i
  proof (cases "i < sp_done a")
    case True
    with ok(6) entry_later [OF _ one] len show ?thesis by (simp add: nth_append)
  next
    case False
    with i have ev: "?ev = Some Landed" "i = sp_done a"
      by (cases ?ev; cases "the ?ev"; auto)+
    from landed_is_recorded [OF ok(2) ev(1)] obtain f where "put_task w = PRecord f" by blast
    from recorded_stored [OF assms(1) [unfolded x] assms(2) this one] ev(2) show ?thesis by (simp add: nth_append)
  qed
  moreover have "\<forall>en \<in> set (L @ cuts cx l w). entry_cut lb cx w0 ?w en"
    using ok(7) cut_later [OF _ one] cuts_cut [OF ok(1) one] by (simp only: set_append) blast
  ultimately show ?thesis
    using writer.rel_after [OF ok(2,3) al, of lb] sealed_after [OF ok(2), of lb l] content_step [OF ok(5), of l]
      reach_trans [OF one ok(1)] ok(4) by (simp add: x)
qed

lemma shadow_ok_reach:
  assumes "reach (shadow_step lb cx) (on_writer G) x y" and "\<And>l w. G l w \<Longrightarrow> writer_allowed cx l w"
    and "shadow_ok lb cx w0 x" and "put_task w0 = PRecv"
  shows "shadow_ok lb cx w0 y"
  using assms by (induction rule: reach.induct) (auto intro: shadow_ok_step)

lemma shadow_start:
  assumes "opened cx w0"
  shows "shadow_ok lb cx w0 (w0, spool_of w0, [])" and "put_task w0 = PRecv"
proof -
  from assms show p: "put_task w0 = PRecv" by (auto simp: opened_def writer_new_def)
  have "sealed_at w0 = {}" "rendered_at w0 = {}" "stored_at w0 = {}" "gzip_task w0 = GRecv"
    using assms by (auto simp: opened_def writer_new_def sealed_at_def rendered_at_def stored_at_def)
  then show "shadow_ok lb cx w0 (w0, spool_of w0, [])"
    using opened_sim [OF assms] by (simp add: content_def spool_of_def spool_new_def reach_refl)
qed

section \<open>An accepted batch is kept\<close>

definition in_ledger :: "entry \<Rightarrow> ledger \<Rightarrow> bool" where
  "in_ledger en L \<longleftrightarrow> (\<exists>m es. (m, es) \<in> set L \<and> en \<in> set es)"

text \<open>The batch is in the buffer, and only the calls in \<open>T\<close> may take it back, or it is in a file.\<close>

fun kept :: "nat set \<Rightarrow> entry \<Rightarrow> 's shadowed \<Rightarrow> bool" where
  "kept T (b, s, e) (w, a, L) \<longleftrightarrow>
     ((b, s, e) \<in> set (buffered (wr_state w)) \<and> (\<forall>t prev. owns (calls w t) s e prev \<longrightarrow> t \<in> T))
     \<or> in_ledger (b, s, e) L"

lemma buffer_run:
  assumes "\<And>b s e. p \<noteq> Buffering b s e" and "\<And>s e prev err. p \<noteq> Unbuffering s e prev err" and "\<And>k. p \<noteq> Cutting k"
  shows "buffered (wr_state (run_pc lb cx c t b p w)) = buffered (wr_state w)"
proof (cases p)
  case (Start o')
  then show ?thesis
    by (cases o') (simp_all add: start_op_def start_append_def start_tick_def)
next
  case (AwaitFile k q)
  then show ?thesis by (simp add: run_await_def split: option.splits)
qed (use assms in \<open>auto simp: run_lock_def run_reserve_def seal_gone_def run_persist_def run_write_state_def Let_def
      run_stop_heartbeat_def run_release_def split: option.splits prod.splits sum.splits heartbeat_pc.splits\<close>)

lemma buffer_others:
  assumes "\<And>t b. ev \<noteq> Run t b"
  shows "buffered (wr_state (writer_step lb cx (c, ev) w)) = buffered (wr_state w)"
proof -
  have f: "wr_state (fenced_exit cx c v) = wr_state v" "wr_state (fence_and_exit cx c r v) = wr_state v"
      "wr_state (cleared n m v) = wr_state v" "wr_state (set_progress g v) = wr_state v" for v :: "'s writer" and r n m g
    by (simp_all add: fenced_exit_def fence_and_exit_def fence_def set_progress_def cleared_def)
  show ?thesis
    using assms
    by (cases ev)
       (auto simp: f render_step_def render_attempt_def gzip_step_def gzip_attempt_def put_step_def put_attempt_def
         attempt_failed_def Let_def record_durable_def trip_order_fatal_def heartbeat_step_def heartbeat_tick_def
         heartbeat_renew_def gc_step_def lag_step_def lag_sample_def
         split: render_pc.splits gzip_pc.splits put_pc.splits heartbeat_pc.splits list.splits option.splits
           prod.splits sum.splits)
qed

text \<open>A call owns what it owned, or what it has just buffered.\<close>

lemma owns_run:
  assumes "owns (calls (run_pc lb cx c t b p w) t) s e prev" and "calls w t = Some p"
  shows "owns (calls w t) s e prev \<or> (\<exists>x. p = Buffering x s e)"
  using assms
  by (cases p)
     (auto simp: owns_def start_op_def start_append_def start_tick_def run_buffer_def run_lock_def run_reserve_def
       seal_gone_def run_cut_def run_unbuffer_def run_await_def run_persist_def run_write_state_def persisted_def
       run_stop_heartbeat_def run_release_def sealed_result_def flushed_def Let_def
       split: op.splits option.splits sum.splits prod.splits heartbeat_pc.splits purpose.splits if_splits)

lemma owns_step:
  assumes "owns (calls (writer_step lb cx (c, ev) w) t) s e prev"
  shows "owns (calls w t) s e prev \<or> (\<exists>b x. ev = Run t b \<and> calls w t = Some (Buffering x s e))"
proof (cases "\<exists>b. ev = Run t b")
  case True
  then obtain b where ev: "ev = Run t b" by blast
  with assms have "owns (calls (run_call lb cx c t b w) t) s e prev" by simp
  then show ?thesis
    using owns_run [of lb cx c t b _ w s e prev] ev by (cases "calls w t") (auto simp: run_call_def)
next
  case False
  then show ?thesis
    using assms other_calls [of "(c, ev)" t lb cx w]
    by (cases "\<exists>o'. ev = Call t o'") (auto simp: owns_def)
qed

lemma cut_buffer:
  assumes "en \<in> set (buffered (wr_state w))" and "calls w t = Some (Cutting k)"
  shows "en \<in> set (buffered (wr_state (run_cut cx c t k w))) \<or> in_ledger en (cuts cx (c, Run t b) w)"
proof -
  obtain r st where se: "seal cx c (aged_only k) (wr_state w) = (r, st)" by fastforce
  show ?thesis
  proof (cases "\<exists>f. r = Inr (Some f)")
    case True
    then obtain f where "r = Inr (Some f)" by blast
    with assms se show ?thesis by (auto simp: cut_by_def in_ledger_def)
  next
    case False
    with se have "buffered st = buffered (wr_state w)"
      by (auto simp: seal_def roll_epoch_def Let_def split: if_splits sum.splits)
    with assms(1) False show ?thesis
      by (auto simp: run_cut_def se Let_def split: sum.splits option.splits)
  qed
qed

lemma unbuffer_others:
  assumes "en \<in> set (buffered st)" and "snd en \<noteq> (s, e)"
  shows "en \<in> set (buffered (snd (unbuffer lb s e prev st)))"
proof (cases "rposition (\<lambda>(_, x, y). x = s \<and> y = e) (buffered st)")
  case (Some i)
  let ?xs = "buffered st"
  have i: "i < length ?xs" "snd (?xs ! i) = (s, e)"
    using rposition_Some [OF Some] by (auto split: prod.splits)
  have "set ?xs = set (take i ?xs @ ?xs ! i # drop (Suc i) ?xs)" using i(1) by (simp add: id_take_nth_drop [symmetric])
  with assms i(2) Some show ?thesis by (auto simp: unbuffer_def Let_def)
qed (use assms in \<open>simp add: unbuffer_def\<close>)

lemma buffer_kept:
  assumes "(b, s, e) \<in> set (buffered (wr_state w))"
    and "\<And>c t b' prev err. l = (c, Run t b') \<Longrightarrow> calls w t \<noteq> Some (Unbuffering s e prev err)"
  shows "(b, s, e) \<in> set (buffered (wr_state (writer_step lb cx l w))) \<or> in_ledger (b, s, e) (cuts cx l w)"
proof -
  obtain c ev where l: "l = (c, ev)" by fastforce
  show ?thesis
  proof (cases "\<exists>t b'. ev = Run t b'")
    case False
    with buffer_others [of ev lb cx c w] assms(1) show ?thesis by (auto simp: l)
  next
    case True
    then obtain t b' where ev: "ev = Run t b'" by blast
    show ?thesis
    proof (cases "calls w t")
      case (Some p)
      then have r: "writer_step lb cx l w = run_pc lb cx c t b' p w" by (simp add: l ev run_call_def)
      show ?thesis
      proof (cases p)
        case (Buffering x s' e')
        have "set (buffered (wr_state w)) \<subseteq> set (buffered (snd (push_batch lb (wx_cfg cx) (mono c) x s' e' (wr_state w))))"
          by (auto simp: push_batch_def Let_def split: option.splits)
        with assms(1) Buffering show ?thesis by (auto simp: r run_buffer_def split: prod.splits)
      next
        case (Unbuffering s' e' prev err)
        with assms(2) [of c t b' prev err] Some have "(s', e') \<noteq> (s, e)" by (auto simp: l ev)
        with unbuffer_others [OF assms(1), of s' e' lb prev] Unbuffering show ?thesis
          by (auto simp: r run_unbuffer_def Let_def split: prod.splits)
      next
        case (Cutting k)
        then have "writer_step lb cx l w = run_cut cx c t k w" by (simp add: r)
        with cut_buffer [OF assms(1), of t k cx c b'] Some Cutting show ?thesis by (simp only: l ev)
      qed (use assms(1) buffer_run [of p lb cx c t b' w] in \<open>simp_all add: r\<close>)
    qed (use assms(1) in \<open>simp add: l ev run_call_def\<close>)
  qed
qed

lemma kept_step:
  assumes "shadow_ok lb cx w0 x" and "writer_allowed cx l (fst x)" and "kept T (b, s, e) x"
    and safe: "\<And>c t b' prev err. l = (c, Run t b') \<Longrightarrow> t \<in> T \<Longrightarrow> calls (fst x) t \<noteq> Some (Unbuffering s e prev err)"
  shows "kept T (b, s, e) (shadow_step lb cx l x)"
proof -
  obtain w a L where x: "x = (w, a, L)" by (metis prod_cases3)
  have ok: "sim cx w a" "spool_inv a" using assms(1) by (simp_all add: x)
  from assms(3) consider (led) "in_ledger (b, s, e) L"
    | (buf) "(b, s, e) \<in> set (buffered (wr_state w))" "\<And>t prev. owns (calls w t) s e prev \<Longrightarrow> t \<in> T"
    by (auto simp: x)
  then show ?thesis
  proof cases
    case led
    then have "in_ledger (b, s, e) (L @ cuts cx l w)" by (auto simp: in_ledger_def)
    then show ?thesis by (simp add: x)
  next
    case buf
    have safe': "calls w t \<noteq> Some (Unbuffering s e prev err)" if "l = (c, Run t b')" for c t b' prev err
    proof
      assume c: "calls w t = Some (Unbuffering s e prev err)"
      then have "owns (calls w t) s e prev" by (simp add: owns_def)
      from safe [OF that buf(2) [OF this], of prev err] c show False by (simp add: x)
    qed
    have own: "t \<in> T" if "owns (calls (writer_step lb cx l w) t) s e prev"
        and "(b, s, e) \<in> set (buffered (wr_state (writer_step lb cx l w)))" for t prev
    proof -
      obtain c ev where l: "l = (c, ev)" by fastforce
      from owns_step [of lb cx c ev w t s e prev] that(1) consider "owns (calls w t) s e prev"
        | (new) b' y where "ev = Run t b'" "calls w t = Some (Buffering y s e)" unfolding l by blast
      then show ?thesis
      proof cases
        case new
        have "sp_buffer a = map snd (buffered (wr_state w))" using ok(1) by (simp add: sim_def sim_state_def)
        then have "(s, e) \<in> set (sp_buffer a)" using buf(1) by (auto intro: rev_image_eqI)
        then have acc: "(s, e) \<in> set (sp_accepted a)" unfolding spool_inv_parts(1) [OF ok(2)] by simp
        show ?thesis
        proof (cases "fst (push_batch lb (wx_cfg cx) (mono c) y s e (wr_state w))")
          case (Inr z)
          with new have "spool_event_of lb cx l w = Some (Accept s e)" by (simp add: l call_event_def)
          with writer.rel_event [OF ok, of l lb] assms(2) have "spool_allowed (Accept s e) a" by (simp add: x)
          with acc show ?thesis by fastforce
        next
          case (Inl err)
          with new that(1) show ?thesis by (auto simp: l run_call_def run_buffer_def owns_def split: prod.splits sum.splits)
        qed
      qed (rule buf(2))
    qed
    have "(b, s, e) \<in> set (buffered (wr_state (writer_step lb cx l w))) \<or> in_ledger (b, s, e) (cuts cx l w)"
      by (rule buffer_kept [OF buf(1) safe'])
    with own show ?thesis by (auto simp: x in_ledger_def)
  qed
qed

section \<open>The phases of an append\<close>

text \<open>What a call that appends \<open>(b, s, e)\<close> on task \<open>t\<close> has achieved.\<close>

definition append_phase :: "nat \<Rightarrow> entry \<Rightarrow> 's shadowed \<Rightarrow> pc \<Rightarrow> bool" where
  "append_phase t en x p \<longleftrightarrow>
     (case p of
        Start o' \<Rightarrow> o' = (case en of (b, s, e) \<Rightarrow> Append b s e)
      | Buffering b s e \<Rightarrow> (b, s, e) = en
      | Finished r \<Rightarrow> r = AppendDone (Inr ()) \<longrightarrow> kept {} en x
      | _ \<Rightarrow> (\<exists>prev. pc_purpose p = Some (ForAppend (fst (snd en)) (snd (snd en)) prev)) \<and> kept {t} en x)"

lemma append_phase_other:
  assumes "shadow_ok lb cx w0 x" and "writer_allowed cx l (fst x)" and "append_phase t en x p"
    and "calls (fst x) t = Some p" and "\<And>c b. l \<noteq> (c, Run t b)"
  shows "append_phase t en (shadow_step lb cx l x) p"
proof -
  obtain b s e where en: "en = (b, s, e)" by (metis prod_cases3)
  have "kept T en (shadow_step lb cx l x)" if "kept T en x" "T \<subseteq> {t}" for T
    unfolding en by (rule kept_step [OF assms(1,2) that(1) [unfolded en]]) (use that(2) assms(5) in blast)
  with assms(3) show ?thesis
    by (auto simp: append_phase_def split: pc.splits)
qed

text \<open>The results a sealing call ends with.\<close>

lemma append_result:
  assumes "kept {t} (b, s, e) x" and "calls (fst x) t = Some (sealed_result (ForAppend s e prev) r)"
  shows "append_phase t (b, s, e) x (sealed_result (ForAppend s e prev) r)"
proof (cases r)
  case (Inr z)
  obtain w a L where x: "x = (w, a, L)" by (metis prod_cases3)
  have "calls w t = Some (Finished (AppendDone (Inr ())))" using assms(2) Inr by (simp add: x sealed_result_def)
  then have "\<not> owns (calls w t) s e pv" for pv by (simp add: owns_def)
  with assms(1) have "kept {} (b, s, e) x" by (auto simp: x)
  with Inr show ?thesis by (simp add: append_phase_def sealed_result_def)
qed (use assms(1) in \<open>simp add: append_phase_def sealed_result_def\<close>)

lemma seal_calls:
  assumes "p \<in> {TryLock k, ParkLock k, TryReserve k, ParkReserve k, Granted k, Cutting k}"
  shows "calls (run_pc lb cx c t b p w) t
     \<in> {Some (TryReserve k), Some (ParkLock k), Some (Granted k), Some (ParkReserve k), Some (Cutting k)}
        \<union> {Some (sealed_result k r) | r. True}" (is "_ \<in> ?R")
proof -
  have lock: "calls (run_lock cx t parked b k w) t \<in> ?R" for parked
    by (cases "if parked \<and> b \<and> surface_stall k then stall_error (wx_cfg cx) (wr_progress w) i64_max else None")
       (auto simp: run_lock_def)
  have reserve: "calls (run_reserve cx t parked b k w) t \<in> ?R" for parked
    using run_reserve_calls [of cx t parked b k w] by blast
  have cut: "calls (run_cut cx c t k w) t \<in> ?R"
    by (auto simp: run_cut_def Let_def split: sum.splits option.splits prod.splits)
  have ret: "calls (seal_return t k r v) t \<in> ?R" for r and v :: "'a writer" by auto
  have go: "calls (goto t (Cutting k) w) t \<in> ?R" by simp
  from assms show ?thesis
  proof (elim insertE emptyE)
    assume "p = TryReserve k"
    then show ?thesis
      using reserve [of False] ret
      by (cases "sealable (wx_cfg cx) (mono c) (aged_only k) (wr_state w)") (simp_all only: run_pc.simps if_True if_False)
  next
    assume "p = Granted k"
    then show ?thesis
      using ret go by (cases "check_health cx w") (simp_all only: run_pc.simps sum.case)
  qed (use lock reserve cut in \<open>simp_all only: run_pc.simps\<close>)
qed

lemma append_phase_run:
  assumes "shadow_ok lb cx w0 x" and "append_phase t (b, s, e) x p" and "calls (fst x) t = Some p"
  shows "\<exists>p'. calls (fst (shadow_step lb cx (c, Run t g) x)) t = Some p'
    \<and> append_phase t (b, s, e) (shadow_step lb cx (c, Run t g) x) p'"
proof -
  obtain w a L where x: "x = (w, a, L)" by (metis prod_cases3)
  have ok: "sim cx w a" "spool_inv a" using assms(1) by (simp_all add: x)
  let ?l = "(c, Run t g)"
  let ?x = "shadow_step lb cx ?l x" and ?w = "run_pc lb cx c t g p w"
  have w: "fst ?x = ?w" using assms(3) by (simp add: x run_call_def)
  have kept: "kept {t} (b, s, e) ?x" if "kept {t} (b, s, e) x" "\<And>prev err. p \<noteq> Unbuffering s e prev err"
    by (rule kept_step [OF assms(1) _ that(1)]) (use assms(3) that(2) in auto)
  have sealing: ?thesis if "p \<in> {TryLock k, ParkLock k, TryReserve k, ParkReserve k, Granted k, Cutting k}" for k
  proof -
    have "pc_purpose p = Some k" using that by auto
    with assms(2) that obtain prev where k: "k = ForAppend s e prev" "kept {t} (b, s, e) x"
      by (auto simp: append_phase_def)
    have kx: "kept {t} (b, s, e) ?x" using kept [OF k(2)] that by auto
    from seal_calls [OF that, of lb cx c t g w] consider
      (early) p' where "calls ?w t = Some p'" "p' \<in> {TryReserve k, ParkLock k, Granted k, ParkReserve k, Cutting k}"
      | (res) r where "calls ?w t = Some (sealed_result k r)" by auto
    then show ?thesis
    proof cases
      case early
      then have "append_phase t (b, s, e) ?x p'" using kx k(1) by (auto simp: append_phase_def)
      with early(1) w show ?thesis by auto
    next
      case res
      with append_result [OF kx, of prev r] w k(1) show ?thesis by auto
    qed
  qed
  show ?thesis
  proof (cases p)
    case (Start o')
    with assms(2) have "o' = Append b s e" by (simp add: append_phase_def)
    with Start have "calls ?w t \<in> {Some (Buffering b s e)} \<union> {Some (Finished (AppendDone (Inl err))) | err. True}"
      by (auto simp: start_op_def start_append_def split: sum.splits)
    with w show ?thesis by (auto simp: append_phase_def)
  next
    case (Finished r)
    then have "fst ?x = w" using w by simp
    with kept_step [OF assms(1), of ?l "{}" b s e] assms(2,3) Finished show ?thesis
      by (auto simp: append_phase_def x)
  next
    case (Unbuffering s' e' prev err)
    with assms(2) have se: "s' = s" "e' = e" and k: "kept {t} (b, s, e) x" by (auto simp: append_phase_def)
    obtain took st where u: "unbuffer lb s e prev (wr_state w) = (took, st)" by fastforce
    have "kept {} (b, s, e) ?x" if "\<not> took"
    proof -
      have "\<forall>y \<in> set (buffered (wr_state w)). snd y \<noteq> (s, e)"
        using u that by (auto simp: unbuffer_def rposition_None Let_def split: option.splits)
      then have "in_ledger (b, s, e) L" using k by (auto simp: x)
      then show ?thesis by (auto simp: x in_ledger_def)
    qed
    with w u Unbuffering se show ?thesis
      by (simp add: run_unbuffer_def append_phase_def Let_def)
  next
    case (Buffering b' s' e')
    with assms(2) have bse: "b' = b" "s' = s" "e' = e" by (simp_all add: append_phase_def)
    show ?thesis
    proof (cases "fst (push_batch lb (wx_cfg cx) (mono c) b s e (wr_state w))")
      case (Inl err)
      with w Buffering bse show ?thesis
        by (auto simp: run_buffer_def append_phase_def split: prod.splits)
    next
      case (Inr dp)
      obtain due prev st where pu: "push_batch lb (wx_cfg cx) (mono c) b s e (wr_state w) = (Inr (due, prev), st)"
        using Inr by (metis prod.exhaust_sel)
      let ?p = "if due then TryLock (ForAppend s e prev) else Finished (AppendDone (Inr ()))"
      have v: "?w = goto t ?p (w\<lparr>wr_state := st\<rparr>)" using Buffering bse pu by (simp add: run_buffer_def)
      have buf: "(b, s, e) \<in> set (buffered st)"
        using pu by (auto simp: push_batch_def Let_def split: option.splits if_splits)
      have "spool_event_of lb cx ?l w = Some (Accept s e)"
        using assms(3) Buffering bse pu by (simp add: x call_event_def)
      with writer.rel_event [OF ok, of ?l lb] have new: "s \<le> e" "\<forall>r \<in> set (sp_accepted a). snd r < s" by simp_all
      have alone: "t' = t" if "owns (calls ?w t') s e pv" for t' pv
      proof (rule ccontr)
        assume "t' \<noteq> t"
        with that have "owns (calls w t') s e pv" by (simp add: v)
        then have "(s, e) \<in> set (sp_accepted a)" using ok(1) unfolding sim_def sim_calls_def by blast
        with new show False by fastforce
      qed
      obtain a' L' where x': "?x = (?w, a', L')" using w by (metis fst_conv prod.collapse)
      have buf': "(b, s, e) \<in> set (buffered (wr_state ?w))" using buf by (simp add: v)
      have "kept {t} (b, s, e) ?x" unfolding x' kept.simps using buf' alone by blast
      moreover have "kept {} (b, s, e) ?x" if "\<not> due"
      proof -
        have "\<not> owns (calls ?w t) s e pv" for pv using that by (simp add: v owns_def)
        then show ?thesis unfolding x' kept.simps using buf' alone by blast
      qed
      moreover have "calls (fst ?x) t = Some ?p" by (simp add: w v)
      ultimately show ?thesis by (cases due) (auto simp: append_phase_def)
    qed
  qed (use sealing assms(2) in \<open>auto simp: append_phase_def\<close>)
qed

abbreviation shadow_during :: "'s libs \<Rightarrow> writer_ctx \<Rightarrow> nat \<Rightarrow> 's shadowed \<Rightarrow> 's shadowed \<Rightarrow> bool" where
  "shadow_during lb cx t \<equiv> reach (shadow_step lb cx) (on_writer (during cx t))"

lemma during_allowed: "during cx t l w \<Longrightarrow> writer_allowed cx l w"
  by (simp add: during_def)

lemma call_kept:
  assumes "during cx t l (fst x)" and "calls (fst x) t = Some p" and "\<And>c b. l \<noteq> (c, Run t b)"
  shows "calls (fst (shadow_step lb cx l x)) t = Some p"
proof -
  obtain w a L where x: "x = (w, a, L)" by (metis prod_cases3)
  from assms(1,3) have "calls (writer_step lb cx l w) t = calls w t"
    by (intro other_calls) (auto simp: during_def)
  with assms(2) show ?thesis by (simp add: x)
qed

lemma append_phases:
  assumes "shadow_during lb cx t x y" and "shadow_ok lb cx w0 x" and "put_task w0 = PRecv"
    and "calls (fst x) t = Some (Start (Append b s e))"
  shows "\<exists>p. calls (fst y) t = Some p \<and> append_phase t (b, s, e) y p"
  using assms
proof (induction rule: reach.induct)
  case reach_refl
  then show ?case by (simp add: append_phase_def)
next
  case (reach_step y l)
  then obtain p where p: "calls (fst y) t = Some p" "append_phase t (b, s, e) y p" by blast
  have ok: "shadow_ok lb cx w0 y"
    by (rule shadow_ok_reach [OF reach_step.hyps(1) during_allowed reach_step.prems(1,2)])
  show ?case
  proof (cases "\<exists>c g. l = (c, Run t g)")
    case True
    then obtain c g where l: "l = (c, Run t g)" by blast
    from append_phase_run [OF ok p(2,1), of c g] show ?thesis by (simp only: l)
  next
    case False
    then have l: "\<And>c g. l \<noteq> (c, Run t g)" by blast
    from append_phase_other [OF ok during_allowed [OF reach_step.hyps(2)] p(2,1) l]
      call_kept [OF reach_step.hyps(2) p(1) l] show ?thesis by blast
  qed
qed

lemma kept_later:
  assumes "reach (shadow_step lb cx) (on_writer G) x y" and "\<And>l w. G l w \<Longrightarrow> writer_allowed cx l w"
    and "shadow_ok lb cx w0 x" and "put_task w0 = PRecv" and "kept {} (b, s, e) x"
  shows "kept {} (b, s, e) y"
  using assms
proof (induction rule: reach.induct)
  case (reach_step y l)
  have "shadow_ok lb cx w0 y"
    by (rule shadow_ok_reach [OF reach_step.hyps(1) reach_step.prems(1,2,3)])
  with reach_step show ?case by (intro kept_step) auto
qed

section \<open>The phases of a flush, told by the ledger\<close>

definition cut_upto :: "entry \<Rightarrow> ledger \<Rightarrow> i64 \<Rightarrow> bool" where
  "cut_upto en L q \<longleftrightarrow> (\<exists>i < length L. en \<in> set (snd (L ! i)) \<and> serial_of (fm_file (fst (L ! i))) \<le> q)"

definition landed_in :: "entry \<Rightarrow> spool \<Rightarrow> ledger \<Rightarrow> bool" where
  "landed_in en a L \<longleftrightarrow> (\<exists>i < sp_done a. en \<in> set (snd (L ! i)))"

definition reached :: "entry \<Rightarrow> spool \<Rightarrow> ledger \<Rightarrow> i64 option \<Rightarrow> bool" where
  "reached en a L off \<longleftrightarrow> landed_in en a L \<and> (\<exists>x. off = Some x \<and> snd (snd en) \<le> x)"

fun flush_phase :: "purpose \<Rightarrow> entry \<Rightarrow> 's shadowed \<Rightarrow> pc \<Rightarrow> bool" where
  "flush_phase k en (w, a, L) p \<longleftrightarrow>
     phase k (in_ledger en L) (cut_upto en L) (landed_in en a L) (reached en a L) p"

lemma in_ledger_nth: "in_ledger en L \<longleftrightarrow> (\<exists>i < length L. en \<in> set (snd (L ! i)))"
proof -
  have "in_ledger en L \<longleftrightarrow> (\<exists>x \<in> set L. en \<in> set (snd x))" by (force simp: in_ledger_def)
  moreover have "(\<exists>x \<in> set L. P x) \<longleftrightarrow> (\<exists>i < length L. P (L ! i))" for P by (metis in_set_conv_nth)
  ultimately show ?thesis by simp
qed

lemma ledger_grows:
  assumes "shadow_ok lb cx w0 (w, a, L)" and "writer_allowed cx l w"
  defines "a' \<equiv> after spool_step (spool_event_of lb cx l w) a" and "L' \<equiv> L @ cuts cx l w"
  shows "in_ledger en L \<Longrightarrow> in_ledger en L'" and "cut_upto en L q \<Longrightarrow> cut_upto en L' q"
    and "landed_in en a L \<Longrightarrow> landed_in en a' L'" and "reached en a L off \<Longrightarrow> reached en a' L' off"
proof -
  have ok: "sim cx w a" "spool_inv a" "sp_done a \<le> length L"
    using assms(1) spool_inv_parts(5) [of a] by simp_all
  have "spool_grows a a'"
    unfolding a'_def by (rule spool.grows_reach [OF writer.rel_after(3) [OF ok(1,2) assms(2)] ok(2)])
  then have d: "sp_done a \<le> sp_done a'" by (simp add: spool_grows_def)
  show "in_ledger en L \<Longrightarrow> in_ledger en L'" by (auto simp: in_ledger_def L'_def)
  show "cut_upto en L q \<Longrightarrow> cut_upto en L' q"
    by (auto simp: cut_upto_def L'_def nth_append intro: less_le_trans)
  show l: "landed_in en a' L'" if "landed_in en a L"
  proof -
    from that obtain i where "i < sp_done a" "en \<in> set (snd (L ! i))" by (auto simp: landed_in_def)
    with d ok(3) show ?thesis unfolding landed_in_def L'_def by (intro exI [of _ i]) (simp add: nth_append)
  qed
  then show "reached en a L off \<Longrightarrow> reached en a' L' off" by (simp add: reached_def)
qed

lemma flush_phase_other:
  assumes "shadow_ok lb cx w0 x" and "writer_allowed cx l (fst x)" and "flush_phase k en x p"
  shows "flush_phase k en (shadow_step lb cx l x) p"
proof -
  obtain w a L where x: "x = (w, a, L)" by (metis prod_cases3)
  from assms(3) show ?thesis
    unfolding x shadow_step.simps flush_phase.simps
    by (rule phase_mono) (use ledger_grows [of lb cx w0 w a L l] assms(1,2) x in auto)
qed

text \<open>What the states of the machine say of the ledger.\<close>

lemma ledger_facts:
  assumes "shadow_ok lb cx w0 (w, a, L)"
  shows "in_ledger en L \<Longrightarrow> \<exists>q. last_sealed_seq (wr_state w) = Some q \<and> cut_upto en L q"
    and "cut_upto en L q \<Longrightarrow> durable_seq (wr_progress w) = Some n \<Longrightarrow> q \<le> n \<Longrightarrow> landed_in en a L"
    and "landed_in en a L \<Longrightarrow> reached en a L (staged_offset (wr_state w))"
proof -
  have ok: "sim cx w a" "spool_inv a" "sp_sealed a = map (\<lambda>(m, es). (fm_file m, map snd es)) L"
    using assms by simp_all
  have nth: "fst (sp_sealed a ! i) = fm_file (fst (L ! i))" "snd (sp_sealed a ! i) = map snd (snd (L ! i))"
    if "i < length L" for i
    using that by (simp_all add: ok(3) case_prod_unfold)
  have len: "length (sp_sealed a) = length L" by (simp add: ok(3))
  show "\<exists>q. last_sealed_seq (wr_state w) = Some q \<and> cut_upto en L q" if "in_ledger en L"
  proof -
    from that obtain i where i: "i < length L" "en \<in> set (snd (L ! i))" by (auto simp: in_ledger_nth)
    let ?j = "length L - 1"
    have j: "?j < length L" "i \<le> ?j" using i(1) by simp_all
    have "serial_of (fm_file (fst (L ! i))) \<le> serial_of (fm_file (fst (L ! ?j)))"
      using serial_less [OF ok(2), of i ?j] j i(1) nth(1) len by (cases "i = ?j") simp_all
    moreover have "last_sealed_seq (wr_state w) = Some (serial_of (fm_file (fst (L ! ?j))))"
      using sim_last_sealed [OF ok(1)] nth(1) [OF j(1)] len i(1) by auto
    ultimately show ?thesis using i by (auto simp: cut_upto_def)
  qed
  show "landed_in en a L" if "cut_upto en L q" "durable_seq (wr_progress w) = Some n" "q \<le> n"
  proof -
    from that(1) obtain i where i: "i < length L" "en \<in> set (snd (L ! i))" "serial_of (fm_file (fst (L ! i))) \<le> q"
      by (auto simp: cut_upto_def)
    with durable_counts [OF ok(1,2) that(2), of i] that(3) nth(1) len have "i < sp_done a" by simp
    with i(2) show ?thesis by (auto simp: landed_in_def)
  qed
  show "reached en a L (staged_offset (wr_state w))" if l: "landed_in en a L"
  proof -
    from l obtain i where i: "i < sp_done a" "en \<in> set (snd (L ! i))" by (auto simp: landed_in_def)
    then have "i < length L" using spool_inv_parts(5) [OF ok(2)] len by simp
    with i(2) nth(2) have "snd en \<in> set (snd (sp_sealed a ! i))" by simp
    from staged_covers [OF ok(2) i(1) this] sim_spooled [OF ok(1)] l show ?thesis
      by (simp add: reached_def spooled_def)
  qed
qed

lemma flush_phase_run:
  assumes "shadow_ok lb cx w0 x" and "put_task w0 = PRecv" and "kept {} (b, s, e) x"
    and "flush_phase k (b, s, e) x p" and "calls (fst x) t = Some p" and "k \<in> {ForFlush, ForClose}"
  shows "\<exists>p'. calls (fst (shadow_step lb cx (c, Run t g) x)) t = Some p'
    \<and> flush_phase k (b, s, e) (shadow_step lb cx (c, Run t g) x) p'"
proof -
  obtain w a L where x: "x = (w, a, L)" by (metis prod_cases3)
  let ?l = "(c, Run t g)" and ?w = "run_call lb cx c t g w" and ?en = "(b, s, e)"
  obtain a' L' where x': "shadow_step lb cx ?l x = (?w, a', L')" and al: "a' = after spool_step (spool_event_of lb cx ?l w) a"
    "L' = L @ cuts cx ?l w" by (simp add: x)
  have ok': "shadow_ok lb cx w0 (?w, a', L')"
    unfolding x' [symmetric] by (rule shadow_ok_step [OF assms(1,2)]) simp
  have "kept {} ?en (?w, a', L')"
    unfolding x' [symmetric] by (rule kept_step [OF assms(1) _ assms(3)]) simp_all
  then have led: "in_ledger ?en L'" if "buffered (wr_state ?w) = []" using that by simp
  note grows = ledger_grows [OF assms(1) [unfolded x], of ?l, folded al]
    and facts = ledger_facts [OF assms(1) [unfolded x]] and facts' = ledger_facts [OF ok']
  have "\<exists>p'. calls ?w t = Some p' \<and> phase k (in_ledger ?en L') (cut_upto ?en L') (landed_in ?en a' L') (reached ?en a' L') p'"
  proof (rule phase_run [OF _ _ assms(6)])
    show "calls w t = Some p" using assms(5) by (simp add: x)
    show "phase k (in_ledger ?en L) (cut_upto ?en L) (landed_in ?en a L) (reached ?en a L) p"
      using assms(4) by (simp add: x)
  next
    fix q assume "buffered (wr_state ?w) = []" and "last_sealed_seq (wr_state ?w) = Some q"
    with facts'(1) [OF led] show "cut_upto ?en L' q" by simp
  next
    fix q assume "in_ledger ?en L" and "last_sealed_seq (wr_state w) = Some q"
    with facts(1) grows(2) show "cut_upto ?en L' q" by fastforce
  next
    assume "in_ledger ?en L" and "last_sealed_seq (wr_state w) = None"
    with facts(1) show "landed_in ?en a' L'" by fastforce
  next
    fix q n assume "cut_upto ?en L q" and "durable_seq (wr_progress w) = Some n" and "q \<le> n"
    from facts(2) [OF this] grows(3) show "landed_in ?en a' L'" by simp
  qed (use grows facts(3) led in simp_all)
  then show ?thesis by (simp add: x')
qed

lemma flush_phases:
  assumes "shadow_during lb cx t x y" and "shadow_ok lb cx w0 x" and "put_task w0 = PRecv" and "kept {} (b, s, e) x"
    and "calls (fst x) t = Some p0" and "flush_phase k (b, s, e) x p0" and "k \<in> {ForFlush, ForClose}"
  shows "\<exists>p. calls (fst y) t = Some p \<and> flush_phase k (b, s, e) y p"
  using assms
proof (induction rule: reach.induct)
  case reach_refl
  then show ?case by blast
next
  case (reach_step y l)
  then obtain p where p: "calls (fst y) t = Some p" "flush_phase k (b, s, e) y p" by blast
  have ok: "shadow_ok lb cx w0 y"
    by (rule shadow_ok_reach [OF reach_step.hyps(1) during_allowed reach_step.prems(1,2)])
  have kp: "kept {} (b, s, e) y"
    by (rule kept_later [OF reach_step.hyps(1) during_allowed reach_step.prems(1-3)])
  show ?case
  proof (cases "\<exists>c g. l = (c, Run t g)")
    case True
    then obtain c g where l: "l = (c, Run t g)" by blast
    from flush_phase_run [OF ok reach_step.prems(2) kp p(2,1) reach_step.prems(6), of c g] show ?thesis by (simp only: l)
  next
    case False
    then have l: "\<And>c g. l \<noteq> (c, Run t g)" by blast
    from flush_phase_other [OF ok during_allowed [OF reach_step.hyps(2)] p(2)]
      call_kept [OF reach_step.hyps(2) p(1) l] show ?thesis by blast
  qed
qed

end
