(* ===== verification/Writer_Delivery.thy ===== *)
theory Writer_Delivery
  imports Writer_Ledger
begin

text \<open>
  Delivery, from the caller's side: what an \<open>append\<close> that returned Ok and a later \<open>flush\<close> or \<open>close\<close> that
  returned an offset together guarantee about the rows, and what every uploaded object is made of.
\<close>

section \<open>Every row is in the body\<close>

lemma format_files_split:
  assumes "format_files lb d bks = Inr (body, n)" and "(b, rows) \<in> set bks"
  shows "\<exists>pre text post. format_rows (debug_type lb) (float_text lb) d b rows = Inr text \<and> body = pre @ text @ post"
  using assms
proof (induction bks arbitrary: body n)
  case (Cons bk bks)
  obtain b' rows' where bk: "bk = (b', rows')" by fastforce
  from Cons.prems(1) obtain first more m where
    f: "format_rows (debug_type lb) (float_text lb) d b' rows' = Inr first" "format_files lb d bks = Inr (more, m)"
      "body = first @ more"
    by (auto simp: bk res_simps split: sum.splits)
  show ?case
  proof (cases "(b, rows) = bk")
    case True
    then show ?thesis using f by (intro exI [of _ "[]"] exI [of _ first] exI [of _ more]) (simp add: bk)
  next
    case False
    with Cons.prems(2) have "(b, rows) \<in> set bks" by simp
    from Cons.IH [OF f(2) this] obtain pre text' post where
      "format_rows (debug_type lb) (float_text lb) d b rows = Inr text'" "more = pre @ text' @ post" by blast
    then show ?thesis using f(3) by (intro exI [of _ "first @ pre"] exI [of _ text'] exI [of _ post]) simp
  qed
qed simp

text \<open>Outside upsert streams a file holds all rows of each of its batches, unbroken.\<close>

lemma rendered_whole:
  assumes "render_once lb cx None bs = Inr (body, n)" and "cfg_stream_mode (wx_cfg cx) \<noteq> Upsert" and "b \<in> set bs"
  shows "\<exists>pre text post. format_rows (debug_type lb) (float_text lb) (delimiter (csv (wx_cfg cx))) b [0..<num_rows b] = Inr text
    \<and> body = pre @ text @ post"
proof -
  let ?d = "delimiter (csv (wx_cfg cx))" and ?keep = "map (\<lambda>b. [0..<num_rows b]) bs"
  from assms(1,2) obtain more where
    m: "format_files lb ?d (zip bs ?keep) = Inr (more, n)"
      "body = header ?d (map field_name (arrow (wx_schema cx))) @ more"
    by (auto simp: render_once_def render_def res_simps split: sum.splits)
  have "(b, [0..<num_rows b]) \<in> set (zip bs ?keep)"
    using assms(3) by (auto simp: set_zip in_set_conv_nth)
  from format_files_split [OF m(1) this] obtain pre text' post where
    "format_rows (debug_type lb) (float_text lb) ?d b [0..<num_rows b] = Inr text'" "more = pre @ text' @ post" by blast
  then show ?thesis
    using m(2) by (intro exI [of _ "header ?d (map field_name (arrow (wx_schema cx))) @ pre"] exI [of _ text'] exI [of _ post]) simp
qed

section \<open>Delivered batches\<close>

text \<open>
  A batch is delivered by \<open>w\<close> when the store had answered the upload of a file whose offset range covers the
  range of the batch and whose payload is the rendering (gzipped where the file says so) of batches among which
  is this very batch; outside upsert streams all of its rows are in the body, unbroken.
\<close>

definition delivered ::
  "'s libs \<Rightarrow> writer_ctx \<Rightarrow> 's writer \<Rightarrow> 's writer \<Rightarrow> record_batch \<Rightarrow> i64 \<Rightarrow> i64 \<Rightarrow> bool" where
  "delivered lb cx w0 w b s e \<longleftrightarrow>
     (\<exists>u f h world bs body. writer_reach lb cx w0 u \<and> writer_reach lb cx u w \<and> uploads lb u f h world
        \<and> (\<forall>obj. store_laws (live_store (current h)) obj \<longrightarrow> obj world (fm_object_key (cp_meta f)) = Some (cp_payload f))
        \<and> start_offset (fm_file (cp_meta f)) \<le> s \<and> e \<le> end_offset (fm_file (cp_meta f))
        \<and> b \<in> set bs \<and> render_once lb cx None bs = Inr (body, cp_rows f) \<and> holds_body lb f body
        \<and> (cfg_stream_mode (wx_cfg cx) = InsertOnly \<longrightarrow> (\<exists>pre text post.
             format_rows (debug_type lb) (float_text lb) (delimiter (csv (wx_cfg cx))) b [0..<num_rows b] = Inr text
             \<and> body = pre @ text @ post)))"

lemma delivered_later: "delivered lb cx w0 w b s e \<Longrightarrow> writer_reach lb cx w w' \<Longrightarrow> delivered lb cx w0 w' b s e"
  unfolding delivered_def by (blast intro: reach_trans)

lemma ledger_file:
  assumes "shadow_ok lb cx w0 (w, a, L)" and "i < sp_done a"
  shows "i < length (sp_sealed a)" and "sp_sealed a ! i = (fm_file (fst (L ! i)), map snd (snd (L ! i)))"
proof -
  have "spool_inv a" and sealed: "sp_sealed a = map (\<lambda>(m, es). (fm_file m, map snd es)) L"
    using assms(1) by simp_all
  then show il: "i < length (sp_sealed a)" using assms(2) spool_inv_parts(5) by fastforce
  then show "sp_sealed a ! i = (fm_file (fst (L ! i)), map snd (snd (L ! i)))"
    by (simp add: sealed case_prod_unfold)
qed

lemma entry_delivered:
  assumes "shadow_ok lb cx w0 (w, a, L)" and "i < sp_done a" and "(b, s, e) \<in> set (snd (L ! i))"
  shows "delivered lb cx w0 w b s e"
proof -
  from assms(1,2) obtain u f h world where up: "writer_reach lb cx w0 u" "writer_reach lb cx u w" "uploads lb u f h world"
    "cp_meta f = fst (L ! i)" and st: "stored_from lb cx (map fst (snd (L ! i))) f"
    by (auto simp: entry_stored_def)
  from st obtain body where body: "render_once lb cx None (map fst (snd (L ! i))) = Inr (body, cp_rows f)"
    "holds_body lb f body" by (auto simp: stored_from_def)
  have mem: "b \<in> set (map fst (snd (L ! i)))" using assms(3) by force
  have spool: "spool_inv a" using assms(1) by simp
  note fl = ledger_file [OF assms(1,2)]
  then have "(s, e) \<in> set (snd (sp_sealed a ! i))" using assms(3) by force
  from range_in_file(1,3) [OF spool fl(1) this] fl(2) up(4)
  have "start_offset (fm_file (cp_meta f)) \<le> s" "e \<le> end_offset (fm_file (cp_meta f))" by simp_all
  moreover have "\<forall>obj. store_laws (live_store (current h)) obj \<longrightarrow>
      obj world (fm_object_key (cp_meta f)) = Some (cp_payload f)"
    using up(3) put_stored by (fastforce simp: uploads_def)
  moreover have "cfg_stream_mode (wx_cfg cx) = InsertOnly \<Longrightarrow> \<exists>pre text post.
         format_rows (debug_type lb) (float_text lb) (delimiter (csv (wx_cfg cx))) b [0..<num_rows b] = Inr text
         \<and> body = pre @ text @ post"
    using rendered_whole [OF body(1) _ mem] by simp
  ultimately show ?thesis unfolding delivered_def using up(1-3) mem body by blast
qed

text \<open>
  What \<open>append\<close> and a later \<open>flush\<close> or \<open>close\<close> leave in the ledger, in runs under any guard \<open>G\<close> that is at
  least as strict as the writer's own.
\<close>

lemma acknowledged_run:
  assumes "opened cx w0" and "reach (writer_step lb cx) G w0 w1" and "calls w1 t = Some (Start (Append b s e))"
    and "reach (writer_step lb cx) (\<lambda>l w. G l w \<and> during cx t l w) w1 w2"
    and "calls w2 t = Some (Finished (AppendDone (Inr ())))"
    and "reach (writer_step lb cx) G w2 w3" and "calls w3 t' = Some (Start o')"
    and "reach (writer_step lb cx) (\<lambda>l w. G l w \<and> during cx t' l w) w3 w4" and "calls w4 t' = Some (Finished r)"
    and "(o', r) \<in> {(Flush, FlushDone (Inr off)), (Close, CloseDone (Inr off))}"
    and any: "\<And>l w. G l w \<Longrightarrow> writer_allowed cx l w"
  shows "\<exists>a L i x. reach (shadow_step lb cx) (on_writer G) (w0, spool_of w0, []) (w4, a, L)
    \<and> shadow_ok lb cx w0 (w4, a, L) \<and> i < sp_done a \<and> (b, s, e) \<in> set (snd (L ! i)) \<and> off = Some x \<and> e \<le> x"
proof -
  let ?go = "reach (shadow_step lb cx) (on_writer G)" and ?en = "(b, s, e)"
  note start = shadow_start(1) [OF assms(1), of lb] shadow_start(2) [OF assms(1)]
  have split: "?go x y \<and> shadow_during lb cx u x y"
    if "reach (shadow_step lb cx) (on_writer (\<lambda>l w. G l w \<and> during cx u l w)) x y" for u x y
    using that by (auto elim: reach_mono)
  from shadow_lift [OF assms(2)] obtain a1 L1 where r1: "?go (w0, spool_of w0, []) (w1, a1, L1)" by blast
  have k1: "shadow_ok lb cx w0 (w1, a1, L1)" by (rule shadow_ok_reach [OF r1 any start])
  from shadow_lift [OF assms(4)] split obtain a2 L2 where
    r2: "shadow_during lb cx t (w1, a1, L1) (w2, a2, L2)" "?go (w1, a1, L1) (w2, a2, L2)" by meson
  have k2: "shadow_ok lb cx w0 (w2, a2, L2)" by (rule shadow_ok_reach [OF r2(2) any k1 start(2)])
  from append_phases [OF r2(1) k1 start(2)] assms(3,5) have kp2: "kept {} ?en (w2, a2, L2)"
    by (auto simp: append_phase_def)
  from shadow_lift [OF assms(6)] obtain a3 L3 where r3: "?go (w2, a2, L2) (w3, a3, L3)" by blast
  have k3: "shadow_ok lb cx w0 (w3, a3, L3)" by (rule shadow_ok_reach [OF r3 any k2 start(2)])
  have kp3: "kept {} ?en (w3, a3, L3)" by (rule kept_later [OF r3 any k2 start(2) kp2])
  from shadow_lift [OF assms(8)] split obtain a4 L4 where
    r4: "shadow_during lb cx t' (w3, a3, L3) (w4, a4, L4)" "?go (w3, a3, L3) (w4, a4, L4)" by meson
  have k4: "shadow_ok lb cx w0 (w4, a4, L4)" by (rule shadow_ok_reach [OF r4(2) any k3 start(2)])
  let ?k = "if o' = Flush then ForFlush else ForClose"
  have "flush_phase ?k ?en (w3, a3, L3) (Start o')" using assms(10) by (auto simp: phase_def)
  from flush_phases [OF r4(1) k3 start(2) kp3 _ this] assms(7,9,10) have "reached ?en a4 L4 off"
    by (auto simp: phase_def)
  then obtain x i where "off = Some x" "e \<le> x" "i < sp_done a4" "?en \<in> set (snd (L4 ! i))"
    by (auto simp: reached_def landed_in_def)
  moreover have "?go (w0, spool_of w0, []) (w4, a4, L4)" by (intro reach_trans [OF r4(2)] reach_trans [OF r3] reach_trans [OF r2(2)] r1)
  ultimately show ?thesis using k4 by blast
qed

lemma acknowledged_entry:
  assumes "opened cx w0" and "writer_reach lb cx w0 w1" and "calls w1 t = Some (Start (Append b s e))"
    and "reach (writer_step lb cx) (during cx t) w1 w2" and "calls w2 t = Some (Finished (AppendDone (Inr ())))"
    and "writer_reach lb cx w2 w3" and "calls w3 t' = Some (Start o')"
    and "reach (writer_step lb cx) (during cx t') w3 w4" and "calls w4 t' = Some (Finished r)"
    and "(o', r) \<in> {(Flush, FlushDone (Inr off)), (Close, CloseDone (Inr off))}"
  shows "\<exists>a L i x. shadow_ok lb cx w0 (w4, a, L) \<and> i < sp_done a \<and> (b, s, e) \<in> set (snd (L ! i))
    \<and> off = Some x \<and> e \<le> x"
proof -
  have "reach (writer_step lb cx) (\<lambda>l w. writer_allowed cx l w \<and> during cx t l w) w1 w2"
    "reach (writer_step lb cx) (\<lambda>l w. writer_allowed cx l w \<and> during cx t' l w) w3 w4"
    using assms(4,8) by (auto elim!: reach_mono simp: during_allowed)
  from acknowledged_run [OF assms(1-3) this(1) assms(5-7) this(2) assms(9,10)] show ?thesis by blast
qed

section \<open>Properties\<close>

text \<open>
  C1. Acknowledged rows are stored. A batch whose \<open>append\<close> returned Ok, however the call got there and
  whatever ran beside it, is covered by every later \<open>flush\<close> or \<open>close\<close> that returns an offset: the offset
  is at least the end of the batch, and by then the batch is delivered: the store had answered the upload of a
  file that covers its offsets and whose payload is the rendering of batches among which is this very one.
\<close>
theorem acknowledged_rows_stored:
  assumes "opened cx w0" and "writer_reach lb cx w0 w1" and "calls w1 t = Some (Start (Append b s e))"
    and "reach (writer_step lb cx) (during cx t) w1 w2" and "calls w2 t = Some (Finished (AppendDone (Inr ())))"
    and "writer_reach lb cx w2 w3" and "calls w3 t' = Some (Start o')"
    and "reach (writer_step lb cx) (during cx t') w3 w4" and "calls w4 t' = Some (Finished r)"
    and "(o', r) \<in> {(Flush, FlushDone (Inr off)), (Close, CloseDone (Inr off))}"
  shows "\<exists>x. off = Some x \<and> e \<le> x \<and> delivered lb cx w0 w4 b s e"
  using acknowledged_entry [OF assms] entry_delivered by blast

lemma demo_ask_later: "writer_reach demo_libs demo_cx demo_cut demo_asked"
  unfolding demo_asked_def by (rule demo_go [OF reach_refl demo_calls(2)])

theorem acknowledged_rows_stored_witness:
  "\<exists>u f h world bs body pre post. writer_reach demo_libs demo_cx demo_writer u
    \<and> writer_reach demo_libs demo_cx u demo_flushed \<and> uploads demo_libs u f h world
    \<and> demo_row \<in> set bs \<and> render_once demo_libs demo_cx None bs = Inr (body, cp_rows f)
    \<and> body = pre @ [CHR 0x22, CHR ''1'', CHR 0x22, CHR 0x0A] @ post"
proof -
  have "(Flush, FlushDone (Inr (Some 9))) \<in> {(Flush, FlushDone (Inr (Some 9))), (Close, CloseDone (Inr (Some 9)))}"
    by simp
  from acknowledged_rows_stored [OF demo_opened demo_reach_called demo_calls(3) demo_runs(1) [OF demo_lets_during]
      demo_calls(4) demo_ask_later demo_calls(5) demo_runs(6) [OF demo_lets_during] demo_calls(6) this] have "delivered demo_libs demo_cx demo_writer demo_flushed demo_row 0 9" by blast
  then obtain u f h world bs body where
    r: "writer_reach demo_libs demo_cx demo_writer u" "writer_reach demo_libs demo_cx u demo_flushed"
      "uploads demo_libs u f h world" "demo_row \<in> set bs" "render_once demo_libs demo_cx None bs = Inr (body, cp_rows f)"
    and m: "cfg_stream_mode (wx_cfg demo_cx) = InsertOnly \<longrightarrow> (\<exists>pre text post.
         format_rows (debug_type demo_libs) (float_text demo_libs) (delimiter (csv (wx_cfg demo_cx))) demo_row
           [0..<num_rows demo_row] = Inr text \<and> body = pre @ text @ post)" unfolding delivered_def by blast
  have "cfg_stream_mode (wx_cfg demo_cx) = InsertOnly" by (simp add: demo_cx_def demo_cfg_def)
  with m obtain pre t post where t: "format_rows (debug_type demo_libs) (float_text demo_libs)
      (delimiter (csv (wx_cfg demo_cx))) demo_row [0..<num_rows demo_row] = Inr t" "body = pre @ t @ post" by blast
  have "show_int 1 = ''1''" by code_simp
  then have "t = [CHR 0x22, CHR ''1'', CHR 0x22, CHR 0x0A]"
    using t(1) by (simp add: format_rows_def demo_row_def csv_line_def cell_def write_quoted_def)
  with r t(2) show ?thesis by blast
qed

text \<open>
  C7. What is uploaded is what was sealed. The payload of every file that the upload stage holds is the
  rendering, gzipped where the file says so, of exactly the batches that were in the buffer when the file was
  cut, in their order: between \<open>seal\<close> and the upload no stage drops, repeats, mixes or alters a batch, and
  the name under which the file is uploaded is the one \<open>seal\<close> gave it.
\<close>
theorem upload_is_sealed_content:
  assumes "opened cx w0" and "writer_reach lb cx w0 w" and "put_task w = PWork f n"
  shows "\<exists>u c ao sl st. writer_reach lb cx w0 u \<and> writer_reach lb cx u w
    \<and> seal cx c ao (wr_state u) = (Inr (Some sl), st) \<and> sl_meta sl = cp_meta f
    \<and> stored_from lb cx (map fst (buffered (wr_state u))) f"
proof -
  from shadow_lift [OF assms(2)] obtain a L where
    r: "reach (shadow_step lb cx) (on_writer (writer_allowed cx)) (w0, spool_of w0, []) (w, a, L)" by blast
  have ok: "shadow_ok lb cx w0 (w, a, L)"
    by (rule shadow_ok_reach [OF r _ shadow_start(1) [OF assms(1)] shadow_start(2) [OF assms(1)]])
  then obtain es where es: "(cp_meta f, es) \<in> set L" "stored_from lb cx (map fst es) f"
    using assms(3) by (auto simp: content_def stored_at_def)
  from ok es(1) have "entry_cut lb cx w0 w (cp_meta f, es)" by simp
  then obtain u c ao sl st where "writer_reach lb cx w0 u" "writer_reach lb cx u w"
    "seal cx c ao (wr_state u) = (Inr (Some sl), st)" "sl_meta sl = cp_meta f" "es = buffered (wr_state u)"
    by (auto simp: entry_cut_def)
  with es(2) show ?thesis by blast
qed

theorem upload_is_sealed_content_witness:
  "\<exists>u sl c ao st. writer_reach demo_libs demo_cx u demo_putting
    \<and> seal demo_cx c ao (wr_state u) = (Inr (Some sl), st) \<and> sl_meta sl = demo_meta
    \<and> stored_from demo_libs demo_cx (map fst (buffered (wr_state u))) demo_payload"
proof -
  have "put_task demo_putting = PWork demo_payload 0" "cp_meta demo_payload = demo_meta"
    by (simp_all add: demo_putting_def demo_payload_def)
  with upload_is_sealed_content [OF demo_opened demo_reaches(1) this(1)] show ?thesis by metis
qed

section \<open>A stored file read back\<close>

lemma scan_rows_places:
  "scan_rows dbg pks bi b rows m = Inr m' \<Longrightarrow> set (map snd m') \<subseteq> set (map snd m) \<union> {bi} \<times> set rows"
proof (induction rows arbitrary: m)
  case (Cons r rows)
  from Cons.prems obtain k where "scan_rows dbg pks bi b rows (insert_latest k (bi, r) m) = Inr m'"
    by (auto simp: res_simps split: sum.splits)
  from Cons.IH [OF this] show ?case by (auto simp: insert_latest_def)
qed simp

lemma scan_batches_places:
  "scan_batches dbg pks bi bs m = Inr m' \<Longrightarrow>
     set (map snd m') \<subseteq> set (map snd m) \<union> {(i, r). bi \<le> i \<and> i < bi + length bs \<and> r < num_rows (bs ! (i - bi))}"
proof (induction bs arbitrary: bi m)
  case (Cons b bs)
  from Cons.prems obtain m1 where m: "scan_rows dbg pks bi b [0..<num_rows b] m = Inr m1"
    "scan_batches dbg pks (Suc bi) bs m1 = Inr m'"
    by (auto simp: res_simps split: sum.splits)
  show ?case
  proof
    fix p assume "p \<in> set (map snd m')"
    with Cons.IH [OF m(2)] consider "p \<in> set (map snd m1)"
      | (later) i r where "p = (i, r)" "Suc bi \<le> i" "i < Suc bi + length bs" "r < num_rows (bs ! (i - Suc bi))" by blast
    then show "p \<in> set (map snd m) \<union> {(i, r). bi \<le> i \<and> i < bi + length (b # bs) \<and> r < num_rows ((b # bs) ! (i - bi))}"
    proof cases
      case 1
      with scan_rows_places [OF m(1)] have "p \<in> set (map snd m) \<or> p \<in> {bi} \<times> {0..<num_rows b}" by auto
      then show ?thesis by (cases p) auto
    next
      case later
      then have "(b # bs) ! (i - bi) = bs ! (i - Suc bi)" by (simp add: nth_Cons')
      with later show ?thesis by simp
    qed
  qed
qed simp

lemma keep_bounds:
  assumes "dedup_last_wins dbg bs pks = Inr keep"
  shows "length keep = length bs" and "i < length bs \<Longrightarrow> r \<in> set (keep ! i) \<Longrightarrow> r < num_rows (bs ! i)"
proof -
  from assms obtain m where m: "scan_batches dbg pks 0 bs [] = Inr m" "keep = keep_rows (length bs) (sort (map snd m))"
    by (auto simp: dedup_last_wins_def res_simps split: sum.splits)
  then show "length keep = length bs" by (simp add: keep_rows_def)
  show "r < num_rows (bs ! i)" if "i < length bs" "r \<in> set (keep ! i)"
  proof -
    from that m(2) have "(i, r) \<in> set (map snd m)" by (force simp: keep_rows_def)
    with scan_batches_places [OF m(1)] show ?thesis by auto
  qed
qed

text \<open>A batch as Arrow builds it, of columns the writer can render.\<close>

definition readable :: "record_batch \<Rightarrow> bool" where
  "readable b \<longleftrightarrow> batch_ok b \<and> columns b \<noteq> []
     \<and> (\<forall>a \<in> set (columns b). is_supported_type (array_type a) \<and> array_utf8 a)"

definition row_texts :: "float_format \<Rightarrow> record_batch \<Rightarrow> nat \<Rightarrow> string option list" where
  "row_texts ff b r = map (\<lambda>a. array_text ff a r) (columns b)"

lemma format_files_lines:
  assumes "\<forall>(b, rows) \<in> set ps. readable b \<and> (\<forall>r \<in> set rows. r < num_rows b)" and "float_plain (float_text lb)"
  shows "format_files lb d ps =
    (let recs = concat (map (\<lambda>(b, rows). map (row_texts (float_text lb) b) rows) ps)
     in Inr (concat (map (\<lambda>vs. csv_line d (map field_text vs)) recs), length recs))"
  using assms(1)
proof (induction ps)
  case (Cons p ps)
  obtain b rows where p: "p = (b, rows)" by fastforce
  with Cons.prems have b: "batch_ok b" "\<forall>a \<in> set (columns b). is_supported_type (array_type a)"
    "\<forall>a \<in> set (columns b). array_utf8 a" "\<forall>r \<in> set rows. r < num_rows b" by (auto simp: readable_def)
  from format_rows_lines [OF b assms(2), of "debug_type lb" d] Cons show ?case
    by (simp add: p res_simps Let_def row_texts_def [abs_def])
qed (simp add: Let_def)

text \<open>
  C18. A stored file reads back to the rows of its batches. When a file renders, a reader of the dialect gets
  from the body the column names and then exactly the kept rows, batch by batch in order, cell by cell; the
  row count that goes with the file is the number of these rows. Outside upsert streams every row of every
  batch is kept; in an upsert stream the kept rows are those of the dedup pass over the primary key.
\<close>
theorem stored_file_reads_back:
  assumes "render_once lb cx None bs = Inr (body, n)" and "\<forall>b \<in> set bs. readable b" and "float_plain (float_text lb)"
    and "arrow (wx_schema cx) \<noteq> []" and "\<forall>f \<in> set (arrow (wx_schema cx)). utf8 (field_name f)"
    and "delimiter (csv (wx_cfg cx)) = d" and "chars d = [d]" and "utf8 d" and "\<not> bad_delimiter d"
  shows "\<exists>keep. (if cfg_stream_mode (wx_cfg cx) = Upsert
         then \<exists>is. pk_indices (wx_schema cx) = Inr is \<and> dedup_last_wins (debug_type lb) bs is = Inr keep
         else keep = map (\<lambda>b. [0..<num_rows b]) bs)
    \<and> (let recs = concat (map (\<lambda>(b, rows). map (row_texts (float_text lb) b) rows) (zip bs keep))
       in read_file d body = Some (map (\<lambda>f. Some (strip_nul (field_name f))) (arrow (wx_schema cx)) # recs)
          \<and> n = length recs)"
proof -
  let ?names = "map field_name (arrow (wx_schema cx))"
  let ?head = "map (\<lambda>f. Some (strip_nul (field_name f))) (arrow (wx_schema cx))"
  from assms(1,6) obtain keep more where k: "if cfg_stream_mode (wx_cfg cx) = Upsert
         then \<exists>is. pk_indices (wx_schema cx) = Inr is \<and> dedup_last_wins (debug_type lb) bs is = Inr keep
         else keep = map (\<lambda>b. [0..<num_rows b]) bs"
    and m: "format_files lb d (zip bs keep) = Inr (more, n)" "body = header d ?names @ more"
    by (auto simp: render_once_def render_def res_simps split: sum.splits if_splits)
  have rows: "\<forall>(b, rows) \<in> set (zip bs keep). readable b \<and> (\<forall>r \<in> set rows. r < num_rows b)"
  proof (intro ballI, clarify, intro conjI ballI)
    fix b rows assume "(b, rows) \<in> set (zip bs keep)"
    then obtain i where i: "i < length bs" "i < length keep" "b = bs ! i" "rows = keep ! i" by (auto simp: set_zip)
    then show "readable b" using assms(2) by simp
    fix r assume "r \<in> set rows"
    with i k keep_bounds(2) [of "debug_type lb" bs _ keep i r] show "r < num_rows b"
      by (auto split: if_splits)
  qed
  define recs where "recs = concat (map (\<lambda>(b, rows). map (row_texts (float_text lb) b) rows) (zip bs keep))"
  have f: "more = concat (map (\<lambda>vs. csv_line d (map field_text vs)) recs)" "n = length recs"
    using m(1) format_files_lines [OF rows assms(3), of d] by (simp_all add: recs_def Let_def)
  have "header d ?names = csv_line d (map field_text (map (\<lambda>n. Some (strip_nul n)) ?names))"
    using assms(5) by (intro header_line) simp
  then have h: "header d ?names = csv_line d (map field_text ?head)" by (simp add: comp_def)
  have "\<forall>vs \<in> set (?head # recs). vs \<noteq> []"
    using assms(2,4) by (auto simp: recs_def row_texts_def readable_def dest!: set_zip_leftD)
  from read_file_lines [OF delim_ok_char [OF assms(7-9)] this]
  have "read_file d body = Some (?head # recs)" by (simp add: m(2) h f(1))
  with k f(2) show ?thesis unfolding Let_def recs_def by blast
qed

definition text_batch :: record_batch where
  "text_batch = \<lparr>batch_schema = [\<lparr>field_name = ''id'', field_type = Int64, nullable = False\<rparr>,
       \<lparr>field_name = ''v'', field_type = Utf8, nullable = True\<rparr>],
     columns = [Int64Array [Some 1, Some (- 7), Some 1],
       StringArray [Some [CHR ''a'', CHR 0x22, CHR 0x00, CHR 0x0A], None, Some []]],
     num_rows = 3\<rparr>"

definition text_cx :: writer_ctx where
  "text_cx = demo_cx\<lparr>wx_schema := (wx_schema demo_cx)\<lparr>arrow := batch_schema text_batch\<rparr>\<rparr>"

lemma text_readable: "readable text_batch"
  by (simp add: readable_def batch_ok_def text_batch_def is_supported_type_def array_len_def utf8_def is_cont_def)

lemma text_renders: "\<exists>body. render_once demo_libs text_cx None [text_batch] = Inr (body, 3)"
proof -
  have "\<forall>(b, rows) \<in> set [(text_batch, [0, 1, 2])]. readable b \<and> (\<forall>r \<in> set rows. r < num_rows b)"
    using text_readable by (simp add: text_batch_def)
  moreover have "float_plain (float_text demo_libs)" by (simp add: demo_libs_def float_plain_def)
  ultimately have "\<exists>t. format_files demo_libs '','' [(text_batch, [0, 1, 2])] = Inr (t, 3)"
    by (simp only: format_files_lines Let_def) simp
  moreover have "[0..<num_rows text_batch] = [0, 1, 2]" by (simp add: text_batch_def upt_rec)
  ultimately show ?thesis
    by (auto simp: render_once_def render_def text_cx_def demo_cx_def demo_cfg_def config_new_def with_staging_def res_simps)
qed

theorem stored_file_reads_back_witness:
  "\<exists>body. render_once demo_libs text_cx None [text_batch] = Inr (body, 3) \<and>
     read_file '','' body = Some [[Some ''id'', Some ''v''], [Some ''1'', Some [CHR ''a'', CHR 0x22, CHR 0x0A]],
       [Some ''-7'', None], [Some ''1'', Some []]]"
proof -
  have d: "chars '','' = ['','']" "utf8 '',''" "\<not> bad_delimiter '',''" "utf8 ''id''" "utf8 ''v''"
    by (simp_all add: bad_delimiter_def utf8_def is_cont_def)
  have s: "show_int 1 = ''1''" "show_int (- 7) = ''-7''" by code_simp+
  have cx: "arrow (wx_schema text_cx) = batch_schema text_batch" "cfg_stream_mode (wx_cfg text_cx) = InsertOnly"
      "delimiter (csv (wx_cfg text_cx)) = '',''"
    by (simp_all add: text_cx_def demo_cx_def demo_cfg_def config_new_def with_staging_def)
  have f: "float_plain (float_text demo_libs)" by (simp add: demo_libs_def float_plain_def)
  have r: "\<forall>b \<in> set [text_batch]. readable b" using text_readable by simp
  from text_renders obtain body where b: "render_once demo_libs text_cx None [text_batch] = Inr (body, 3)" by blast
  have "\<exists>keep. (if cfg_stream_mode (wx_cfg text_cx) = Upsert
         then \<exists>is. pk_indices (wx_schema text_cx) = Inr is \<and> dedup_last_wins (debug_type demo_libs) [text_batch] is = Inr keep
         else keep = map (\<lambda>b. [0..<num_rows b]) [text_batch])
    \<and> (let recs = concat (map (\<lambda>(b, rows). map (row_texts (float_text demo_libs) b) rows) (zip [text_batch] keep))
       in read_file '','' body = Some (map (\<lambda>f. Some (strip_nul (field_name f))) (arrow (wx_schema text_cx)) # recs)
          \<and> 3 = length recs)"
    by (rule stored_file_reads_back [OF b r f _ _ cx(3) d(1-3)]) (simp_all add: cx(1) text_batch_def d)
  then have "read_file '','' body = Some (map (\<lambda>f. Some (strip_nul (field_name f))) (batch_schema text_batch)
      # map (row_texts (float_text demo_libs) text_batch) [0, 1, 2])"
    by (simp add: cx text_batch_def upt_rec numeral_2_eq_2)
  with b show ?thesis
    by (simp add: text_batch_def row_texts_def array_text_def value_at_def s strip_nul_def)
qed

end
