(* ===== verification/Partition_Consumer.thy ===== *)
theory Partition_Consumer
  imports Writer_Delivery
begin

text \<open>
  The consume loops of the examples. That of \<open>examples/kafka_partition_writer.rs\<close> is the shape the crate asks
  of its callers: poll a batch, \<open>append\<close>, \<open>flush\<close>, commit no more than \<open>staged_offset\<close>. The loop is a client
  of the writer machine, whose other tasks run between and during its calls. \<open>RecordBatch::try_new\<close> is the parameter \<open>mk\<close>; its
  \<open>expect\<close> ends the loop, as a call that answers an error does by \<open>?\<close>.
\<close>

record fake_partition =
  next_offset :: i64

definition poll ::
  "(arrow_schema \<Rightarrow> array list \<Rightarrow> record_batch option) \<Rightarrow> arrow_schema \<Rightarrow> i64 \<Rightarrow> fake_partition
     \<Rightarrow> (record_batch \<times> i64 \<times> i64) option \<times> fake_partition" where
  "poll mk schema rows p =
     (let start = next_offset p; end = wrap_i64 (start + rows - 1);
          ids = Int64Array (map Some [start..end]);
          names = StringArray (map (\<lambda>off. Some (''msg-'' @ show_int off)) [start..end])
      in (map_option (\<lambda>b. (b, start, end)) (mk schema [ids, names]), p\<lparr>next_offset := wrap_i64 (end + 1)\<rparr>))"

text \<open>The commit gate of the loop: the \<open>expect\<close> and the \<open>assert!\<close> panic, otherwise the offset to commit.\<close>

definition gate :: "i64 option \<Rightarrow> i64 \<Rightarrow> string + i64" where
  "gate staged end =
     (case staged of
        None \<Rightarrow> Inl ''flushed at least once''
      | Some x \<Rightarrow> if x \<ge> end then Inr x else Inl ''flush returned before the batch was durable'')"

text \<open>A call from the state \<open>w\<close> on that answers \<open>r\<close>, seen at a later state \<open>w'\<close>; other tasks run meanwhile.\<close>

definition answers :: "'s libs \<Rightarrow> writer_ctx \<Rightarrow> op \<Rightarrow> outcome \<Rightarrow> 's writer \<Rightarrow> 's writer \<Rightarrow> bool" where
  "answers lb cx o' r w w' \<longleftrightarrow>
     (\<exists>t u v. writer_reach lb cx w u \<and> calls u t = Some (Start o')
        \<and> reach (writer_step lb cx) (during cx t) u v \<and> calls v t = Some (Finished r) \<and> writer_reach lb cx v w')"

inductive consumes ::
  "'s libs \<Rightarrow> writer_ctx \<Rightarrow> (arrow_schema \<Rightarrow> array list \<Rightarrow> record_batch option) \<Rightarrow> i64 \<Rightarrow> 's writer \<Rightarrow> fake_partition
     \<Rightarrow> (record_batch \<times> i64 \<times> i64) list \<Rightarrow> 's writer \<Rightarrow> fake_partition \<Rightarrow> string + i64 \<Rightarrow> bool"
  for lb cx mk rows w0 p0 where
  resume: "consumes lb cx mk rows w0 p0 [] w0 p0 (Inr (wrap_i64 (next_offset p0 - 1)))"
| round: "consumes lb cx mk rows w0 p0 bs w p (Inr c) \<Longrightarrow>
    poll mk (arrow (wx_schema cx)) rows p = (Some (b, s, e), p') \<Longrightarrow>
    answers lb cx (Append b s e) (AppendDone (Inr ())) w v \<Longrightarrow>
    answers lb cx Flush (FlushDone (Inr off)) v u \<Longrightarrow>
    consumes lb cx mk rows w0 p0 (bs @ [(b, s, e)]) u p' (gate (staged_offset (wr_state u)) e)"

section \<open>A round\<close>

lemma answers_reach: "answers lb cx o' r w w' \<Longrightarrow> writer_reach lb cx w w'"
  unfolding answers_def by (meson during_reach reach_trans)

lemma flushed_round:
  assumes "opened cx w0" and "writer_reach lb cx w0 w" and "answers lb cx (Append b s e) (AppendDone (Inr ())) w v"
    and "answers lb cx Flush (FlushDone (Inr off)) v u"
  shows "delivered lb cx w0 u b s e" and "0 \<le> s \<and> s \<le> e" and "\<exists>x. staged_offset (wr_state u) = Some x \<and> e \<le> x"
proof -
  from assms(3) obtain t w1 w2 where a: "writer_reach lb cx w w1" "calls w1 t = Some (Start (Append b s e))"
    "reach (writer_step lb cx) (during cx t) w1 w2" "calls w2 t = Some (Finished (AppendDone (Inr ())))"
    "writer_reach lb cx w2 v" unfolding answers_def by blast
  from assms(4) obtain t' w3 w4 where f: "writer_reach lb cx v w3" "calls w3 t' = Some (Start Flush)"
    "reach (writer_step lb cx) (during cx t') w3 w4" "calls w4 t' = Some (Finished (FlushDone (Inr off)))"
    "writer_reach lb cx w4 u" unfolding answers_def by blast
  have "(Flush, FlushDone (Inr off)) \<in> {(Flush, FlushDone (Inr off)), (Close, CloseDone (Inr off))}" by simp
  from acknowledged_entry [OF assms(1) reach_trans [OF a(1) assms(2)] a(2-4) reach_trans [OF f(1) a(5)] f(2-4) this]
  obtain a L i where k: "shadow_ok lb cx w0 (w4, a, L)" "i < sp_done a" "(b, s, e) \<in> set (snd (L ! i))" by blast
  show "delivered lb cx w0 u b s e" by (rule delivered_later [OF entry_delivered [OF k] f(5)])
  have sim: "sim cx w4 a" "spool_inv a" using k(1) by simp_all
  note fl = ledger_file [OF k(1,2)]
  then have r: "(s, e) \<in> set (snd (sp_sealed a ! i))" using k(3) by force
  show "0 \<le> s \<and> s \<le> e"
    using file_ascending [OF sim(2) fl(1)] r by (auto simp: ascending_def)
  from staged_covers [OF sim(2) k(2) r] obtain x where x: "sp_staged a = Some x" "e \<le> x" by auto
  from spool_later [OF sim f(5)] obtain d where "sim cx u d" "spool_grows a d" by blast
  with x sim_spooled [of cx u d] show "\<exists>x. staged_offset (wr_state u) = Some x \<and> e \<le> x"
    by (auto simp: spool_grows_def spooled_def)
qed

lemma staged_later:
  assumes "opened cx w0" and "writer_reach lb cx w0 w" and "writer_reach lb cx w u" and "staged_offset (wr_state w) = Some x"
  shows "\<exists>y. staged_offset (wr_state u) = Some y \<and> x \<le> y"
proof -
  from opened_reach [OF assms(1,2)] obtain a where a: "sim cx w a" "spool_inv a" by blast
  from spool_later [OF a assms(3)] obtain d where "sim cx u d" "spool_grows a d" by blast
  with assms(4) sim_spooled [OF a(1)] sim_spooled [of cx u d] show ?thesis by (auto simp: spool_grows_def spooled_def)
qed

section \<open>Property\<close>

lemma fed_snoc:
  "fed_from x (rs @ [(s, e)]) \<longleftrightarrow> fed_from x rs \<and> s = (if rs = [] then x else snd (last rs) + 1) \<and> s \<le> e"
  by (induction x rs rule: fed_from.induct) auto

lemma polled:
  assumes "poll mk schema rows p = (Some (b, s, e), p')"
  shows "s = next_offset p" and "in_i64 e" and "next_offset p' = wrap_i64 (e + 1)"
  using assms by (auto simp: poll_def Let_def)

definition loop_ok ::
  "'s libs \<Rightarrow> writer_ctx \<Rightarrow> 's writer \<Rightarrow> fake_partition \<Rightarrow> (record_batch \<times> i64 \<times> i64) list \<Rightarrow> 's writer
     \<Rightarrow> fake_partition \<Rightarrow> i64 \<Rightarrow> bool" where
  "loop_ok lb cx w0 p0 bs w p c \<longleftrightarrow>
     writer_reach lb cx w0 w
     \<and> (\<forall>(b, s, e) \<in> set bs. e \<le> c \<and> delivered lb cx w0 w b s e)
     \<and> (bs \<noteq> [] \<longrightarrow> staged_offset (wr_state w) = Some c)
     \<and> fed_from (next_offset p0) (map snd bs)
     \<and> (if bs = [] then p = p0
        else in_i64 (snd (snd (last bs))) \<and> next_offset p = wrap_i64 (snd (snd (last bs)) + 1))"

lemma loop_round:
  assumes "opened cx w0" and "loop_ok lb cx w0 p0 bs w p c"
    and "poll mk (arrow (wx_schema cx)) rows p = (Some (b, s, e), p')"
    and "answers lb cx (Append b s e) (AppendDone (Inr ())) w v" and "answers lb cx Flush (FlushDone (Inr off)) v u"
  shows "\<exists>d. gate (staged_offset (wr_state u)) e = Inr d \<and> loop_ok lb cx w0 p0 (bs @ [(b, s, e)]) u p' d"
proof -
  note ok = assms(2) [unfolded loop_ok_def]
  have w: "writer_reach lb cx w0 w" and wu: "writer_reach lb cx w u"
    using ok answers_reach [OF assms(4)] answers_reach [OF assms(5)] by (blast intro: reach_trans)+
  note r = flushed_round [OF assms(1) w assms(4,5)] and p = polled [OF assms(3)]
  from r(3) obtain d where d: "staged_offset (wr_state u) = Some d" "e \<le> d" by blast
  have old: "e' \<le> d \<and> delivered lb cx w0 u b' s' e'" if b: "(b', s', e') \<in> set bs" for b' s' e'
  proof -
    from b have "bs \<noteq> []" by auto
    with ok have c: "staged_offset (wr_state w) = Some c" by simp
    from ok b have bc: "e' \<le> c" "delivered lb cx w0 w b' s' e'" by auto
    from staged_later [OF assms(1) w wu c] d(1) bc delivered_later [OF bc(2) wu] show ?thesis by auto
  qed
  have next': "s = (if bs = [] then next_offset p0 else snd (snd (last bs)) + 1)"
  proof (cases "bs = []")
    case False
    with ok p(1) have n: "s = wrap_i64 (snd (snd (last bs)) + 1)" "in_i64 (snd (snd (last bs)))" by simp_all
    then have "snd (snd (last bs)) \<noteq> i64_max"
      using r(2) by (auto simp: wrap_i64_def i64_max_def)
    with n False show ?thesis by (simp add: in_i64_def i64_min_def i64_max_def)
  qed (use ok p(1) in simp)
  have "fed_from (next_offset p0) (map snd (bs @ [(b, s, e)]))"
    using ok next' r(2) by (simp add: fed_snoc last_map)
  then show ?thesis
    using d old r(1) p(2,3) reach_trans [OF wu w] by (auto simp: gate_def loop_ok_def)
qed

text \<open>
  C4. The documented consume loop commits only what is durable. In every run of the loop over an opened writer,
  whatever the tasks of the writer do beside it, neither its \<open>expect\<close> on the staged offset nor its assertion
  that \<open>flush\<close> made the batch durable can fail; the offset to commit covers every batch polled so far and
  every one of them is delivered; and the loop feeds the writer every offset from where it resumed, the
  condition under which a restart places each offset in exactly one file.
\<close>
theorem consumer_commits_durable:
  assumes "opened cx w0" and "consumes lb cx mk rows w0 p0 bs w p res"
  shows "\<exists>c. res = Inr c \<and> (\<forall>(b, s, e) \<in> set bs. e \<le> c \<and> delivered lb cx w0 w b s e)
    \<and> (bs \<noteq> [] \<longrightarrow> staged_offset (wr_state w) = Some c) \<and> fed_from (next_offset p0) (map snd bs)"
proof -
  from assms(2) have "\<exists>c. res = Inr c \<and> loop_ok lb cx w0 p0 bs w p c"
  proof induction
    case resume
    show ?case by (auto simp: loop_ok_def intro: reach_refl)
  next
    case (round bs w p c b s e p' v off u)
    then show ?case using loop_round [OF assms(1)] by blast
  qed
  then show ?thesis by (auto simp: loop_ok_def)
qed

lemma demo_flushed_staged: "staged_offset (wr_state demo_flushed) = Some 9"
proof -
  have "calls demo_landed 2 = Some (AwaitFile ForFlush 3145728)"
      "durable_seq (wr_progress demo_landed) = Some 3145728" "staged_offset (wr_state demo_landed) = Some 9"
    by (simp_all add: demo_landed_def demo_recorded_def demo_recording_def demo_waiting_def demo_cut_def
      demo_writer_def writer_new_def writer_state_new_def record_durable_def Let_def demo_meta_def demo_staged_def)
  then show ?thesis by (simp add: demo_flushed_def run_call_def run_await_def flushed_def)
qed

theorem consumer_commits_durable_witness:
  "consumes demo_libs demo_cx (\<lambda>_ _. Some demo_row) 10 demo_writer \<lparr>next_offset = 0\<rparr> [(demo_row, 0, 9)] demo_flushed
     \<lparr>next_offset = 10\<rparr> (Inr 9) \<and> delivered demo_libs demo_cx demo_writer demo_flushed demo_row 0 9"
proof -
  have p: "poll (\<lambda>_ _. Some demo_row) (arrow (wx_schema demo_cx)) 10 \<lparr>next_offset = 0\<rparr>
      = (Some (demo_row, 0, 9), \<lparr>next_offset = 10\<rparr>)"
    by (simp add: poll_def Let_def in_i64_def i64_min_def i64_max_def)
  have a: "answers demo_libs demo_cx (Append demo_row 0 9) (AppendDone (Inr ())) demo_writer demo_cut"
    unfolding answers_def
    by (intro exI [of _ 1] exI [of _ demo_called] exI [of _ demo_cut] conjI demo_reach_called demo_calls(3,4)
        demo_runs(1) [OF demo_lets_during] reach_refl)
  have f: "answers demo_libs demo_cx Flush (FlushDone (Inr (Some 9))) demo_cut demo_flushed"
    unfolding answers_def
    by (intro exI [of _ 2] exI [of _ demo_asked] exI [of _ demo_flushed] conjI demo_ask_later demo_calls(5,6)
        demo_runs(6) [OF demo_lets_during] reach_refl)
  have g: "gate (staged_offset (wr_state demo_flushed)) 9 = Inr 9" by (simp add: gate_def demo_flushed_staged)
  from consumes.round [OF consumes.resume p a f] g
  have c: "consumes demo_libs demo_cx (\<lambda>_ _. Some demo_row) 10 demo_writer \<lparr>next_offset = 0\<rparr> [(demo_row, 0, 9)]
      demo_flushed \<lparr>next_offset = 10\<rparr> (Inr 9)" by simp
  with consumer_commits_durable [OF demo_opened c] show ?thesis by auto
qed

section \<open>The other examples\<close>

text \<open>
  \<open>examples/single_table_multi_partition.rs\<close> and \<open>examples/multi_table_multi_partition.rs\<close> run one loop per
  partition, each with a client and a writer of its own: append a fixed number of batches, let the writer cut
  files as it will, and drain the tail by one \<open>flush\<close> at the end. \<open>span\<close>, \<open>m\<close> and \<open>label\<close> are what the
  two differ in (999, 10000, ''row-'' and 499, 5000, the topic).
\<close>

definition synthesize ::
  "(arrow_schema \<Rightarrow> array list \<Rightarrow> record_batch option) \<Rightarrow> arrow_schema \<Rightarrow> i64 \<Rightarrow> i64 \<Rightarrow> string \<Rightarrow> i64 \<Rightarrow> i64
     \<Rightarrow> (record_batch \<times> i64 \<times> i64) option" where
  "synthesize mk schema span m label pt start =
     (let end = wrap_i64 (start + span);
          ids = Int64Array (map (\<lambda>off. Some (wrap_i64 (wrap_i64 (pt * 1000000) + off smod m))) [start..end]);
          names = StringArray (map (\<lambda>off. Some (label @ show_int off)) [start..end])
      in map_option (\<lambda>b. (b, start, end)) (mk schema [ids, names]))"

inductive appends ::
  "'s libs \<Rightarrow> writer_ctx \<Rightarrow> (i64 \<Rightarrow> (record_batch \<times> i64 \<times> i64) option) \<Rightarrow> 's writer \<Rightarrow> i64
     \<Rightarrow> (record_batch \<times> i64 \<times> i64) list \<Rightarrow> 's writer \<Rightarrow> i64 \<Rightarrow> bool"
  for lb cx next_batch w0 start where
  seek: "appends lb cx next_batch w0 start [] w0 start"
| push: "appends lb cx next_batch w0 start bs w off \<Longrightarrow> next_batch off = Some (b, s, e) \<Longrightarrow>
    answers lb cx (Append b s e) (AppendDone (Inr ())) w v \<Longrightarrow>
    appends lb cx next_batch w0 start (bs @ [(b, s, e)]) v (wrap_i64 (e + 1))"

text \<open>\<open>plan.kafka_resume_offset.unwrap_or(0)\<close>.\<close>

definition seek_to :: "i64 option \<Rightarrow> i64" where
  "seek_to resume_at = (case resume_at of Some x \<Rightarrow> x | None \<Rightarrow> 0)"

definition run_partition ::
  "'s libs \<Rightarrow> writer_ctx \<Rightarrow> (arrow_schema \<Rightarrow> array list \<Rightarrow> record_batch option) \<Rightarrow> i64 \<Rightarrow> 's writer \<Rightarrow> i64 option
     \<Rightarrow> (record_batch \<times> i64 \<times> i64) list \<Rightarrow> 's writer \<Rightarrow> bool" where
  "run_partition lb cx mk pt w0 resume_at bs u \<longleftrightarrow>
     (\<exists>w off r. appends lb cx (synthesize mk (arrow (wx_schema cx)) 999 10000 ''row-'' pt) w0 (seek_to resume_at) bs w off
        \<and> length bs = 5 \<and> answers lb cx Flush (FlushDone (Inr r)) w u)"

definition run_stream ::
  "'s libs \<Rightarrow> writer_ctx \<Rightarrow> (arrow_schema \<Rightarrow> array list \<Rightarrow> record_batch option) \<Rightarrow> string \<Rightarrow> i64 \<Rightarrow> 's writer \<Rightarrow> i64 option
     \<Rightarrow> (record_batch \<times> i64 \<times> i64) list \<Rightarrow> 's writer \<Rightarrow> bool" where
  "run_stream lb cx mk topic pt w0 resume_at bs u \<longleftrightarrow>
     (\<exists>w off r. appends lb cx (synthesize mk (arrow (wx_schema cx)) 499 5000 (topic @ ''-'') pt) w0 (seek_to resume_at) bs w off
        \<and> length bs = 3 \<and> answers lb cx Flush (FlushDone (Inr r)) w u)"

lemma appends_chain:
  assumes "appends lb cx nb w0 start bs w off" and "\<forall>x b s e. nb x = Some (b, s, e) \<longrightarrow> s = x \<and> in_i64 e"
    and "\<forall>(b, s, e) \<in> set bs. 0 \<le> s \<and> s \<le> e"
  shows "fed_from start (map snd bs) \<and> off = (if bs = [] then start else wrap_i64 (snd (snd (last bs)) + 1))
    \<and> (bs = [] \<or> in_i64 (snd (snd (last bs))))"
  using assms
proof (induction rule: appends.induct)
  case (push bs w off b s e v)
  have old: "fed_from start (map snd bs)" "off = (if bs = [] then start else wrap_i64 (snd (snd (last bs)) + 1))"
    "bs = [] \<or> in_i64 (snd (snd (last bs)))"
    using push.IH push.prems by auto
  from push.prems push.hyps(2) have s: "s = off" "in_i64 e" "0 \<le> s" "s \<le> e" by auto
  have "s = (if bs = [] then start else snd (snd (last bs)) + 1)"
  proof (cases "bs = []")
    case False
    with old s have "snd (snd (last bs)) \<noteq> i64_max" by (auto simp: wrap_i64_def i64_max_def)
    with False old s show ?thesis by (simp add: in_i64_def i64_min_def i64_max_def)
  qed (use old s in simp)
  with old(1) s(2,4) show ?case by (simp add: fed_snoc last_map)
qed simp

text \<open>
  After the final \<open>flush\<close> every batch of the loop is delivered, the staged offset that the loop prints covers
  all of them, and the writer was fed every offset from where it resumed.
\<close>

lemma drained_appends:
  assumes "opened cx w0" and "appends lb cx nb w0 start bs w off" and "answers lb cx Flush (FlushDone (Inr r)) w u"
    and "\<forall>x b s e. nb x = Some (b, s, e) \<longrightarrow> s = x \<and> in_i64 e"
  shows "fed_from start (map snd bs)"
    and "(b, s, e) \<in> set bs \<Longrightarrow> delivered lb cx w0 u b s e \<and> (\<exists>x. staged_offset (wr_state u) = Some x \<and> e \<le> x)"
proof -
  from assms(2) have acc: "writer_reach lb cx w0 w \<and> (\<forall>(b, s, e) \<in> set bs. \<exists>w1. writer_reach lb cx w0 w1
      \<and> answers lb cx (Append b s e) (AppendDone (Inr ())) w1 w)"
  proof induction
    case (push bs w off b s e v)
    have later: "answers lb cx o' r w1 v" if "answers lb cx o' r w1 w" for o' r w1
      using that answers_reach [OF push.hyps(3)] unfolding answers_def by (meson reach_trans)
    with push show ?case using answers_reach [OF push.hyps(3)] by (fastforce intro: reach_trans)
  qed (simp add: reach_refl)
  have all: "delivered lb cx w0 u b s e \<and> (0 \<le> s \<and> s \<le> e) \<and> (\<exists>x. staged_offset (wr_state u) = Some x \<and> e \<le> x)"
    if b: "(b, s, e) \<in> set bs" for b s e
  proof -
    from acc b obtain w1 where "writer_reach lb cx w0 w1" "answers lb cx (Append b s e) (AppendDone (Inr ())) w1 w" by blast
    from flushed_round [OF assms(1) this assms(3)] show ?thesis by blast
  qed
  then show "(b, s, e) \<in> set bs \<Longrightarrow> delivered lb cx w0 u b s e \<and> (\<exists>x. staged_offset (wr_state u) = Some x \<and> e \<le> x)"
    by blast
  show "fed_from start (map snd bs)"
    using appends_chain [OF assms(2,4)] all by fast
qed

lemma examples_drain:
  assumes "opened cx w0" and "run_partition lb cx mk pt w0 resume_at bs u \<or> run_stream lb cx mk topic pt w0 resume_at bs u"
  shows "fed_from (seek_to resume_at) (map snd bs)"
    and "(b, s, e) \<in> set bs \<Longrightarrow> delivered lb cx w0 u b s e \<and> (\<exists>x. staged_offset (wr_state u) = Some x \<and> e \<le> x)"
proof -
  have nb: "\<forall>x b s e. synthesize mk schema span m label pt x = Some (b, s, e) \<longrightarrow> s = x \<and> in_i64 e" for schema span m label
    by (auto simp: synthesize_def Let_def)
  from assms(2) obtain schema span m label w off r where
    "appends lb cx (synthesize mk schema span m label pt) w0 (seek_to resume_at) bs w off" "answers lb cx Flush (FlushDone (Inr r)) w u"
    unfolding run_partition_def run_stream_def by blast
  from drained_appends [OF assms(1) this nb] show "fed_from (seek_to resume_at) (map snd bs)"
    and "(b, s, e) \<in> set bs \<Longrightarrow> delivered lb cx w0 u b s e \<and> (\<exists>x. staged_offset (wr_state u) = Some x \<and> e \<le> x)"
    by blast+
qed

end
