(* ===== verification/Gc_Safety.thy ===== *)
theory Gc_Safety
  imports Staging_Gc
begin

text \<open>
  What a pass of the garbage collector of \<open>Staging_Gc\<close> may delete from a lawful object store.
\<close>

section \<open>Lemmas\<close>

lemma gc_min_age: "unat ((ucast (d :: u32) :: u64) * 24 * 3600 * 1000) = unat d * 86400000"
proof -
  have "unat d < 4294967296" using unsigned_less [of d] by simp
  then have "unat d * 86400000 < 4294967296 * 86400000" by simp
  then have "unat d * 86400000 < 2 ^ 64" by (rule less_le_trans) simp
  then have "take_bit 64 (unat d * 86400000) = unat d * 86400000" by (rule take_bit_nat_eq_self)
  moreover have "(ucast d :: u64) * 86400000 = of_nat (unat d * 86400000)" by simp
  ultimately have "unat ((ucast d :: u64) * 86400000) = unat d * 86400000"
    by (simp only: unsigned_of_nat) simp
  moreover have "(ucast d :: u64) * 24 * 3600 * 1000 = ucast d * 86400000" by simp
  ultimately show ?thesis by (simp only:)
qed

lemma gc_deletable_member:
  assumes "f \<in> set (gc_deletable cfg watermark now staged)"
  shows "f \<in> set (butlast staged)
    \<and> (\<exists>sq. serial_seq f = Inr sq \<and> sq \<le> watermark)
    \<and> unat (gc_retain_days cfg) * 86400000 < unat now - unat (epoch_ms f)"
proof -
  from assms have "f \<in> set (take (length staged - 1) staged)"
    and p: "case serial_seq f of Inl _ \<Rightarrow> False
      | Inr sq \<Rightarrow> sq \<le> watermark \<and> (ucast (gc_retain_days cfg) :: u64) * 24 * 3600 * 1000 < sat_sub_u64 now (epoch_ms f)"
    unfolding gc_deletable_def Let_def by (auto dest: in_set_takeD)
  moreover from p obtain sq where "serial_seq f = Inr sq" "sq \<le> watermark"
    and age: "(ucast (gc_retain_days cfg) :: u64) * 24 * 3600 * 1000 < sat_sub_u64 now (epoch_ms f)"
    by (cases "serial_seq f") auto
  moreover from age have "unat (gc_retain_days cfg) * 86400000 < unat now - unat (epoch_ms f)"
    by (simp only: word_less_nat_alt gc_min_age unat_sat_sub_u64)
  ultimately show ?thesis by (simp add: butlast_conv_take)
qed

lemma gc_deletable_length: "length (gc_deletable cfg watermark now staged) \<le> length staged - gc_retain_min_files cfg"
  by (simp add: gc_deletable_def Let_def)

lemma gc_delete_effect:
  assumes "store_laws oper obj" and "gc_delete oper ident fs s = (n, s')"
  shows "n \<le> length fs \<and> (\<forall>k. obj s' k \<noteq> obj s k \<longrightarrow> obj s' k = None \<and> (\<exists>f \<in> set fs. k = object_key f ident))"
  using assms(2)
proof (induction fs arbitrary: s n s')
  case (Cons f fs)
  obtain r s1 where d: "op_delete oper (object_key f ident) s = (r, s1)" by fastforce
  have o: "obj s1 k \<noteq> obj s k \<Longrightarrow> k = object_key f ident \<and> obj s1 k = None" for k
    using store_delete [OF assms(1) d] by (auto split: if_splits)
  show ?case
  proof (cases r)
    case (Inl e)
    with Cons.prems d have "n = 0" "s' = s1" by (simp_all add: delete_staged_def lift_storage_def)
    with o show ?thesis by auto
  next
    case (Inr x)
    obtain m where m: "gc_delete oper ident fs s1 = (m, s')" "n = Suc m"
      using Cons.prems d Inr by (auto simp: delete_staged_def lift_storage_def split: prod.splits)
    show ?thesis
      using Cons.IH [OF m(1)] m(2) o by (auto; metis)
  qed
qed simp

text \<open>The master's answers leave the objects alone.\<close>

definition control_laws :: "'s control_api \<Rightarrow> ('s \<Rightarrow> string \<Rightarrow> string option) \<Rightarrow> bool" where
  "control_laws ctl obj \<longleftrightarrow>
     (\<forall>dsn s. obj (snd (connect_control ctl dsn s)) = obj s)
     \<and> (\<forall>g s. obj (snd (query_watermark ctl g s)) = obj s)"

lemma gc_pass_changes:
  assumes "store_laws oper obj" and "control_laws ctl obj"
    and "gc_pass ctl oper cfg ident now s = (n, s')" and "obj s' k \<noteq> obj s k"
  shows "obj s' k = None \<and> (\<exists>watermark files unknown s2 f sq.
     fst (query_watermark ctl (serial_group ident) (snd (connect_control ctl (control_dsn cfg) s))) = Inr (Some watermark)
     \<and> fst (list_staged oper ident s2) = Inr (files, unknown)
     \<and> f \<in> set (butlast (sort_key (\<lambda>f. (epoch_ms f, seq f)) files)) \<and> k = object_key f ident
     \<and> serial_seq f = Inr sq \<and> sq \<le> watermark
     \<and> unat (gc_retain_days cfg) * 86400000 < unat now - unat (epoch_ms f)
     \<and> n + gc_retain_min_files cfg \<le> length files)"
proof -
  obtain r1 s1 where c: "connect_control ctl (control_dsn cfg) s = (r1, s1)" by fastforce
  obtain r2 s2 where q: "query_watermark ctl (serial_group ident) s1 = (r2, s2)" by fastforce
  obtain r3 s3 where l: "list_staged oper ident s2 = (r3, s3)" by fastforce
  have o1: "obj s1 = obj s" "obj s2 = obj s"
    using assms(2) c q unfolding control_laws_def by (metis snd_conv)+
  have "obj s3 = obj (snd (op_list oper (staging_dir ident) s2))"
    using l by (auto simp: list_staged_def split: prod.splits sum.splits)
  then have o: "obj s3 = obj s" using o1 store_list [OF assms(1)] by simp
  have ne: "s' \<noteq> s1" "s' \<noteq> s2" "s' \<noteq> s3" using assms(4) o o1 by auto
  note p = assms(3) [unfolded gc_pass_def c prod.case]
  obtain u where a1: "r1 = Inr u" using p ne by (cases r1) auto
  note p = p [unfolded a1 sum.case q prod.case]
  obtain watermark where a2: "r2 = Inr (Some watermark)" using p ne by (cases r2; cases "projr r2") auto
  note p = p [unfolded a2 sum.case option.case l prod.case]
  obtain files unknown where a3: "r3 = Inr (files, unknown)" using p ne by (cases r3) auto
  note p = p [unfolded a3 sum.case prod.case Let_def length_sort]
  have a: "gc_retain_min_files cfg < length files"
      "gc_delete oper ident (gc_deletable cfg watermark now (sort_key (\<lambda>f. (epoch_ms f, seq f)) files)) s3 = (n, s')"
    using p ne by (auto split: if_splits)
  have "obj s' k \<noteq> obj s3 k" using assms(4) o by simp
  with gc_delete_effect [OF assms(1) a(2)] obtain f where
    f: "n \<le> length (gc_deletable cfg watermark now (sort_key (\<lambda>f. (epoch_ms f, seq f)) files))"
      "obj s' k = None" "k = object_key f ident"
      "f \<in> set (gc_deletable cfg watermark now (sort_key (\<lambda>f. (epoch_ms f, seq f)) files))" by blast
  have n: "n + gc_retain_min_files cfg \<le> length files"
    using f(1) a(1) gc_deletable_length [of cfg watermark now "sort_key (\<lambda>f. (epoch_ms f, seq f)) files"] by simp
  from gc_deletable_member [OF f(4)] obtain sq where m:
    "f \<in> set (butlast (sort_key (\<lambda>f. (epoch_ms f, seq f)) files))" "serial_seq f = Inr sq" "sq \<le> watermark"
    "unat (gc_retain_days cfg) * 86400000 < unat now - unat (epoch_ms f)" by blast
  have w: "fst (query_watermark ctl (serial_group ident) (snd (connect_control ctl (control_dsn cfg) s))) = Inr (Some watermark)"
      "fst (list_staged oper ident s2) = Inr (files, unknown)"
    using c q l a2 a3 by simp_all
  show ?thesis
    by (rule conjI [OF f(2)], rule exI [of _ watermark], rule exI [of _ files], rule exI [of _ unknown],
        rule exI [of _ s2], rule exI [of _ f], rule exI [of _ sq], intro conjI)
       (rule w m f(3) n)+
qed

section \<open>Property\<close>

text \<open>
  C22. What garbage collection may delete. A pass touches an object only to delete it, and only if it is a
  listed staged file whose serial sequence the server has consumed, whose epoch is more than
  \<open>gc_retain_days\<close> old and which is not the newest of the directory; and it leaves at least
  \<open>gc_retain_min_files\<close> of the listed files.
\<close>
theorem gc_pass_bounds:
  assumes "store_laws oper obj" and "control_laws ctl obj"
    and "gc_pass ctl oper cfg ident now s = (n, s')" and "obj s' k \<noteq> obj s k"
  shows "obj s' k = None \<and> (\<exists>watermark files unknown s1 s2 f sq.
     fst (query_watermark ctl (serial_group ident) s1) = Inr (Some watermark)
     \<and> fst (list_staged oper ident s2) = Inr (files, unknown)
     \<and> f \<in> set (butlast (sort_key (\<lambda>f. (epoch_ms f, seq f)) files)) \<and> k = object_key f ident
     \<and> serial_seq f = Inr sq \<and> sq \<le> watermark
     \<and> unat (gc_retain_days cfg) * 86400000 < unat now - unat (epoch_ms f)
     \<and> n + gc_retain_min_files cfg \<le> length files)"
  using gc_pass_changes [OF assms] by blast

text \<open>A directory of two files, the older of which may go.\<close>

definition gc_file :: "u64 \<Rightarrow> staged_file" where
  "gc_file e = \<lparr>epoch_ms = e, seq = 0, start_offset = 0, end_offset = 9, compressed = False\<rparr>"

definition gc_cfg :: client_config where
  "gc_cfg = (config_new ''host=h'')\<lparr>gc_retain_days := 1, gc_retain_min_files := 1\<rparr>"

definition gc_control :: "(string \<Rightarrow> string option) control_api" where
  "gc_control = \<lparr>connect_control = (\<lambda>_ s. (Inr (), s)), query_staging_config = (\<lambda>s. (Inr ([], [], []), s)),
     query_instance_id = (\<lambda>s. (Inr None, s)), query_watermark = (\<lambda>_ s. (Inr (Some 4000000), s)),
     query_database = (\<lambda>s. (Inr ''db'', s))\<rparr>"

definition gc_operator :: "(string \<Rightarrow> string option) operator" where
  "gc_operator = map_operator\<lparr>op_list := (\<lambda>_ s. (Inr [\<lparr>entry_name = basename (gc_file 0), entry_is_dir = False\<rparr>,
     \<lparr>entry_name = basename (gc_file 1), entry_is_dir = False\<rparr>], s))\<rparr>"

definition gc_world :: "string \<Rightarrow> string option" where
  "gc_world = [object_key (gc_file 0) demo_ident \<mapsto> ''a'', object_key (gc_file 1) demo_ident \<mapsto> ''b'']"

lemma gc_operator_laws: "store_laws gc_operator (\<lambda>s. s)"
  using map_operator_laws by (simp add: store_laws_def gc_operator_def)

lemma gc_control_laws: "control_laws gc_control (\<lambda>s. s)"
  by (simp add: control_laws_def gc_control_def)

lemma gc_demo:
  "gc_pass gc_control gc_operator gc_cfg demo_ident 90000000 gc_world
     = (1, gc_world(object_key (gc_file 0) demo_ident := None))"
proof -
  have p: "parse_basename (basename (gc_file e)) = Some (gc_file e)" for e
    by (rule parse_basename_basename) (simp_all add: gc_file_def i64_max_def)
  have s: "serial_seq (gc_file 0) = Inr 0"
    by (simp add: serial_seq_def gc_file_def encode_Inr slot_ok_unat serial_nat_def)
  have l: "list_staged gc_operator demo_ident gc_world = (Inr ([gc_file 0, gc_file 1], []), gc_world)"
    by (simp add: list_staged_def gc_operator_def p)
  have o: "epoch_ms (gc_file e) = e" "seq (gc_file e) = 0" for e by (simp_all add: gc_file_def)
  have d: "gc_deletable gc_cfg 4000000 90000000 [gc_file 0, gc_file 1] = [gc_file 0]"
    by (simp add: gc_deletable_def s gc_cfg_def sat_sub_u64_def) (simp add: gc_file_def)
  have c: "gc_retain_min_files gc_cfg = 1" by (simp add: gc_cfg_def)
  have x: "gc_delete gc_operator demo_ident [gc_file 0] gc_world
      = (1, gc_world(object_key (gc_file 0) demo_ident := None))"
    by (simp add: delete_staged_def lift_storage_def gc_operator_def map_operator_def)
  show ?thesis
    by (simp add: gc_pass_def gc_control_def l o Let_def c d x del: gc_delete.simps One_nat_def)
qed

theorem gc_pass_bounds_witness:
  "object_key (gc_file 0) demo_ident \<in> dom gc_world
   \<and> snd (gc_pass gc_control gc_operator gc_cfg demo_ident 90000000 gc_world) (object_key (gc_file 0) demo_ident) = None"
proof -
  have k: "gc_world (object_key (gc_file 0) demo_ident) \<noteq> None" by (simp add: gc_world_def)
  then have "(gc_world(object_key (gc_file 0) demo_ident := None)) (object_key (gc_file 0) demo_ident)
      \<noteq> gc_world (object_key (gc_file 0) demo_ident)" by (metis fun_upd_same)
  with gc_pass_bounds [where obj = "\<lambda>s. s" and k = "object_key (gc_file 0) demo_ident",
      OF gc_operator_laws gc_control_laws gc_demo] k
  show ?thesis by (auto simp: gc_demo)
qed

end
