(* ===== verification/Staged_Stays.thy ===== *)
theory Staged_Stays
  imports Writer_Delivery Gc_Safety
begin

text \<open>
  The objects of durable files stay in the store: over every step of the writer the object of a landed file
  keeps its payload until the collector finds the file consumed by the server. What other processes do is
  restricted only in that they leave the staged objects of this writer alone.
\<close>

section \<open>Lawful stores and neighbours\<close>

text \<open>
  \<open>obj\<close> reads the objects off the world. Every store that the writer may build obeys the laws, and the queries
  to the master change no object.
\<close>

definition lawful :: "'s libs \<Rightarrow> ('s \<Rightarrow> string \<Rightarrow> string option) \<Rightarrow> bool" where
  "lawful lb obj \<longleftrightarrow>
     (\<forall>oc oper. mk_store lb oc = Inr oper \<longrightarrow> store_laws oper obj)
     \<and> control_laws (control lb) obj \<and> (\<forall>s. obj (snd (query_staging_config (control lb) s)) = obj s)"

definition spared :: "('s \<Rightarrow> string \<Rightarrow> string option) \<Rightarrow> writer_ctx \<Rightarrow> reading \<times> 's writer_event \<Rightarrow> 's writer \<Rightarrow> bool" where
  "spared obj cx l w \<longleftrightarrow> writer_allowed cx l w
     \<and> (\<forall>f. snd l = World f \<longrightarrow> (\<forall>s g. obj (f s) (object_key g (wx_ident cx)) = obj s (object_key g (wx_ident cx))))"

lemma built_laws:
  assumes "lawful lb obj" and "live_built (mk_store lb) h"
  shows "store_laws (live_store (current h)) obj"
proof -
  let ?c = "live_cfg (current h)"
  from assms(2) obtain st where st: "store_new (mk_store lb) ?c = Inr st"
    "\<lparr>live_cfg = ?c, live_store = st, url_base = staging_url_base ?c\<rparr> = current h"
    by (auto simp: live_built_def live_build_def res_simps)
  then have "live_store (current h) = st" by (metis staging_live.select_convs(2))
  moreover obtain oc where "op_config_of ?c = Inr oc"
    using st(1) by (cases "op_config_of ?c") (simp_all add: store_new_def)
  moreover with st(1) have "mk_store lb oc = Inr st" by (cases "mk_store lb oc") (simp_all add: store_new_def)
  ultimately show ?thesis using assms(1) by (simp add: lawful_def)
qed

lemma refresh_built:
  assumes "live_built (mk_store lb) h" and "refresh_managed_staging (control lb) (mk_store lb) h s = (r, h', s')"
  shows "live_built (mk_store lb) h'"
proof -
  have "h' = h \<or> (\<exists>c. h' = snd (apply_staging (mk_store lb) c h))"
    using assms(2)
    by (simp add: refresh_managed_staging_def split: option.splits prod.splits sum.splits) (metis snd_conv)
  with handle.inv_step [OF assms(1)] assms(1) show ?thesis by auto
qed

lemma refresh_quiet:
  assumes "lawful lb obj" and "refresh_managed_staging (control lb) (mk_store lb) h s = (r, h', s')"
  shows "obj s' = obj s"
proof -
  have o: "obj (snd (connect_control (control lb) dsn x)) = obj x" "obj (snd (query_staging_config (control lb) x)) = obj x" for dsn x
    using assms(1) by (simp_all add: lawful_def control_laws_def)
  have f: "obj (snd (fetch_managed_staging (control lb) x)) = obj x" for x
    using o(2) [of x] by (auto simp: fetch_managed_staging_def split: prod.splits sum.splits)
  show ?thesis
  proof (cases "managed_dsn h")
    case (Some dsn)
    obtain q s1 where c: "connect_control (control lb) dsn s = (q, s1)" by fastforce
    obtain q' s2 where d: "fetch_managed_staging (control lb) s1 = (q', s2)" by fastforce
    from o(1) [of dsn s] f [of s1] c d have "obj s1 = obj s" "obj s2 = obj s" by simp_all
    with assms(2) c d Some show ?thesis
      by (auto simp: refresh_managed_staging_def split: sum.splits prod.splits)
  qed (use assms(2) in \<open>simp add: refresh_managed_staging_def\<close>)
qed

section \<open>What an upload changes\<close>

lemma put_changes:
  assumes "store_laws oper obj" and "put oper key payload s = (r, s')"
  shows "k \<noteq> key \<Longrightarrow> obj s' k = obj s k"
proof -
  obtain q s1 where w: "op_write oper key payload s = (q, s1)" by fastforce
  with assms(2) have "s' = s1" by (auto simp: put_def lift_storage_def split: sum.splits)
  with store_write [OF assms(1) w] show "k \<noteq> key \<Longrightarrow> obj s' k = obj s k" by auto
qed

lemma put_once_changes:
  assumes "lawful lb obj" and "live_built (mk_store lb) h" and "put_once lb key payload h s = (r, h', s')"
  shows "live_built (mk_store lb) h'" and "k \<noteq> key \<Longrightarrow> obj s' k = obj s k" and "r = Inr () \<Longrightarrow> obj s' key = Some payload"
proof -
  note laws = built_laws [OF assms(1,2)]
  obtain q s1 where p: "put (live_store (current h)) key payload s = (q, s1)" by fastforce
  obtain d h1 s2 where f: "refresh_managed_staging (control lb) (mk_store lb) h s1 = (d, h1, s2)" by (metis prod_cases3)
  obtain q2 s3 where p2: "put (live_store (current h1)) key payload s2 = (q2, s3)" by fastforce
  note b = refresh_built [OF assms(2) f] and same = refresh_quiet [OF assms(1) f]
  have h': "h' = h \<or> h' = h1" and s': "s' = s1 \<or> s' = s2 \<or> s' = s3"
    using assms(3) p f p2 by (auto simp: put_once_def Let_def split: sum.splits if_splits bool.splits)
  from h' assms(2) b show built: "live_built (mk_store lb) h'" by auto
  show "obj s' k = obj s k" if "k \<noteq> key"
    using s' same put_changes [OF laws p that] put_changes [OF built_laws [OF assms(1) b] p2 that] by auto
  show "obj s' key = Some payload" if "r = Inr ()"
    using put_stored [OF assms(3) [unfolded that] built_laws [OF assms(1) built]] .
qed

section \<open>What a step changes\<close>

text \<open>The watermark that a collector of this writer would be answered in the state \<open>v\<close>.\<close>

definition answered :: "'s libs \<Rightarrow> writer_ctx \<Rightarrow> 's writer \<Rightarrow> i64 \<Rightarrow> bool" where
  "answered lb cx v x \<longleftrightarrow>
     fst (query_watermark (control lb) (group_of cx)
       (snd (connect_control (control lb) (control_dsn (wx_cfg cx)) (wr_world v)))) = Inr (Some x)"

text \<open>The event \<open>ev\<close> may change the staged object under \<open>k\<close>: it is being uploaded, or collected as consumed.\<close>

definition touched :: "'s libs \<Rightarrow> writer_ctx \<Rightarrow> 's writer_event \<Rightarrow> 's writer \<Rightarrow> string \<Rightarrow> bool" where
  "touched lb cx ev w k \<longleftrightarrow>
     (\<exists>f n. put_task w = PWork f n \<and> k = fm_object_key (cp_meta f))
     \<or> (\<exists>x g sq. ev = GcStep \<and> answered lb cx w x \<and> k = object_key g (wx_ident cx) \<and> serial_seq g = Inr sq \<and> sq \<le> x)"

lemma run_world:
  assumes "\<And>k sf. p \<noteq> WritingState k sf" and "\<And>s. p \<noteq> Releasing s"
  shows "wr_world (run_pc lb cx c t b p w) = wr_world w"
proof (cases p)
  case (Start o')
  then show ?thesis by (cases o') (simp_all add: start_op_def start_append_def start_tick_def goto_def raise_stream_stopped_def Let_def split: option.splits)
qed (use assms in \<open>auto simp: run_buffer_def run_lock_def run_reserve_def seal_gone_def seal_return_def unlock_def run_cut_def
      run_unbuffer_def run_await_def run_persist_def goto_def Let_def run_stop_heartbeat_def
      split: option.splits prod.splits sum.splits heartbeat_pc.splits\<close>)

lemma read_lock_quiet:
  "store_laws oper obj \<Longrightarrow> obj (snd (read_lock oper j ident s)) = obj s"
  using store_read [of oper obj "lock_key ident" s]
  by (cases "op_read oper (lock_key ident) s") (auto simp: read_lock_def split: sum.splits if_splits)

lemma release_staged:
  "store_laws oper obj \<Longrightarrow> obj (snd (release_attempts n oper j ident me s)) (object_key g i) = obj s (object_key g i)"
proof (induction n arbitrary: s)
  case (Suc n)
  obtain r s1 where r: "read_lock oper j ident s = (r, s1)" by fastforce
  have s1: "obj s1 = obj s" using read_lock_quiet [OF Suc.prems, of j ident s] r by simp
  obtain q s2 where d: "delete_lock oper ident s1 = (q, s2)" by fastforce
  then obtain q' where "op_delete oper (lock_key ident) s1 = (q', s2)"
    by (auto simp: delete_lock_def lift_storage_def split: prod.splits sum.splits)
  from store_delete [OF Suc.prems this] have s2: "obj s2 (object_key g i) = obj s (object_key g i)" using s1 by auto
  from Suc.IH [OF Suc.prems] s1 s2 show ?case
    by (simp add: r d split: sum.splits option.splits)
qed simp

lemma call_staged:
  assumes "store_laws (store_of w) obj"
  shows "obj (wr_world (run_call lb cx c t b w)) (object_key g i) = obj (wr_world w) (object_key g i)"
proof (cases "calls w t")
  case (Some p)
  show ?thesis
  proof (cases "(\<exists>k sf. p = WritingState k sf) \<or> (\<exists>s. p = Releasing s)")
    case True
    then consider k sf where "p = WritingState k sf" | s where "p = Releasing s" by blast
    then show ?thesis
    proof cases
      case 1
      obtain r s1 where r: "op_write (store_of w) (state_key (wx_ident cx)) (state_to_bytes (json lb) sf) (wr_world w) = (r, s1)"
        by fastforce
      from store_write [OF assms r] have "obj s1 (object_key g i) = obj (wr_world w) (object_key g i)" by auto
      with r Some 1 show ?thesis
        by (auto simp: run_call_def run_write_state_def write_state_def lift_storage_def goto_def split: sum.splits)
    next
      case 2
      with Some release_staged [OF assms, of 3 "json lb" "wx_ident cx" "wx_uuid cx" "wr_world w" g i] show ?thesis
        by (auto simp: run_call_def run_release_def release_lease_def goto_def split: prod.splits)
    qed
  qed (use Some run_world [of p lb cx c t b w] in \<open>simp add: run_call_def\<close>)
qed (simp add: run_call_def)

lemma heartbeat_staged:
  assumes "store_laws (store_of w) obj"
  shows "obj (wr_world (heartbeat_step lb cx c w)) (object_key g i) = obj (wr_world w) (object_key g i)"
proof -
  have fe: "wr_world (fence_and_exit cx c m v) = wr_world v" for m v
    by (simp add: fence_and_exit_def fence_def)
  obtain r s1 where r: "read_lock (store_of w) (json lb) (wx_ident cx) (wr_world w) = (r, s1)" by fastforce
  have s1: "obj s1 = obj (wr_world w)" using read_lock_quiet [OF assms, of "json lb" "wx_ident cx" "wr_world w"] r by simp
  have drop: "obj (drop_lease (store_of w) (json lb) (wx_ident cx) (wx_uuid cx) (wr_world w)) (object_key g i)
      = obj (wr_world w) (object_key g i)"
  proof -
    obtain q s2 where d: "delete_lock (store_of w) (wx_ident cx) s1 = (q, s2)" by fastforce
    then obtain q' where "op_delete (store_of w) (lock_key (wx_ident cx)) s1 = (q', s2)"
      by (auto simp: delete_lock_def lift_storage_def split: prod.splits sum.splits)
    from store_delete [OF assms this] have "obj s2 (object_key g i) = obj s1 (object_key g i)" by auto
    with s1 d show ?thesis by (auto simp: drop_lease_def r split: sum.splits option.splits)
  qed
  show ?thesis
  proof (cases "hb_pc w")
    case HbIdle
    with drop s1 show ?thesis
      by (auto simp: heartbeat_step_def heartbeat_tick_def Let_def r fe split: sum.splits option.splits)
  next
    case (HbRenew l)
    obtain q s2 where q: "write_lock (store_of w) (json lb) (wx_ident cx) (l\<lparr>heartbeat_at_ms := now_ms (machine c)\<rparr>)
        (wr_world w) = (q, s2)" by fastforce
    then obtain q' b where "op_write (store_of w) (lock_key (wx_ident cx)) b (wr_world w) = (q', s2)"
      by (auto simp: write_lock_def lift_storage_def split: prod.splits sum.splits)
    from store_write [OF assms this] have "obj s2 (object_key g i) = obj (wr_world w) (object_key g i)" by auto
    with HbRenew q show ?thesis
      by (auto simp: heartbeat_step_def heartbeat_renew_def Let_def fe split: sum.splits)
  qed (simp add: heartbeat_step_def)
qed

lemma lag_staged:
  assumes "control_laws (control lb) obj"
  shows "obj (wr_world (lag_step lb cx c b w)) = obj (wr_world w)"
proof -
  obtain r s1 where r: "(if b then (Inr (), wr_world w) else connect_control (control lb) (control_dsn (wx_cfg cx)) (wr_world w))
      = (r, s1)" by fastforce
  obtain q s2 where q: "query_watermark (control lb) (group_of cx) s1 = (q, s2)" by fastforce
  have "obj s1 = obj (wr_world w)"
  proof (cases b)
    case False
    with r have "connect_control (control lb) (control_dsn (wx_cfg cx)) (wr_world w) = (r, s1)" by simp
    with assms show ?thesis unfolding control_laws_def by (metis snd_conv)
  qed (use r in simp)
  moreover have "obj s2 = obj s1" using assms q unfolding control_laws_def by (metis snd_conv)
  ultimately show ?thesis using r q by (auto simp: lag_step_def split: sum.splits prod.splits)
qed

lemma gc_staged:
  assumes "store_laws (store_of w) obj" and "control_laws (control lb) obj"
    and "obj (wr_world (gc_step lb cx c w)) k \<noteq> obj (wr_world w) k"
  shows "touched lb cx GcStep w k"
proof -
  let ?p = "gc_pass (control lb) (store_of w) (wx_cfg cx) (wx_ident cx) (now_ms (machine c)) (wr_world w)"
  have "obj (snd ?p) k \<noteq> obj (wr_world w) k" using assms(3) by (auto simp: gc_step_def split: if_splits)
  moreover obtain n s' where p: "?p = (n, s')" by fastforce
  ultimately show ?thesis
    using gc_pass_changes [OF assms(1,2) p] unfolding touched_def answered_def by fastforce
qed

lemma put_staged:
  assumes "lawful lb obj" and "live_built (mk_store lb) (wr_staging w)"
    and "obj (wr_world (put_step lb cx c up w)) k \<noteq> obj (wr_world w) k"
  shows "touched lb cx ev w k"
proof (cases "put_task w")
  case (PWork f n)
  obtain r h s where p: "put_once lb (fm_object_key (cp_meta f)) (cp_payload f) (wr_staging w) (wr_world w) = (r, h, s)"
    by (metis prod_cases3)
  have "wr_world (put_attempt lb cx c f n w) = s"
    by (auto simp: put_attempt_def p Let_def cleared_def set_progress_def attempt_failed_def split: sum.splits)
  then have "obj s k \<noteq> obj (wr_world w) k"
    using assms(3) PWork by (auto simp: put_step_def fenced_exit_def set_progress_def split: if_splits)
  with put_once_changes(2) [OF assms(1,2) p] PWork show ?thesis unfolding touched_def by blast
next
  case (PCheck f)
  with assms(3) show ?thesis
    by (auto simp: put_step_def fenced_exit_def set_progress_def trip_order_fatal_def split: if_splits sum.splits)
qed (use assms(3) in \<open>auto simp: put_step_def fenced_exit_def set_progress_def record_durable_def Let_def
      split: if_splits list.splits\<close>)

lemma stage_frame [simp]:
  "wr_world (render_step lb cx c join w) = wr_world w" "wr_staging (render_step lb cx c join w) = wr_staging w"
  "wr_world (gzip_step lb cx c join w) = wr_world w" "wr_staging (gzip_step lb cx c join w) = wr_staging w"
  by (auto simp: render_step_def gzip_step_def render_attempt_def gzip_attempt_def attempt_failed_def fenced_exit_def
      set_progress_def cleared_def Let_def split: render_pc.splits gzip_pc.splits list.splits sum.splits prod.splits)

lemma step_touches:
  assumes "lawful lb obj" and "live_built (mk_store lb) (wr_staging w)" and "spared obj cx l w"
    and "obj (wr_world (writer_step lb cx l w)) (object_key g (wx_ident cx)) \<noteq> obj (wr_world w) (object_key g (wx_ident cx))"
  shows "touched lb cx (snd l) w (object_key g (wx_ident cx))"
proof -
  obtain c ev where l: "l = (c, ev)" by fastforce
  have laws: "store_laws (store_of w) obj" unfolding store_of_def by (rule built_laws [OF assms(1,2)])
  have ctl: "control_laws (control lb) obj" using assms(1) by (simp add: lawful_def)
  show ?thesis
  proof (cases ev)
    case (Run t b)
    with assms(4) call_staged [OF laws] show ?thesis by (simp add: l)
  next
    case HeartbeatStep
    with assms(4) heartbeat_staged [OF laws] show ?thesis by (simp add: l)
  next
    case (LagStep b)
    with assms(4) lag_staged [OF ctl] show ?thesis by (simp add: l)
  next
    case GcStep
    with assms(4) gc_staged [OF laws ctl] show ?thesis by (simp add: l)
  next
    case (PutStep up)
    with assms(4) put_staged [OF assms(1,2)] show ?thesis by (simp add: l)
  next
    case Refresh
    obtain r h s where f: "refresh_managed_staging (control lb) (mk_store lb) (wr_staging w) (wr_world w) = (r, h, s)"
      by (metis prod_cases3)
    with assms(4) refresh_quiet [OF assms(1) f] Refresh show ?thesis by (simp add: l staging_refresh_round_def)
  next
    case (World f)
    with assms(3,4) show ?thesis by (auto simp: l spared_def)
  next
    case (RenderStep join)
    with assms(4) show ?thesis by (simp add: l)
  next
    case (GzipStep join)
    with assms(4) show ?thesis by (simp add: l)
  qed (use assms(4) in \<open>simp_all add: l goto_def\<close>)
qed

lemma staging_frame [simp]:
  "wr_staging (set_progress g w) = wr_staging w" "wr_staging (fenced_exit cx c w) = wr_staging w"
  "wr_staging (trip_order_fatal cx c e w) = wr_staging w" "wr_staging (record_durable cx k m w) = wr_staging w"
  "wr_staging (fence_and_exit cx c why w) = wr_staging w"
proof -
  have [simp]: "wr_staging (raise_stream_stopped cx c v) = wr_staging v" for v
    by (simp add: raise_stream_stopped_def Let_def split: option.split)
  show "wr_staging (set_progress g w) = wr_staging w" "wr_staging (fenced_exit cx c w) = wr_staging w"
    "wr_staging (trip_order_fatal cx c e w) = wr_staging w" "wr_staging (record_durable cx k m w) = wr_staging w"
    "wr_staging (fence_and_exit cx c why w) = wr_staging w"
    by (simp_all add: set_progress_def fenced_exit_def trip_order_fatal_def record_durable_def fence_and_exit_def
        fence_def Let_def)
qed

lemma step_built:
  assumes "lawful lb obj" and "live_built (mk_store lb) (wr_staging w)"
  shows "live_built (mk_store lb) (wr_staging (writer_step lb cx (c, ev) w))"
proof (cases ev)
  case (PutStep up)
  have "wr_staging (put_step lb cx c up w) = wr_staging w
      \<or> (\<exists>f n. wr_staging (put_step lb cx c up w) = wr_staging (put_attempt lb cx c f n w))"
    by (cases "put_task w") (auto simp: put_step_def Let_def split: list.splits sum.splits if_splits)
  moreover have "live_built (mk_store lb) (wr_staging (put_attempt lb cx c f n w))" for f n
  proof -
    obtain r h s where p: "put_once lb (fm_object_key (cp_meta f)) (cp_payload f) (wr_staging w) (wr_world w) = (r, h, s)"
      by (metis prod_cases3)
    have "wr_staging (put_attempt lb cx c f n w) = h"
      by (auto simp: put_attempt_def p Let_def cleared_def set_progress_def attempt_failed_def split: sum.splits)
    with put_once_changes(1) [OF assms p] show ?thesis by simp
  qed
  ultimately show ?thesis using assms(2) PutStep by auto
next
  case Refresh
  obtain r h s where f: "refresh_managed_staging (control lb) (mk_store lb) (wr_staging w) (wr_world w) = (r, h, s)"
    by (metis prod_cases3)
  with refresh_built [OF assms(2) f] Refresh show ?thesis by (simp add: staging_refresh_round_def)
next
  case (Run t b)
  have "wr_staging (run_call lb cx c t b w) = wr_staging w"
  proof (cases "calls w t")
    case (Some p)
    show ?thesis
    proof (cases p)
      case (Start o')
      with Some show ?thesis
        by (cases o') (simp_all add: run_call_def start_op_def start_append_def start_tick_def goto_def)
    qed (use Some in \<open>auto simp: run_call_def run_buffer_def run_lock_def run_reserve_def seal_gone_def seal_return_def
          unlock_def run_cut_def run_unbuffer_def run_await_def run_persist_def run_write_state_def run_release_def goto_def
          Let_def run_stop_heartbeat_def split: option.splits prod.splits sum.splits heartbeat_pc.splits\<close>)
  qed (simp add: run_call_def)
  with assms(2) Run show ?thesis by simp
next
  case HeartbeatStep
  have "wr_staging (heartbeat_step lb cx c w) = wr_staging w"
    by (cases "hb_pc w"; cases "read_lock (store_of w) (json lb) (wx_ident cx) (wr_world w)")
       (auto simp: heartbeat_step_def heartbeat_tick_def heartbeat_renew_def Let_def split: prod.splits sum.splits option.splits)
  with assms(2) HeartbeatStep show ?thesis by simp
next
  case (RenderStep join)
  with assms(2) show ?thesis by simp
next
  case (GzipStep join)
  with assms(2) show ?thesis by simp
next
  case GcStep
  with assms(2) show ?thesis by (simp add: gc_step_def)
next
  case (LagStep b)
  with assms(2) show ?thesis by (auto simp: lag_step_def split: prod.splits sum.splits)
qed (use assms(2) in \<open>simp_all add: goto_def\<close>)

section \<open>Keys and serial numbers\<close>

lemma key_slot:
  assumes "slot_ok (epoch_ms f) (seq f)" and "slot_ok (epoch_ms g) (seq g)" and "object_key f i = object_key g i"
  shows "slot f = slot g"
proof -
  from assms(3) have "basename f = basename g" by (simp add: object_key_def)
  then have "take 21 (slot_name f @ drop 21 (basename f)) = take 21 (slot_name g @ drop 21 (basename g))"
    using assms(1,2) by (simp add: basename_slot_name length_slot_name)
  then have "slot_name f = slot_name g" using assms(1,2) by (simp add: length_slot_name)
  with assms(1,2) show ?thesis by (intro slot_name_inj)
qed

lemma serial_key:
  assumes "serial_seq f = Inr x" and "serial_seq g = Inr y" and "object_key f i = object_key g i"
  shows "x = y"
proof -
  have ok: "slot_ok (epoch_ms f) (seq f)" "slot_ok (epoch_ms g) (seq g)"
    using assms(1,2) by (simp_all add: serial_seq_def encode_Inr)
  have "slot f = slot g" by (rule key_slot [OF ok assms(3)])
  with assms(1,2) show ?thesis by (simp add: serial_seq_def slot_def)
qed

definition named :: "writer_ctx \<Rightarrow> file_meta \<Rightarrow> bool" where
  "named cx m \<longleftrightarrow> fm_object_key m = object_key (fm_file m) (wx_ident cx) \<and> serial_seq (fm_file m) = Inr (fm_serial_seq m)"

lemma entry_named: "entry_cut lb cx w0 w en \<Longrightarrow> named cx (fst en)"
  by (auto simp: entry_cut_def named_def seal_def roll_epoch_def Let_def split: if_splits sum.splits)

section \<open>Durable objects stay\<close>

text \<open>A collector of this session ran, and was answered a watermark at or above the file.\<close>

definition found_consumed :: "'s libs \<Rightarrow> writer_ctx \<Rightarrow> 's writer \<Rightarrow> 's writer \<Rightarrow> file_meta \<Rightarrow> bool" where
  "found_consumed lb cx w0 w m \<longleftrightarrow>
     (\<exists>v c x. writer_reach lb cx w0 v \<and> answered lb cx v x \<and> fm_serial_seq m \<le> x
        \<and> writer_reach lb cx (writer_step lb cx (c, GcStep) v) w)"

definition stays ::
  "'s libs \<Rightarrow> ('s \<Rightarrow> string \<Rightarrow> string option) \<Rightarrow> writer_ctx \<Rightarrow> 's writer \<Rightarrow> 's writer \<Rightarrow> compressed_file \<Rightarrow> bool" where
  "stays lb obj cx w0 w f \<longleftrightarrow>
     obj (wr_world w) (fm_object_key (cp_meta f)) = Some (cp_payload f) \<or> found_consumed lb cx w0 w (cp_meta f)"

lemma stays_step:
  assumes "stays lb obj cx w0 w f" and "named cx (cp_meta f)" and "writer_reach lb cx w0 w"
    and "lawful lb obj" and "live_built (mk_store lb) (wr_staging w)" and "spared obj cx l w"
    and "\<And>g n. put_task w = PWork g n \<Longrightarrow> named cx (cp_meta g) \<and> fm_serial_seq (cp_meta g) \<noteq> fm_serial_seq (cp_meta f)"
  shows "stays lb obj cx w0 (writer_step lb cx l w) f"
proof -
  let ?k = "fm_object_key (cp_meta f)" and ?w = "writer_step lb cx l w"
  have one: "writer_reach lb cx w ?w" using assms(6) by (auto simp: spared_def intro: reach.intros)
  show ?thesis
  proof (cases "found_consumed lb cx w0 w (cp_meta f)")
    case True
    then show ?thesis unfolding stays_def found_consumed_def using one by (blast intro: reach_trans)
  next
    case False
    with assms(1) have o: "obj (wr_world w) ?k = Some (cp_payload f)" by (simp add: stays_def)
    show ?thesis
    proof (cases "obj (wr_world ?w) ?k = obj (wr_world w) ?k")
      case True
      with o show ?thesis by (simp add: stays_def)
    next
      case False
      have k: "?k = object_key (fm_file (cp_meta f)) (wx_ident cx)" and s: "serial_seq (fm_file (cp_meta f)) = Inr (fm_serial_seq (cp_meta f))"
        using assms(2) by (simp_all add: named_def)
      from step_touches [OF assms(4-6) False [unfolded k]] consider
        (upload) g n where "put_task w = PWork g n" "?k = fm_object_key (cp_meta g)"
        | (collect) x g sq where "snd l = GcStep" "answered lb cx w x" "?k = object_key g (wx_ident cx)" "serial_seq g = Inr sq" "sq \<le> x"
        unfolding touched_def k by blast
      then show ?thesis
      proof cases
        case upload
        from assms(7) [OF upload(1)] have g: "fm_object_key (cp_meta g) = object_key (fm_file (cp_meta g)) (wx_ident cx)"
          "serial_seq (fm_file (cp_meta g)) = Inr (fm_serial_seq (cp_meta g))" "fm_serial_seq (cp_meta g) \<noteq> fm_serial_seq (cp_meta f)"
          by (simp_all add: named_def)
        have "object_key (fm_file (cp_meta f)) (wx_ident cx) = object_key (fm_file (cp_meta g)) (wx_ident cx)"
          using upload(2) g(1) k by simp
        from serial_key [OF s g(2) this] g(3) show ?thesis by simp
      next
        case collect
        from serial_key [OF s collect(4)] collect(3) k have "fm_serial_seq (cp_meta f) = sq" by simp
        moreover have "writer_reach lb cx (writer_step lb cx (fst l, GcStep) w) ?w"
          using collect(1) by (metis prod.collapse reach.reach_refl)
        ultimately show ?thesis using collect(2,5) assms(3) unfolding stays_def found_consumed_def by blast
      qed
    qed
  qed
qed

fun stay_ok ::
  "'s libs \<Rightarrow> ('s \<Rightarrow> string \<Rightarrow> string option) \<Rightarrow> writer_ctx \<Rightarrow> 's writer \<Rightarrow> 's shadowed \<Rightarrow> bool" where
  "stay_ok lb obj cx w0 (w, a, L) \<longleftrightarrow>
     shadow_ok lb cx w0 (w, a, L) \<and> live_built (mk_store lb) (wr_staging w)
     \<and> (\<forall>i < sp_done a. \<exists>f. cp_meta f = fst (L ! i) \<and> stored_from lb cx (map fst (snd (L ! i))) f \<and> stays lb obj cx w0 w f)
     \<and> (\<forall>f. put_task w \<in> {PLanded f, PRecord f} \<longrightarrow> stays lb obj cx w0 w f)"

lemma work_head:
  assumes "shadow_ok lb cx w0 (w, a, L)" and "put_task w = PWork g n \<or> put_task w = PLanded g \<or> put_task w = PRecord g"
  shows "\<exists>es. L ! sp_done a = (cp_meta g, es) \<and> stored_from lb cx (map fst es) g" and "named cx (cp_meta g)"
    and "i < sp_done a \<Longrightarrow> fm_serial_seq (fst (L ! i)) \<noteq> fm_serial_seq (cp_meta g)"
proof -
  have h: "live w = cp_meta g # tl (live w)" "g \<in> stored_at w"
    using assms(2) by (auto simp: live_def put_files_def stored_at_def)
  note e = head_entry [OF assms(1) h]
  show "\<exists>es. L ! sp_done a = (cp_meta g, es) \<and> stored_from lb cx (map fst es) g" by (rule e(2))
  have cut: "named cx (fst (L ! i))" if "i < length L" for i
    using assms(1) that entry_named [of lb cx w0 w "L ! i"] by simp
  from cut [OF e(1)] e(2) show n: "named cx (cp_meta g)" by auto
  show "fm_serial_seq (fst (L ! i)) \<noteq> fm_serial_seq (cp_meta g)" if "i < sp_done a"
  proof -
    have sp: "spool_inv a" "sp_sealed a = map (\<lambda>(m, es). (fm_file m, map snd es)) L" using assms(1) by simp_all
    have d: "sp_done a < length (sp_sealed a)" using e(1) sp(2) by simp
    from serial_less [OF sp(1) that d] have "serial_of (fm_file (fst (L ! i))) < serial_of (fm_file (fst (L ! sp_done a)))"
      using that e(1) by (simp add: sp(2) case_prod_unfold)
    moreover have "serial_of (fm_file m) = fm_serial_seq m" if "named cx m" for m
      using that by (simp add: named_def serial_of_def serial_seq_def encode_Inr)
    ultimately show ?thesis using cut [of i] n that e by fastforce
  qed
qed

lemma landing_stays:
  assumes "lawful lb obj" and "live_built (mk_store lb) (wr_staging w)" and "put_task w = PWork g n"
    and "put_task (writer_step lb cx l w) \<in> {PLanded f, PRecord f}"
  shows "stays lb obj cx w0 (writer_step lb cx l w) f"
proof -
  obtain c ev where l: "l = (c, ev)" by fastforce
  have up: "\<exists>up. ev = PutStep up"
  proof (rule ccontr)
    assume "\<nexists>up. ev = PutStep up"
    with stage_others [of ev lb cx c w] assms(3,4) show False by (auto simp: l)
  qed
  then obtain up where ev: "ev = PutStep up" by blast
  have a: "put_task (put_attempt lb cx c g n w) \<in> {PLanded f, PRecord f}" and st: "writer_step lb cx l w = put_attempt lb cx c g n w"
    using assms(3,4) by (auto simp: l ev put_step_def split: if_splits)
  from put_attempt_landed [of lb cx c g n w f] a obtain h s where
    p: "put_once lb (fm_object_key (cp_meta f)) (cp_payload f) (wr_staging w) (wr_world w) = (Inr (), h, s)" and g: "g = f"
    by auto
  have "wr_world (put_attempt lb cx c g n w) = s"
    by (simp add: put_attempt_def g p Let_def cleared_def set_progress_def)
  with put_once_changes(3) [OF assms(1,2) p] show ?thesis by (simp add: stays_def st)
qed

lemma landing_from:
  assumes "put_task (writer_step lb cx (c, ev) w) \<in> {PLanded f, PRecord f}"
  shows "put_task w \<in> {PLanded f, PRecord f} \<or> (\<exists>n. put_task w = PWork f n)"
proof (cases "put_task w = PLand f")
  case True
  have "put_task (writer_step lb cx (c, ev) w) \<in> {PLand f, PRecv}"
  proof (cases "\<exists>b. ev = PutStep b")
    case False
    with stage_others [of ev lb cx c w] True show ?thesis by auto
  qed (use True in \<open>auto simp: put_step_def Let_def\<close>)
  with assms show ?thesis by auto
next
  case False
  with landed_step [of lb cx c ev w f] assms show ?thesis by (auto simp: uploads_def)
qed

lemma stay_ok_step:
  assumes "stay_ok lb obj cx w0 x" and "put_task w0 = PRecv" and "lawful lb obj" and "spared obj cx l (fst x)"
  shows "stay_ok lb obj cx w0 (shadow_step lb cx l x)"
proof -
  obtain w a L where x: "x = (w, a, L)" by (metis prod_cases3)
  obtain c ev where l: "l = (c, ev)" by fastforce
  let ?w = "writer_step lb cx l w" and ?ev = "spool_event_of lb cx l w"
  have sh: "shadow_ok lb cx w0 (w, a, L)" and built: "live_built (mk_store lb) (wr_staging w)"
    and old: "\<forall>i < sp_done a. \<exists>f. cp_meta f = fst (L ! i) \<and> stored_from lb cx (map fst (snd (L ! i))) f \<and> stays lb obj cx w0 w f"
    and land: "\<And>f. put_task w \<in> {PLanded f, PRecord f} \<Longrightarrow> stays lb obj cx w0 w f"
    and sp: "spared obj cx l w"
    using assms(1,4) by (auto simp: x)
  have al: "writer_allowed cx l w" using sp by (simp add: spared_def)
  have w: "writer_reach lb cx w0 w" "sim cx w a" "spool_inv a" using sh by simp_all
  have len: "sp_done a \<le> length L" using sh spool_inv_parts(5) [OF w(3)] by simp
  note keep = stays_step [OF _ _ w(1) assms(3) built sp]
  have landed: "stays lb obj cx w0 ?w f" if p: "put_task w \<in> {PLanded f, PRecord f}" for f
  proof (rule keep [OF land [OF p]])
    from p work_head(2) [OF sh, of f 0] show "named cx (cp_meta f)" by auto
  qed (use p in auto)
  have "\<exists>f. cp_meta f = fst ((L @ cuts cx l w) ! i) \<and> stored_from lb cx (map fst (snd ((L @ cuts cx l w) ! i))) f
      \<and> stays lb obj cx w0 ?w f"
    if i: "i < sp_done (after spool_step ?ev a)" for i
  proof (cases "i < sp_done a")
    case True
    with old obtain f where f: "cp_meta f = fst (L ! i)" "stored_from lb cx (map fst (snd (L ! i))) f" "stays lb obj cx w0 w f"
      by blast
    have "stays lb obj cx w0 ?w f"
    proof (rule keep [OF f(3)])
      from sh True len entry_named [of lb cx w0 w "L ! i"] f(1) show "named cx (cp_meta f)" by simp
      show "named cx (cp_meta g) \<and> fm_serial_seq (cp_meta g) \<noteq> fm_serial_seq (cp_meta f)" if "put_task w = PWork g n" for g n
        using work_head(2) [OF sh, of g n] work_head(3) [OF sh _ True, of g n] that f(1) by auto
    qed
    with f True len show ?thesis by (auto simp: nth_append)
  next
    case False
    with i have ev: "?ev = Some Landed" "i = sp_done a" by (cases ?ev; cases "the ?ev"; auto)+
    from landed_is_recorded [OF w(2) ev(1)] obtain f where f: "put_task w = PRecord f" by blast
    from work_head(1) [OF sh, of f 0] f obtain es where e: "L ! sp_done a = (cp_meta f, es)" "stored_from lb cx (map fst es) f"
      by auto
    have "sp_done a < length L"
      using head_entry(1) [OF sh, of f "tl (live w)"] f by (simp add: live_def put_files_def stored_at_def)
    with e ev(2) landed [of f] f show ?thesis by (auto simp: nth_append)
  qed
  moreover have "stays lb obj cx w0 ?w f" if p: "put_task ?w \<in> {PLanded f, PRecord f}" for f
  proof (cases "put_task w \<in> {PLanded f, PRecord f}")
    case False
    with landing_from [of lb cx c ev w f] p obtain n where "put_task w = PWork f n" by (auto simp: l)
    from landing_stays [OF assms(3) built this p] show ?thesis .
  qed (rule landed)
  ultimately show ?thesis
    using shadow_ok_step [OF sh [folded x] assms(2)] al step_built [OF assms(3) built, of cx c ev]
    by (simp add: x l)
qed

lemma stay_ok_reach:
  assumes "reach (shadow_step lb cx) (on_writer (spared obj cx)) x y" and "stay_ok lb obj cx w0 x"
    and "put_task w0 = PRecv" and "lawful lb obj"
  shows "stay_ok lb obj cx w0 y"
  using assms by (induction rule: reach.induct) (auto intro: stay_ok_step)

lemma stay_ok_start:
  assumes "opened cx w0" and "live_built (mk_store lb) (wr_staging w0)"
  shows "stay_ok lb obj cx w0 (w0, spool_of w0, [])"
proof -
  have "sp_done (spool_of w0) = 0" by (simp add: spool_of_def spool_new_def)
  then show ?thesis using shadow_start(1) [OF assms(1), of lb] shadow_start(2) [OF assms(1)] assms(2) by simp
qed

lemma landed_later:
  assumes "reach (shadow_step lb cx) (on_writer G) x y" and "\<And>l w. G l w \<Longrightarrow> writer_allowed cx l w"
    and "shadow_ok lb cx w0 x" and "put_task w0 = PRecv" and "landed_in en (fst (snd x)) (snd (snd x))"
  shows "landed_in en (fst (snd y)) (snd (snd y))"
  using assms
proof (induction rule: reach.induct)
  case (reach_step y l)
  obtain w a L where y: "y = (w, a, L)" by (metis prod_cases3)
  have "shadow_ok lb cx w0 (w, a, L)"
    unfolding y [symmetric] by (rule shadow_ok_reach [OF reach_step.hyps(1) reach_step.prems(1-3)])
  from ledger_grows(3) [OF this, of l en] reach_step show ?case by (simp add: y)
qed

section \<open>Property\<close>

text \<open>
  C2. Acknowledged rows stay stored. When a batch was acknowledged by \<open>append\<close> and covered by a later
  \<open>flush\<close> or \<open>close\<close>, then in every state the session reaches afterwards the store still holds, under its
  key and unchanged, an object that covers the offsets of the batch and is rendered from batches among which
  is this very one, unless a collector of this session ran and the server told it that the file is consumed.
  No retry, re-upload, later file, lease, state or collector operation of the writer removes or overwrites it.
  The store and the control connection keep their contracts, and other processes leave the staged keys of this
  writer alone.
\<close>
theorem acknowledged_rows_stay:
  assumes "opened cx w0" and "lawful lb obj" and "live_built (mk_store lb) (wr_staging w0)"
    and "reach (writer_step lb cx) (spared obj cx) w0 w1" and "calls w1 t = Some (Start (Append b s e))"
    and "reach (writer_step lb cx) (\<lambda>l w. spared obj cx l w \<and> during cx t l w) w1 w2"
    and "calls w2 t = Some (Finished (AppendDone (Inr ())))"
    and "reach (writer_step lb cx) (spared obj cx) w2 w3" and "calls w3 t' = Some (Start o')"
    and "reach (writer_step lb cx) (\<lambda>l w. spared obj cx l w \<and> during cx t' l w) w3 w4"
    and "calls w4 t' = Some (Finished r)"
    and "(o', r) \<in> {(Flush, FlushDone (Inr off)), (Close, CloseDone (Inr off))}"
    and "reach (writer_step lb cx) (spared obj cx) w4 w"
  shows "\<exists>f bs body. (obj (wr_world w) (fm_object_key (cp_meta f)) = Some (cp_payload f)
        \<or> found_consumed lb cx w0 w (cp_meta f))
    \<and> start_offset (fm_file (cp_meta f)) \<le> s \<and> e \<le> end_offset (fm_file (cp_meta f))
    \<and> b \<in> set bs \<and> render_once lb cx None bs = Inr (body, cp_rows f) \<and> holds_body lb f body"
proof -
  let ?go = "reach (shadow_step lb cx) (on_writer (spared obj cx))"
  have any: "\<And>l w. spared obj cx l w \<Longrightarrow> writer_allowed cx l w" by (simp add: spared_def)
  note start = shadow_start(2) [OF assms(1)]
  from acknowledged_run [OF assms(1,4-12) any] obtain a L i where r: "?go (w0, spool_of w0, []) (w4, a, L)"
    and i: "i < sp_done a" "(b, s, e) \<in> set (snd (L ! i))" by blast
  have k4: "stay_ok lb obj cx w0 (w4, a, L)"
    by (rule stay_ok_reach [OF r stay_ok_start [OF assms(1,3)] start assms(2)])
  from shadow_lift [OF assms(13)] obtain a' L' where r': "?go (w4, a, L) (w, a', L')" by blast
  have k: "stay_ok lb obj cx w0 (w, a', L')" by (rule stay_ok_reach [OF r' k4 start assms(2)])
  have ok: "shadow_ok lb cx w0 (w4, a, L)" "shadow_ok lb cx w0 (w, a', L')" using k4 k by simp_all
  have "landed_in (b, s, e) a L" using i by (auto simp: landed_in_def)
  with landed_later [OF r' any ok(1) start, of "(b, s, e)"] obtain j where
    j: "j < sp_done a'" "(b, s, e) \<in> set (snd (L' ! j))" by (auto simp: landed_in_def)
  with k obtain f where f: "cp_meta f = fst (L' ! j)" "stored_from lb cx (map fst (snd (L' ! j))) f" "stays lb obj cx w0 w f"
    by auto
  note fl = ledger_file [OF ok(2) j(1)]
  then have "(s, e) \<in> set (snd (sp_sealed a' ! j))" using j(2) by force
  moreover have "spool_inv a'" using ok(2) by simp
  ultimately have "start_offset (fm_file (cp_meta f)) \<le> s" "e \<le> end_offset (fm_file (cp_meta f))"
    using range_in_file(1,3) [OF _ fl(1)] fl(2) f(1) by simp_all
  moreover have "b \<in> set (map fst (snd (L' ! j)))" using j(2) by force
  ultimately show ?thesis using f(2,3) unfolding stays_def stored_from_def by blast
qed

definition demo_collected :: "objects writer" where
  "demo_collected = demo_step GcStep demo_flushed"

lemma demo_lawful: "lawful demo_libs (\<lambda>s. s)"
  using map_operator_laws by (simp add: lawful_def control_laws_def demo_libs_def)

lemma demo_live: "live_built (mk_store demo_libs) (wr_staging demo_writer)"
  by (simp add: live_built_def live_build_def store_new_def op_config_of_def demo_libs_def demo_writer_def writer_new_def
      demo_handle_def staging_url_base_def trim_matches_def res_simps)

lemma demo_spared: "writer_allowed demo_cx (demo_reading, ev) w \<Longrightarrow> (\<And>f. ev \<noteq> World f) \<Longrightarrow>
    spared (\<lambda>s. s) demo_cx (demo_reading, ev) w"
  by (simp add: spared_def)

theorem acknowledged_rows_stay_witness:
  "\<exists>f bs body. wr_world demo_collected (fm_object_key (cp_meta f)) = Some (cp_payload f)
    \<and> demo_row \<in> set bs \<and> render_once demo_libs demo_cx None bs = Inr (body, cp_rows f) \<and> holds_body demo_libs f body"
proof -
  let ?s = "spared (\<lambda>s. s) demo_cx"
  have lets: "lets_run ?s" "lets_run (\<lambda>l w. ?s l w \<and> during demo_cx t l w)" for t
    by (simp_all add: lets_run_def spared_def during_def)
  have "demo_reach ?s demo_writer demo_called"
    unfolding demo_called_def by (rule reach_step [OF reach_refl]) (rule demo_spared [OF demo_calls(1)], simp)
  moreover have "demo_reach ?s demo_cut demo_asked"
    unfolding demo_asked_def by (rule reach_step [OF reach_refl]) (rule demo_spared [OF demo_calls(2)], simp)
  moreover have "demo_reach ?s demo_flushed demo_collected"
    unfolding demo_collected_def by (rule reach_step [OF reach_refl]) (simp add: spared_def)
  moreover have "(Flush, FlushDone (Inr (Some 9))) \<in> {(Flush, FlushDone (Inr (Some 9))), (Close, CloseDone (Inr (Some 9)))}"
    by simp
  ultimately have "\<exists>f bs body. (wr_world demo_collected (fm_object_key (cp_meta f)) = Some (cp_payload f)
        \<or> found_consumed demo_libs demo_cx demo_writer demo_collected (cp_meta f))
    \<and> start_offset (fm_file (cp_meta f)) \<le> 0 \<and> 9 \<le> end_offset (fm_file (cp_meta f))
    \<and> demo_row \<in> set bs \<and> render_once demo_libs demo_cx None bs = Inr (body, cp_rows f) \<and> holds_body demo_libs f body"
    by (intro acknowledged_rows_stay [OF demo_opened demo_lawful demo_live _ demo_calls(3) demo_runs(1) [OF lets(2)]
      demo_calls(4) _ demo_calls(5) demo_runs(6) [OF lets(2)] demo_calls(6)])
  moreover have "\<not> found_consumed demo_libs demo_cx demo_writer demo_collected m" for m
    by (simp add: found_consumed_def answered_def demo_libs_def)
  ultimately show ?thesis by blast
qed

end
