(* ===== verification/Writer_Drain.thy ===== *)
theory Writer_Drain
  imports Writer_Ledger
begin

text \<open>
  Progress: while nothing has stopped the writer and the store, the renderer and gzip answer, the stages
  carry every file to durability in a number of turns that is known beforehand, and a \<open>flush\<close> that waits for
  them returns.
\<close>

section \<open>What is left to do\<close>

text \<open>The turns that the files in the stages still need, oldest first.\<close>

definition put_left :: "put_pc \<Rightarrow> nat" where
  "put_left p = (case p of PCheck _ \<Rightarrow> 5 | PWork _ _ \<Rightarrow> 4 | PLanded _ \<Rightarrow> 3 | PRecord _ \<Rightarrow> 2 | PLand _ \<Rightarrow> 1 | _ \<Rightarrow> 0)"

definition gzip_left :: "gzip_pc \<Rightarrow> nat" where
  "gzip_left g = (case g of GWork _ _ \<Rightarrow> 8 | GSend _ \<Rightarrow> 7 | _ \<Rightarrow> 0)"

definition render_left :: "render_pc \<Rightarrow> nat" where
  "render_left r = (case r of RWork _ _ \<Rightarrow> 11 | RSend _ \<Rightarrow> 10 | _ \<Rightarrow> 0)"

definition backlog :: "'s writer \<Rightarrow> nat" where
  "backlog w = put_left (put_task w) + 6 * length (put_chan w) + gzip_left (gzip_task w) + 9 * length (gzip_chan w)
     + render_left (render_task w) + 12 * length (seal_queue w)"

text \<open>One turn of each stage; the last one first, so that a file frees the place the next one moves to.\<close>

definition turn :: "'s libs \<Rightarrow> writer_ctx \<Rightarrow> reading \<times> bool \<Rightarrow> 's writer \<Rightarrow> 's writer" where
  "turn lb cx r w =
     writer_step lb cx (fst r, RenderStep None) (writer_step lb cx (fst r, GzipStep None)
       (writer_step lb cx (fst r, PutStep (snd r)) w))"

text \<open>The services answer: every file in the render stage renders, gzip succeeds, the store takes every object.\<close>

definition renders :: "'s libs \<Rightarrow> writer_ctx \<Rightarrow> 's writer \<Rightarrow> bool" where
  "renders lb cx w \<longleftrightarrow>
     (\<forall>s \<in> set (seal_queue w) \<union> (case render_task w of RWork s _ \<Rightarrow> {s} | _ \<Rightarrow> {}).
        \<exists>out. render_once lb cx None (sl_batches s) = Inr out)"

definition services :: "'s libs \<Rightarrow> 's operator staging_handle \<Rightarrow> bool" where
  "services lb h \<longleftrightarrow>
     (\<forall>body. \<exists>z. gzip lb body = Inr z) \<and> (\<forall>key payload s. \<exists>s'. put_once lb key payload h s = (Inr (), h, s'))"

definition healthy :: "'s libs \<Rightarrow> writer_ctx \<Rightarrow> 's writer \<Rightarrow> bool" where
  "healthy lb cx w \<longleftrightarrow> alive w \<and> fenced w = None \<and> running w \<and> renders lb cx w \<and> services lb (wr_staging w)"

section \<open>One turn\<close>

lemma cleared_same [simp]:
  "alive (cleared n m w) = alive w" "fenced (cleared n m w) = fenced w" "wr_staging (cleared n m w) = wr_staging w"
  by (simp_all add: cleared_def set_progress_def)

lemma put_turn:
  assumes "healthy lb cx w" and "\<And>f. put_task w = PCheck f \<Longrightarrow> check_order (put_prev w) (fm_file (cp_meta f)) = Inr ()"
  shows "healthy lb cx (put_step lb cx c up w)
    \<and> backlog (put_step lb cx c up w) \<le> backlog w
    \<and> (put_task w \<noteq> PRecv \<or> put_chan w \<noteq> [] \<longrightarrow> backlog (put_step lb cx c up w) < backlog w)
    \<and> (put_task w = PRecv \<and> put_chan w = [] \<longrightarrow> put_step lb cx c up w = w)"
proof -
  have h: "alive w" "fenced w = None" "put_task w \<noteq> PExit" "gzip_task w \<noteq> GExit" "render_task w \<noteq> RExit"
    and rn: "renders lb cx w" and sv: "services lb (wr_staging w)"
    using assms(1) by (simp_all add: healthy_def running_def)
  have frame: "healthy lb cx v"
    if "alive v = alive w" "fenced v = fenced w" "wr_staging v = wr_staging w" "put_task v \<noteq> PExit" "gzip_task v = gzip_task w"
      "render_task v = render_task w" "seal_queue v = seal_queue w" for v
    using that h rn sv by (simp add: healthy_def running_def renders_def)
  show ?thesis
  proof (cases "put_task w")
    case PRecv
    then show ?thesis
      using frame [of "put_step lb cx c up w"] h
      by (cases "put_chan w") (simp_all add: put_step_def backlog_def put_left_def)
  next
    case (PCheck f)
    with assms(2) have "put_step lb cx c up w = w\<lparr>put_task := PWork f 0\<rparr>" using h by (simp add: put_step_def)
    with PCheck frame [of "w\<lparr>put_task := PWork f 0\<rparr>"] show ?thesis by (simp add: backlog_def put_left_def)
  next
    case (PWork f n)
    obtain s where p: "put_once lb (fm_object_key (cp_meta f)) (cp_payload f) (wr_staging w) (wr_world w)
        = (Inr (), wr_staging w, s)"
      using sv unfolding services_def by blast
    let ?v = "(cleared n (cp_meta f) (w\<lparr>wr_staging := wr_staging w, wr_world := s\<rparr>))\<lparr>put_task := PLanded f\<rparr>"
    have "put_step lb cx c up w = ?v" using PWork h p by (simp add: put_step_def put_attempt_def)
    then show ?thesis
      using PWork frame [of ?v] by (simp add: backlog_def put_left_def)
  next
    case (PLanded f)
    then have "put_step lb cx c up w = w\<lparr>put_task := PRecord f\<rparr>" using h by (simp add: put_step_def)
    with PLanded frame [of "w\<lparr>put_task := PRecord f\<rparr>"] show ?thesis by (simp add: backlog_def put_left_def)
  next
    case (PRecord f)
    then show ?thesis
      using frame [of "put_step lb cx c up w"]
      by (simp add: put_step_def record_durable_def Let_def backlog_def put_left_def)
  next
    case (PLand f)
    then show ?thesis
      using frame [of "put_step lb cx c up w"]
      by (simp add: put_step_def set_progress_def Let_def backlog_def put_left_def)
  qed (use h in simp)
qed

lemma gzip_turn:
  assumes "healthy lb cx w"
  shows "healthy lb cx (gzip_step lb cx c None w)
    \<and> backlog (gzip_step lb cx c None w) \<le> backlog w
    \<and> (put_chan w = [] \<and> (gzip_task w \<noteq> GRecv \<or> gzip_chan w \<noteq> []) \<longrightarrow> backlog (gzip_step lb cx c None w) < backlog w)
    \<and> (gzip_task w = GRecv \<and> gzip_chan w = [] \<longrightarrow> gzip_step lb cx c None w = w)"
proof -
  have h: "put_task w \<noteq> PExit" "gzip_task w \<noteq> GExit" "render_task w \<noteq> RExit"
      "alive w" "fenced w = None" "renders lb cx w" "services lb (wr_staging w)"
    using assms(1) by (simp_all add: healthy_def running_def)
  show ?thesis
  proof (cases "gzip_task w")
    case GRecv
    then show ?thesis
      using h
      by (cases "gzip_chan w") (simp_all add: gzip_step_def backlog_def gzip_left_def healthy_def running_def renders_def)
  next
    case (GWork r n)
    obtain z where z: "gzip lb (rn_body r) = Inr z" using h(7) unfolding services_def by blast
    let ?v = "(cleared n (rn_meta r) w)\<lparr>gzip_task := GSend (compressed_of r z)\<rparr>"
    have v: "gzip_step lb cx c None w = ?v"
      using GWork h z by (simp add: gzip_step_def gzip_attempt_def gzip_once_def)
    show ?thesis
      unfolding v using GWork h
      by (simp add: backlog_def gzip_left_def healthy_def running_def renders_def)
  next
    case (GSend f)
    then show ?thesis
      using h
      by (cases "put_chan w = []") (simp_all add: gzip_step_def backlog_def gzip_left_def healthy_def running_def renders_def)
  qed (use h in simp)
qed

lemma render_turn:
  assumes "healthy lb cx w"
  shows "healthy lb cx (render_step lb cx c None w)
    \<and> backlog (render_step lb cx c None w) \<le> backlog w
    \<and> (gzip_chan w = [] \<and> (render_task w \<noteq> RRecv \<or> seal_queue w \<noteq> []) \<longrightarrow> backlog (render_step lb cx c None w) < backlog w)"
proof -
  have h: "put_task w \<noteq> PExit" "gzip_task w \<noteq> GExit" "render_task w \<noteq> RExit"
      "alive w" "fenced w = None" "renders lb cx w" "services lb (wr_staging w)"
    using assms(1) by (simp_all add: healthy_def running_def)
  show ?thesis
  proof (cases "render_task w")
    case RRecv
    then show ?thesis
      using h
      by (cases "seal_queue w") (simp_all add: render_step_def backlog_def render_left_def healthy_def running_def renders_def)
  next
    case (RWork s n)
    with h(6) obtain body rows where r: "render_once lb cx None (sl_batches s) = Inr (body, rows)"
      by (auto simp: renders_def)
    then show ?thesis
      using RWork h r
      by (simp add: render_step_def render_attempt_def Let_def backlog_def render_left_def healthy_def running_def renders_def)
  next
    case (RSend f)
    then show ?thesis
      using h
      by (cases "gzip_chan w = []") (simp_all add: render_step_def backlog_def render_left_def healthy_def running_def renders_def)
  qed (use h in simp)
qed

section \<open>Enough turns\<close>

lemma idle_backlog: "running w \<Longrightarrow> backlog w = 0 \<Longrightarrow> put_task w = PRecv \<and> put_chan w = [] \<and> gzip_task w = GRecv
    \<and> gzip_chan w = [] \<and> render_task w = RRecv \<and> seal_queue w = []"
  by (auto simp: backlog_def put_left_def gzip_left_def render_left_def running_def
      split: put_pc.splits gzip_pc.splits render_pc.splits)

lemma stage_step:
  "writer_reach lb cx w (writer_step lb cx (c, PutStep up) w)"
  "writer_reach lb cx w (writer_step lb cx (c, GzipStep j) w)"
  "writer_reach lb cx w (writer_step lb cx (c, RenderStep j) w)"
  by (rule reach_step [OF reach_refl], simp)+

lemma turn_reach: "writer_reach lb cx w (turn lb cx r w)"
  unfolding turn_def by (meson stage_step reach_trans)

lemma turn_progress:
  assumes "healthy lb cx w" and "sim cx w a" "spool_inv a"
  shows "healthy lb cx (turn lb cx r w)" and "backlog w \<noteq> 0 \<Longrightarrow> backlog (turn lb cx r w) < backlog w"
    and "backlog (turn lb cx r w) \<le> backlog w"
proof -
  obtain c up where r: "r = (c, up)" by fastforce
  let ?p = "put_step lb cx c up w" and ?g = "gzip_step lb cx c None (put_step lb cx c up w)"
  have t: "turn lb cx r w = render_step lb cx c None ?g" by (simp add: turn_def r)
  note p = put_turn [OF assms(1) sim_check_order [OF assms(2,3)], of c up]
  note g = gzip_turn [of lb cx ?p c] and rd = render_turn [of lb cx ?g c]
  show "healthy lb cx (turn lb cx r w)" using p g rd by (simp add: t)
  show "backlog (turn lb cx r w) \<le> backlog w" using p g rd by (simp add: t)
  show "backlog (turn lb cx r w) < backlog w" if nz: "backlog w \<noteq> 0"
  proof (cases "put_task w \<noteq> PRecv \<or> put_chan w \<noteq> []")
    case True
    with p g rd show ?thesis by (simp add: t)
  next
    case False
    with p have pw: "?p = w" by simp
    show ?thesis
    proof (cases "gzip_task w \<noteq> GRecv \<or> gzip_chan w \<noteq> []")
      case True
      with False p g rd pw show ?thesis by (simp add: t)
    next
      case False
      with g assms(1) have gw: "?g = w" by (simp add: pw)
      have "render_task w \<noteq> RRecv \<or> seal_queue w \<noteq> []"
        using nz False \<open>\<not> (put_task w \<noteq> PRecv \<or> put_chan w \<noteq> [])\<close>
        by (auto simp: backlog_def put_left_def gzip_left_def render_left_def)
      with rd assms(1) False show ?thesis by (simp add: t gw)
    qed
  qed
qed

lemma turns_reach: "writer_reach lb cx w (fold (turn lb cx) rs w)"
proof (induction rs arbitrary: w)
  case (Cons r rs)
  from reach_trans [OF Cons.IH [of "turn lb cx r w"] turn_reach] show ?case by simp
qed (simp add: reach_refl)

lemma turns_drain:
  assumes "healthy lb cx w" and "sim cx w a" "spool_inv a" and "backlog w \<le> length rs"
  shows "healthy lb cx (fold (turn lb cx) rs w) \<and> backlog (fold (turn lb cx) rs w) = 0"
  using assms
proof (induction rs arbitrary: w a)
  case (Cons r rs)
  let ?w = "turn lb cx r w"
  note p = turn_progress [OF Cons.prems(1-3), of r]
  from spool_later [OF Cons.prems(2,3) turn_reach] obtain b where b: "sim cx ?w b" "spool_inv b" by blast
  have "backlog ?w \<le> length rs" using p(2,3) Cons.prems(4) by (cases "backlog w = 0") auto
  from Cons.IH [OF p(1) b this] show ?case by simp
qed simp

text \<open>A drained pipeline has everything durable.\<close>

lemma drained_durable:
  assumes "sim cx w a" "spool_inv a" and "running w" and "backlog w = 0"
  shows "live w = []" and "durable_seq (wr_progress w) = last_sealed_seq (wr_state w)"
proof -
  note idle = idle_backlog [OF assms(3,4)]
  then show l: "live w = []" by (simp add: live_def put_files_def gzip_files_def render_files_def)
  have p: "sim_pipe w a" using assms(1) by (simp add: sim_def)
  with l assms(3) have "drop (sp_done a) (map fst (sp_sealed a)) = []" by (simp add: sim_pipe_def)
  then have d: "sp_done a = length (sp_sealed a)" using spool_inv_parts(5) [OF assms(2)] by simp
  have "landing w = None" using idle by (simp add: landing_def)
  with p d have "put_prev w = prev_at a (length (sp_sealed a))" by (simp add: sim_pipe_def sim_prev_def)
  with p sim_last_sealed [OF assms(1)] show "durable_seq (wr_progress w) = last_sealed_seq (wr_state w)"
    by (simp add: sim_pipe_def prev_at_def Let_def serial_of_def)
qed

section \<open>What a waiting call waits for\<close>

definition awaits_cut :: "'s writer \<Rightarrow> bool" where
  "awaits_cut w \<longleftrightarrow>
     (\<forall>t k q. calls w t = Some (AwaitFile k q) \<longrightarrow> (\<exists>s. last_sealed_seq (wr_state w) = Some s \<and> q \<le> s))"

lemma await_run:
  assumes "calls (run_pc lb cx c t b p w) t = Some (AwaitFile k q)" and "calls w t = Some p"
  shows "p = AwaitFile k q \<or> last_sealed_seq (wr_state (run_pc lb cx c t b p w)) = Some q"
proof (cases p)
  case (Cutting k')
  obtain r st where se: "seal cx c (aged_only k') (wr_state w) = (r, st)" by fastforce
  have f: "last_sealed_seq st = Some (fm_serial_seq (sl_meta f))" if "r = Inr (Some f)" for f
    using se that by (auto simp: seal_def Let_def split: if_splits sum.splits)
  show ?thesis
  proof (cases r)
    case (Inr so)
    then show ?thesis
      using assms(1) Cutting se f
      by (cases so; cases k') (auto simp: run_cut_def sealed_result_def split: if_splits)
  qed (use assms(1) Cutting se in \<open>cases k'; auto simp: run_cut_def sealed_result_def split: if_splits\<close>)
qed (use assms in \<open>auto simp: start_op_def start_append_def start_tick_def run_buffer_def run_lock_def run_reserve_def
       seal_gone_def run_unbuffer_def run_await_def run_persist_def run_write_state_def persisted_def flushed_def
       run_stop_heartbeat_def run_release_def sealed_result_def Let_def
       split: op.splits option.splits sum.splits prod.splits heartbeat_pc.splits purpose.splits if_splits\<close>)

lemma awaits_cut_step:
  assumes "awaits_cut w" and "sim cx w a" "spool_inv a" and "writer_allowed cx l w"
  shows "awaits_cut (writer_step lb cx l w)"
  unfolding awaits_cut_def
proof (intro allI impI)
  fix t k q assume c: "calls (writer_step lb cx l w) t = Some (AwaitFile k q)"
  have one: "writer_reach lb cx w (writer_step lb cx l w)" using assms(4) by (blast intro: reach.intros)
  have old: "\<exists>s. last_sealed_seq (wr_state (writer_step lb cx l w)) = Some s \<and> q \<le> s" if "calls w t = Some (AwaitFile k q)"
    using assms(1) that last_sealed_grows [OF assms(2,3) one] unfolding awaits_cut_def by (meson order_trans)
  show "\<exists>s. last_sealed_seq (wr_state (writer_step lb cx l w)) = Some s \<and> q \<le> s"
  proof (cases "\<exists>c b. l = (c, Run t b)")
    case True
    then obtain c' b where l: "l = (c', Run t b)" by blast
    show ?thesis
    proof (cases "calls w t")
      case (Some p)
      with c l have "calls (run_pc lb cx c' t b p w) t = Some (AwaitFile k q)" by (simp add: run_call_def)
      from await_run [OF this Some] Some old l show ?thesis by (auto simp: run_call_def)
    qed (use c l old in \<open>simp add: run_call_def\<close>)
  next
    case False
    then have "calls w t = Some (AwaitFile k q)"
      using c other_calls [of l t lb cx w] by (cases "\<exists>c o'. l = (c, Call t o')") auto
    with old show ?thesis by blast
  qed
qed

lemma awaits_cut_reach:
  assumes "writer_reach lb cx w0 w" and "opened cx w0"
  shows "awaits_cut w"
  using assms
proof (induction rule: reach.induct)
  case reach_refl
  then show ?case by (auto simp: awaits_cut_def opened_def writer_new_def)
next
  case (reach_step w l)
  from opened_reach [OF reach_step.prems reach_step.hyps(1)] obtain a where "sim cx w a" "spool_inv a" by blast
  with reach_step show ?case by (blast intro: awaits_cut_step)
qed

lemma stages_calls: "calls (fold (turn lb cx) rs w) = calls w"
proof (induction rs arbitrary: w)
  case (Cons r rs)
  have "calls (turn lb cx r w) = calls w" by (simp add: turn_def other_stages)
  with Cons show ?case by simp
qed simp

section \<open>Property\<close>

text \<open>
  C8. The pipeline drains and the flush returns. In any reachable state in which the writer is neither dropped
  nor fenced, no stage has stopped, and the renderer, gzip and the store answer, as many turns of the stages as the
  backlog counts carry every sealed file to durability: nothing is left in the pipeline, and the durable
  sequence number is that of the last sealed file. Every \<open>flush\<close> that waits for a file then returns the
  staged offset at its next two runs.
\<close>
theorem pipeline_drains:
  assumes "opened cx w0" and "writer_reach lb cx w0 w" and "healthy lb cx w"
    and "backlog w \<le> length rs" and "fold (turn lb cx) rs w = w'"
  shows "live w' = [] \<and> durable_seq (wr_progress w') = last_sealed_seq (wr_state w')
    \<and> (\<forall>t q. calls w t = Some (AwaitFile ForFlush q) \<longrightarrow>
         calls (run_call lb cx c2 t b2 (run_call lb cx c1 t b1 w')) t
           = Some (Finished (FlushDone (Inr (staged_offset (wr_state w'))))))"
proof -
  from opened_reach [OF assms(1,2)] obtain a where a: "sim cx w a" "spool_inv a" by blast
  have w': "writer_reach lb cx w w'" using turns_reach [of lb cx w rs] assms(5) by simp
  from spool_later [OF a w'] obtain b where b: "sim cx w' b" "spool_inv b" by blast
  from turns_drain [OF assms(3) a assms(4)] assms(5) have h: "running w'" "backlog w' = 0"
    by (auto simp: healthy_def)
  note d = drained_durable [OF b h]
  have "calls (run_call lb cx c2 t b2 (run_call lb cx c1 t b1 w')) t = Some (Finished (FlushDone (Inr (staged_offset (wr_state w')))))"
    if "calls w t = Some (AwaitFile ForFlush q)" for t q
  proof -
    have t: "calls w' t = Some (AwaitFile ForFlush q)" using that stages_calls [of lb cx rs w] assms(5) by simp
    have "awaits_cut w'" by (rule awaits_cut_reach [OF reach_trans [OF w' assms(2)] assms(1)])
    with t obtain s where "last_sealed_seq (wr_state w') = Some s" "q \<le> s" unfolding awaits_cut_def by blast
    with d(2) have "run_call lb cx c1 t b1 w' = goto t ReadOffset w'"
      using t by (simp add: run_call_def run_await_def flushed_def)
    then show ?thesis by (simp add: run_call_def)
  qed
  with d show ?thesis by blast
qed

theorem pipeline_drains_witness:
  "let w = fold (turn demo_libs demo_cx) (replicate 12 (demo_reading, True)) demo_waiting
   in live w = [] \<and> calls (run_call demo_libs demo_cx demo_reading 2 False
        (run_call demo_libs demo_cx demo_reading 2 False w)) 2
      = Some (Finished (FlushDone (Inr (staged_offset (wr_state w)))))"
proof -
  have "services demo_libs demo_handle" by (simp add: services_def demo_put gzip_def demo_libs_def)
  then have "healthy demo_libs demo_cx demo_waiting"
    using demo_render by (auto simp: healthy_def running_def renders_def demo_waiting_def demo_cut_def demo_writer_def writer_new_def)
  moreover have "backlog demo_waiting \<le> length (replicate 12 (demo_reading, True))"
    by (simp add: backlog_def put_left_def gzip_left_def render_left_def demo_waiting_def demo_cut_def demo_writer_def writer_new_def)
  moreover have "calls demo_waiting 2 = Some (AwaitFile ForFlush 3145728)" by (simp add: demo_waiting_def)
  ultimately show ?thesis
    using pipeline_drains [OF demo_opened demo_reaches(6) _ _ refl] unfolding Let_def by blast
qed

end
