(* ===== verification/Writer_Stops.thy ===== *)
theory Writer_Stops
  imports Writer_Barrier
begin

text \<open>
  How a writer stops: the states that end it (fence, order tripwire, a rotation that can never succeed) are
  never left, and each is reported by an alarm, at most once per cause and only ever for a worse one.
\<close>

section \<open>The failure entry\<close>

text \<open>
  A terminal entry is the one \<open>publish_terminal\<close> or \<open>pipeline_gone\<close> makes; an entry that may be cleared
  carries no cause.
\<close>

definition entry_ok :: "failing \<Rightarrow> bool" where
  "entry_ok f \<longleftrightarrow>
     (if is_terminal (fl_kind f) then fl_seq f = i64_min \<and> fl_permanent f
      else fl_kind f = Stage \<and> fl_cause f = None)"

definition progress_ok :: "progress \<Rightarrow> bool" where
  "progress_ok p \<longleftrightarrow> (case pr_failing p of Some f \<Rightarrow> entry_ok f | None \<Rightarrow> True)"

definition stays :: "progress \<Rightarrow> progress \<Rightarrow> bool" where
  "stays p p' \<longleftrightarrow>
     (\<forall>f. pr_failing p = Some f \<and> is_terminal (fl_kind f) \<longrightarrow> pr_failing p' = Some f)"

lemma stays_refl [simp]: "stays p p"
  by (simp add: stays_def)

lemma stays_trans: "stays p q \<Longrightarrow> stays q r \<Longrightarrow> stays p r"
  by (simp add: stays_def)






section \<open>Alarms\<close>

definition prio :: "error \<times> string \<Rightarrow> nat" where
  "prio a = fatal_priority (fst a)"

text \<open>The priority of the alarm that the stopped states call for.\<close>

definition due :: "'s writer \<Rightarrow> nat" where
  "due w =
     (if order_fatal w \<noteq> None then 0
      else if fenced w \<noteq> None then 1
      else case pr_failing (wr_progress w) of
             Some f \<Rightarrow> if fl_kind f = Rotation then 3 else 255
           | None \<Rightarrow> 255)"

definition alarms_ok :: "'s writer \<Rightarrow> bool" where
  "alarms_ok w \<longleftrightarrow>
     sorted_wrt (>) (map prio (alarms w)) \<and> (\<forall>a \<in> set (alarms w). prio a \<le> 3)
     \<and> alarm_raised w = (if alarms w = [] then 255 else prio (last (alarms w)))"





section \<open>What a step may do\<close>

definition stop_inv :: "'s writer \<Rightarrow> bool" where
  "stop_inv w \<longleftrightarrow> progress_ok (wr_progress w) \<and> alarms_ok w \<and> alarm_raised w \<le> due w"

definition keeps :: "'a option \<Rightarrow> 'a option \<Rightarrow> bool" where
  "keeps x y \<longleftrightarrow> (\<forall>a. x = Some a \<longrightarrow> y = Some a)"

definition stops_grow :: "'s writer \<Rightarrow> 's writer \<Rightarrow> bool" where
  "stops_grow w w' \<longleftrightarrow>
     keeps (fenced w) (fenced w') \<and> keeps (order_fatal w) (order_fatal w')
     \<and> stays (wr_progress w) (wr_progress w') \<and> prefix (alarms w) (alarms w')"

definition safe :: "'s writer \<Rightarrow> 's writer \<Rightarrow> bool" where
  "safe w w' \<longleftrightarrow> stop_inv w' \<and> stops_grow w w'"

lemma keeps_refl [simp]: "keeps x x"
  by (simp add: keeps_def)


lemma stops_grow_trans: "stops_grow u v \<Longrightarrow> stops_grow v w \<Longrightarrow> stops_grow u w"
  unfolding stops_grow_def keeps_def using stays_trans prefix_order.trans by blast


text \<open>Nothing that concerns the stop changes.\<close>

lemma safe_same:
  assumes "stop_inv w" and "fenced w' = fenced w" "order_fatal w' = order_fatal w"
    "wr_progress w' = wr_progress w" "alarms w' = alarms w" "alarm_raised w' = alarm_raised w"
  shows "safe w w'"
proof -
  have "due w' = due w" unfolding due_def assms(2-4) by (rule refl)
  moreover have "alarms_ok w' = alarms_ok w" unfolding alarms_ok_def assms(5,6) by (rule refl)
  ultimately show ?thesis using assms by (simp add: safe_def stop_inv_def stops_grow_def)
qed





section \<open>The steps\<close>









text \<open>A step that only moves tasks on.\<close>

lemma safe_then:
  assumes "safe w v" and "fenced v' = fenced v" "order_fatal v' = order_fatal v"
    "wr_progress v' = wr_progress v" "alarms v' = alarms v" "alarm_raised v' = alarm_raised v"
  shows "safe w v'"
  using assms(1) safe_same [of v v'] assms(2-) by (auto simp: safe_def intro: stops_grow_trans)

section \<open>The files of a writer\<close>

definition files :: "'s writer \<Rightarrow> file_meta set" where
  "files w = set (put_files (put_task w)) \<union> cp_meta ` set (put_chan w) \<union> set (gzip_files (gzip_task w))
     \<union> rn_meta ` set (gzip_chan w) \<union> set (render_files (render_task w)) \<union> sl_meta ` set (seal_queue w)"



lemma files_update [simp]:
  "files (w\<lparr>wr_state := st\<rparr>) = files w" "files (w\<lparr>wr_notifier := n\<rparr>) = files w"
  "files (w\<lparr>wr_world := s\<rparr>) = files w" "files (w\<lparr>wr_staging := sh\<rparr>) = files w" "files (w\<lparr>calls := cs\<rparr>) = files w"
  "files (w\<lparr>seal_lock := sl\<rparr>) = files w" "files (w\<lparr>permit := b\<rparr>) = files w"
  "files (w\<lparr>wr_progress := p\<rparr>) = files w" "files (w\<lparr>ticker_on := b\<rparr>) = files w"
  "files (w\<lparr>gc_on := b\<rparr>) = files w" "files (w\<lparr>lag_on := b\<rparr>) = files w" "files (w\<lparr>wr_lag := lg\<rparr>) = files w"
  "files (w\<lparr>hb_pc := h\<rparr>) = files w" "files (w\<lparr>hb_since := d\<rparr>) = files w" "files (w\<lparr>hb_verified := i\<rparr>) = files w"
  "files (w\<lparr>hb_stop := b\<rparr>) = files w" "files (w\<lparr>alive := b\<rparr>) = files w" "files (w\<lparr>fenced := fe\<rparr>) = files w"
  "files (raise_stream_stopped cx c w) = files w" "files (goto t pc w) = files w"
  "files (seal_return t k r w) = files w" "files (fence cx c reason w) = files w"
  by (simp_all add: files_def goto_def seal_return_def unlock_def fence_def)








section \<open>Every step is safe\<close>







text \<open>The calls change nothing of this but where they find the pipeline gone.\<close>

lemma safe_goto [simp]: "safe w (goto t p v) \<longleftrightarrow> safe w v"
  unfolding goto_def by (auto elim: safe_then)

lemma safe_seal_return [simp]: "safe w (seal_return t k r v) \<longleftrightarrow> safe w v"
  unfolding seal_return_def unlock_def by (auto elim: safe_then)




section \<open>The machine never leaves a stop\<close>











section \<open>Properties\<close>





end
