(* ===== verification/Resume_Records.thy ===== *)
theory Resume_Records
  imports Writer_Announce Writer_Barrier
begin

text \<open>
  Which offsets a writer may write into its state object as the one to resume after: the one it wrote last,
  one on its way to the store, and those that the notifier has confirmed or will confirm. Only the file that
  the upload stage records adds to them.
\<close>

definition records :: "writer_ctx \<Rightarrow> 's writer \<Rightarrow> i64 set" where
  "records cx w =
     {x. resume_persisted (wr_state w) = Some x}
     \<union> {x. \<exists>t k sf. calls w t = Some (WritingState k sf) \<and> resume_offset sf = Some x}
     \<union> nr_end_offset ` set (Notify_Queue.pending (wr_notifier w) (group_of cx))
     \<union> {x. \<exists>s. nt_confirmed (wr_notifier w) (group_of cx) = Some (s, x)}"

lemma records_in:
  "resume_persisted (wr_state w) = Some x \<Longrightarrow> x \<in> records cx w"
  "calls w t = Some (WritingState k sf) \<Longrightarrow> resume_offset sf = Some x \<Longrightarrow> x \<in> records cx w"
  "r \<in> set (Notify_Queue.pending (wr_notifier w) (group_of cx)) \<Longrightarrow> nr_end_offset r \<in> records cx w"
  "nt_confirmed (wr_notifier w) (group_of cx) = Some (s, x) \<Longrightarrow> x \<in> records cx w"
  by (auto simp: records_def)

lemma records_subset:
  assumes "\<And>x. resume_persisted (wr_state v) = Some x \<Longrightarrow> x \<in> A"
    and "\<And>t k sf x. calls v t = Some (WritingState k sf) \<Longrightarrow> resume_offset sf = Some x \<Longrightarrow> x \<in> A"
    and "\<And>r. r \<in> set (Notify_Queue.pending (wr_notifier v) (group_of cx)) \<Longrightarrow> nr_end_offset r \<in> A"
    and "\<And>s x. nt_confirmed (wr_notifier v) (group_of cx) = Some (s, x) \<Longrightarrow> x \<in> A"
  shows "records cx v \<subseteq> A"
  using assms unfolding records_def by blast

lemma records_cong:
  assumes "resume_persisted (wr_state v) = resume_persisted (wr_state w)" and "wr_notifier v = wr_notifier w"
    and "\<And>t k sf x. calls v t = Some (WritingState k sf) \<Longrightarrow> resume_offset sf = Some x \<Longrightarrow> x \<in> records cx w"
  shows "records cx v \<subseteq> records cx w"
  using assms unfolding records_def by auto

section \<open>Frames\<close>

lemma persisted_run:
  assumes "\<And>k sf. p \<noteq> WritingState k sf"
  shows "resume_persisted (wr_state (run_pc lb cx c t b p w)) = resume_persisted (wr_state w)
    \<and> wr_notifier (run_pc lb cx c t b p w) = wr_notifier w"
proof (cases p)
  case (Start o')
  then show ?thesis
    by (cases o') (simp_all add: start_op_def start_append_def start_tick_def goto_def)
next
  case (Buffering batch s e)
  then show ?thesis
    by (auto simp: run_buffer_def goto_def push_batch_def Let_def split: prod.splits sum.splits option.splits if_splits)
next
  case (Unbuffering s e prev err)
  then show ?thesis
    by (auto simp: run_unbuffer_def goto_def unbuffer_def Let_def split: prod.splits option.splits)
next
  case (Cutting k)
  then show ?thesis
    by (auto simp: run_cut_def seal_def roll_epoch_def seal_return_def unlock_def goto_def Let_def
        split: prod.splits sum.splits option.splits if_splits)
next
  case (AwaitFile k q)
  then show ?thesis by (simp add: run_await_def goto_def split: option.splits)
qed (use assms in \<open>auto simp: run_lock_def run_reserve_def seal_gone_def run_persist_def Let_def goto_def seal_return_def
      unlock_def run_stop_heartbeat_def run_release_def split: option.splits prod.splits sum.splits heartbeat_pc.splits\<close>)

lemma writing_run:
  assumes "calls (run_pc lb cx c t b p w) t = Some (WritingState k sf)" and "calls w t = Some p"
    and "resume_offset sf = Some x"
  shows "x \<in> records cx w"
proof (cases p)
  case (Persisting k')
  with assms(1) have "resume_offset sf = resume_of (map_option snd (confirmed (wr_notifier w) (group_of cx))) (resume_persisted (wr_state w))"
    by (auto simp: run_persist_def goto_def persisted_def Let_def writer_state_file_def split: if_splits)
  with assms(3) show ?thesis
    by (auto simp: resume_of_def records_def confirmed_def max_def split: option.splits if_splits)
next
  case (WritingState k' sf')
  then show ?thesis
    using assms by (auto simp: run_write_state_def goto_def persisted_def split: prod.splits sum.splits if_splits)
next
  case (Cutting k')
  then show ?thesis
    using assms(1) by (cases k') (auto simp: run_cut_def seal_return_def goto_def unlock_def sealed_result_def Let_def
      split: prod.splits sum.splits option.splits if_splits)
qed (use assms in \<open>auto simp: start_op_def start_append_def start_tick_def run_buffer_def run_lock_def run_reserve_def
       seal_gone_def seal_return_def unlock_def goto_def run_unbuffer_def run_await_def flushed_def
       run_stop_heartbeat_def run_release_def sealed_result_def Let_def
       split: op.splits option.splits sum.splits prod.splits heartbeat_pc.splits purpose.splits if_splits\<close>)

lemma persisted_others:
  assumes "\<And>t b. ev \<noteq> Run t b" and "\<And>b. ev \<noteq> PutStep b" and "\<And>e. ev \<noteq> Board e"
  shows "resume_persisted (wr_state (writer_step lb cx (c, ev) w)) = resume_persisted (wr_state w)
    \<and> wr_notifier (writer_step lb cx (c, ev) w) = wr_notifier w"
proof -
  have f: "wr_state (fenced_exit cx c v) = wr_state v" "wr_state (fence_and_exit cx c r v) = wr_state v"
      "wr_state (cleared n m v) = wr_state v" "wr_state (set_progress g v) = wr_state v"
      "wr_notifier (fenced_exit cx c v) = wr_notifier v" "wr_notifier (fence_and_exit cx c r v) = wr_notifier v"
      "wr_notifier (cleared n m v) = wr_notifier v" "wr_notifier (set_progress g v) = wr_notifier v"
    for v :: "'s writer" and r n m g
    by (simp_all add: fenced_exit_def fence_and_exit_def fence_def set_progress_def cleared_def)
  show ?thesis
    using assms
    by (cases ev)
       (auto simp: f goto_def render_step_def render_attempt_def gzip_step_def gzip_attempt_def
         attempt_failed_def Let_def heartbeat_step_def heartbeat_tick_def
         heartbeat_renew_def gc_step_def lag_step_def lag_sample_def
         split: render_pc.splits gzip_pc.splits heartbeat_pc.splits list.splits option.splits
           prod.splits sum.splits)
qed

lemma persisted_put:
  "resume_persisted (wr_state (put_step lb cx c b w)) = resume_persisted (wr_state w)
   \<and> wr_notifier (put_step lb cx c b w) =
       (case put_task w of
          PRecord f \<Rightarrow> snd (enqueue b (file_request cx (url_base (current (wr_staging w))) (cp_meta f)) (wr_notifier w))
        | _ \<Rightarrow> wr_notifier w)"
proof -
  have f: "wr_state (fenced_exit cx c v) = wr_state v" "wr_notifier (fenced_exit cx c v) = wr_notifier v"
      "wr_state (cleared n m v) = wr_state v" "wr_notifier (cleared n m v) = wr_notifier v"
      "wr_state (set_progress g v) = wr_state v" "wr_notifier (set_progress g v) = wr_notifier v"
    for v :: "'s writer" and n m g
    by (simp_all add: fenced_exit_def set_progress_def cleared_def)
  show ?thesis
    by (cases "put_task w")
       (auto simp: f put_step_def put_attempt_def attempt_failed_def Let_def record_durable_def trip_order_fatal_def
         split: list.splits sum.splits prod.splits)
qed

section \<open>One step\<close>

lemma records_run:
  assumes "calls w t = Some p"
  shows "records cx (run_pc lb cx c t b p w) \<subseteq> records cx w"
proof -
  let ?w = "run_pc lb cx c t b p w"
  have wr: "x \<in> records cx w" if "calls ?w t' = Some (WritingState k sf)" "resume_offset sf = Some x" for t' k sf x
  proof (cases "t' = t")
    case True
    with writing_run [OF _ assms that(2)] that(1) show ?thesis by blast
  next
    case False
    with that other_pc [of t t' lb cx c b p w] show ?thesis by (auto simp: records_def)
  qed
  show ?thesis
  proof (cases "\<exists>k sf. p = WritingState k sf")
    case True
    then obtain k sf where p: "p = WritingState k sf" by blast
    have "wr_notifier ?w = wr_notifier w"
      by (auto simp: p run_write_state_def goto_def split: prod.splits sum.splits)
    moreover have "resume_persisted (wr_state ?w) \<in> {resume_persisted (wr_state w), resume_offset sf}"
      by (auto simp: p run_write_state_def goto_def split: prod.splits sum.splits)
    moreover have "x \<in> records cx w" if "resume_offset sf = Some x" for x
      using assms p that by (auto intro: records_in)
    ultimately show ?thesis
      by (intro records_subset) (auto intro: records_in wr)
  next
    case False
    with persisted_run [of p lb cx c t b w] wr show ?thesis by (intro records_cong) auto
  qed
qed

lemma records_board:
  assumes "board_inv n" and "\<And>r. ev = Enqueue r \<Longrightarrow> nr_group r \<noteq> g"
  shows "set (Notify_Queue.pending (board_step ev n) g) \<subseteq> set (Notify_Queue.pending n g)
    \<and> (nt_confirmed (board_step ev n) g = nt_confirmed n g
       \<or> (\<exists>r \<in> set (Notify_Queue.pending n g). nt_confirmed (board_step ev n) g = Some (nr_serial_seq r, nr_end_offset r)))"
proof (cases ev)
  case (Loop e)
  show ?thesis
  proof (cases "settled e n")
    case None
    with loop_unsettled [OF None] Loop show ?thesis by simp
  next
    case (Some x)
    then obtain h r out where s: "settled e n = Some (h, r, out)" by (metis prod_cases3)
    from loop_settled [OF s] obtain rest where p: "Notify_Queue.pending n h = r # rest"
      "\<And>g. Notify_Queue.pending (notify_loop e n) g = (if g = h then rest else Notify_Queue.pending n g)" by blast
    show ?thesis
      using p settled_confirmed [OF assms(1) s] Loop by (cases "g = h") (auto split: submit_outcome.splits)
  qed
next
  case (Enqueue r)
  with assms(2) show ?thesis by (simp add: pending_enqueue)
next
  case (Clear h)
  then show ?thesis by (simp add: Notify_Queue.pending_def)
qed

lemma records_step:
  assumes "board_inv (wr_notifier w)" and "writer_allowed cx l w" and "x \<in> records cx (writer_step lb cx l w)"
  shows "x \<in> records cx w \<or> (\<exists>f. spool_event_of lb cx l w = Some Landed \<and> put_task w = PRecord f
    \<and> x = end_offset (fm_file (cp_meta f)))"
proof -
  obtain c ev where l: "l = (c, ev)" by fastforce
  show ?thesis
  proof (cases ev)
    case (Run t b)
    with assms(3) records_run [of w t _ cx lb c b] show ?thesis
      by (cases "calls w t") (auto simp: l run_call_def)
  next
    case (PutStep b)
    have calls: "calls (put_step lb cx c b w) = calls w" by (rule other_stages(3))
    show ?thesis
    proof (cases "\<exists>f. put_task w = PRecord f")
      case True
      then obtain f where f: "put_task w = PRecord f" by blast
      with assms(3) persisted_put [of lb cx c b w] calls show ?thesis
        by (auto simp: l PutStep records_def pending_enqueue file_request_def put_event_def split: if_splits)
    next
      case False
      then have "records cx (put_step lb cx c b w) \<subseteq> records cx w"
        using persisted_put [of lb cx c b w] calls
        by (intro records_cong) (auto simp: records_def split: put_pc.splits)
      with assms(3) show ?thesis by (auto simp: l PutStep)
    qed
  next
    case (Board e)
    have "\<And>r. e = Enqueue r \<Longrightarrow> nr_group r \<noteq> group_of cx" using assms(2) by (auto simp: l Board)
    with assms(1) have b: "set (Notify_Queue.pending (board_step e (wr_notifier w)) (group_of cx))
        \<subseteq> set (Notify_Queue.pending (wr_notifier w) (group_of cx))"
      "nt_confirmed (board_step e (wr_notifier w)) (group_of cx) = nt_confirmed (wr_notifier w) (group_of cx)
       \<or> (\<exists>r \<in> set (Notify_Queue.pending (wr_notifier w) (group_of cx)).
            nt_confirmed (board_step e (wr_notifier w)) (group_of cx) = Some (nr_serial_seq r, nr_end_offset r))"
      using records_board [of "wr_notifier w" e "group_of cx"] by blast+
    have "records cx (writer_step lb cx l w) \<subseteq> records cx w"
      by (rule records_subset) (use b in \<open>auto simp: l Board intro: records_in records_in(4) [OF sym]\<close>)
    with assms(3) show ?thesis by blast
  next
    case (Call t o')
    have "records cx (writer_step lb cx l w) \<subseteq> records cx w"
      by (rule records_cong) (auto simp: l Call goto_def records_def split: if_splits)
    with assms(3) show ?thesis by blast
  qed (use assms(3) persisted_others [of ev lb cx c w] other_calls [of l _ lb cx w] in \<open>auto simp: l records_def\<close>)
qed

end
