(* ===== verification/Client_Open.thy ===== *)
theory Client_Open
  imports Writer_Machine
begin

text \<open>
  \<open>Client::open_table\<close> of \<open>src/client.rs\<close>: the writer lease, the recovery handshake, the session epoch, and
  the writer it starts.

  The environment of a call: \<open>clock i\<close> is the reading after the \<open>i\<close>-th look at the lease and \<open>others i\<close> what
  other processes have done to the store by then. A look that finds a live holder sleeps and looks again;
  the loop is bounded by fuel, and running out of it is the answer \<open>Waiting\<close>.
\<close>

datatype 'a run = Finished_run "'a result" | Panicked string | Waiting

section \<open>The lease\<close>

definition ACQUIRE_WAIT :: duration where "ACQUIRE_WAIT = from_secs 10"

definition msg_locked :: "client_config \<Rightarrow> machine_env \<Rightarrow> writer_identity \<Rightarrow> lock_file \<Rightarrow> string" where
  "msg_locked cfg m ident cur =
     lock_describe m cur @ '' at `'' @ lock_key ident @ ''` '' @ [CHR 0xE2, CHR 0x80, CHR 0x94]
     @ '' another process is writing this (table, writer_id); stop it, or wait out the lease (''
     @ show_nat (as_secs (lock_lease_timeout cfg))
     @ ''s), or delete the lock object after confirming the holder is dead''"

definition msg_race :: "machine_env \<Rightarrow> writer_identity \<Rightarrow> lock_file \<Rightarrow> string" where
  "msg_race m ident l = ''lost the acquire race: '' @ lock_describe m l @ '' at `'' @ lock_key ident @ ''`''"

definition msg_vanished :: "writer_identity \<Rightarrow> string" where
  "msg_vanished ident =
     ''lock at `'' @ lock_key ident @ ''` vanished during acquire (concurrent force-release?); retry''"

text \<open>The lease is held by another instance, fresh, and its process may be alive.\<close>

definition lease_ms :: "client_config \<Rightarrow> u64" where
  "lease_ms cfg = of_nat (as_millis (lock_lease_timeout cfg))"

definition held_live :: "client_config \<Rightarrow> string \<Rightarrow> machine_env \<Rightarrow> lock_file \<Rightarrow> bool" where
  "held_live cfg me m cur \<longleftrightarrow>
     instance_uuid cur \<noteq> me \<and> \<not> is_stale m cur (lease_ms cfg) \<and> \<not> provably_dead_on_this_host m cur"

fun acquire_poll ::
  "nat \<Rightarrow> nat \<Rightarrow> 's operator \<Rightarrow> json_api \<Rightarrow> writer_identity \<Rightarrow> string \<Rightarrow> client_config \<Rightarrow> (nat \<Rightarrow> reading)
     \<Rightarrow> (nat \<Rightarrow> 's \<Rightarrow> 's) \<Rightarrow> instant \<Rightarrow> 's \<Rightarrow> (unit result \<times> nat \<times> 's) option" where
  "acquire_poll 0 i oper j ident me cfg clock others started s = None"
| "acquire_poll (Suc fuel) i oper j ident me cfg clock others started s =
     (case read_lock oper j ident (others i s) of
        (Inl e, s1) \<Rightarrow> Some (Inl e, i, s1)
      | (Inr None, s1) \<Rightarrow> Some (Inr (), i, s1)
      | (Inr (Some cur), s1) \<Rightarrow>
          let m = machine (clock i)
          in if \<not> held_live cfg me m cur then Some (Inr (), i, s1)
             else if elapsed (mono (clock i)) started \<ge> ACQUIRE_WAIT then
               Some (Inl (WriterLocked (msg_locked cfg m ident cur)), i, s1)
             else acquire_poll fuel (Suc i) oper j ident me cfg clock others started s1)"

definition acquire_writer_lease ::
  "nat \<Rightarrow> 's operator \<Rightarrow> json_api \<Rightarrow> writer_identity \<Rightarrow> string \<Rightarrow> client_config \<Rightarrow> (nat \<Rightarrow> reading)
     \<Rightarrow> (nat \<Rightarrow> 's \<Rightarrow> 's) \<Rightarrow> instant \<Rightarrow> 's \<Rightarrow> (unit result \<times> 's) option" where
  "acquire_writer_lease fuel oper j ident me cfg clock others started s =
     (case acquire_poll fuel 0 oper j ident me cfg clock others started s of
        None \<Rightarrow> None
      | Some (Inl e, i, s1) \<Rightarrow> Some (Inl e, s1)
      | Some (Inr _, i, s1) \<Rightarrow>
          (case write_lock oper j ident (lock_new (machine (clock i)) me) s1 of
             (Inl e, s2) \<Rightarrow> Some (Inl e, s2)
           | (Inr _, s2) \<Rightarrow>
               (case read_lock oper j ident (others (Suc i) s2) of
                  (Inl e, s3) \<Rightarrow> Some (Inl e, s3)
                | (Inr None, s3) \<Rightarrow> Some (Inl (WriterLocked (msg_vanished ident)), s3)
                | (Inr (Some l), s3) \<Rightarrow>
                    if instance_uuid l = me then Some (Inr (), s3)
                    else Some (Inl (WriterLocked (msg_race (machine (clock (Suc i))) ident l)), s3))))"

section \<open>Recovery under the lease\<close>

definition msg_foreign_state :: "writer_identity \<Rightarrow> state_file \<Rightarrow> string \<Rightarrow> string" where
  "msg_foreign_state ident st database =
     ''writer state at `'' @ state_key ident @ ''` was written by cluster='' @ sf_cluster_id st @ '' db=''
     @ sf_database st @ '' writer='' @ sf_writer_id st @ '' but this session resolves to cluster=''
     @ cluster_id ident @ '' db='' @ database @ '' writer='' @ writer_id ident @ '' ''
     @ [CHR 0xE2, CHR 0x80, CHR 0x94]
     @ '' two clusters/databases are sharing one staging prefix; fix the prefix (or delete the state ''
     @ ''object if this is intentional)''"

definition state_is_foreign :: "writer_identity \<Rightarrow> string \<Rightarrow> state_file \<Rightarrow> bool" where
  "state_is_foreign ident database st \<longleftrightarrow>
     sf_cluster_id st \<noteq> cluster_id ident \<or> sf_writer_id st \<noteq> writer_id ident \<or> sf_database st \<noteq> database"

definition check_state :: "writer_identity \<Rightarrow> string \<Rightarrow> state_file option \<Rightarrow> unit result" where
  "check_state ident database state =
     (case state of
        Some st \<Rightarrow>
          if state_is_foreign ident database st
          then Inl (Config (msg_foreign_state ident st database)) else Inr ()
      | None \<Rightarrow> Inr ())"

definition watermark_of :: "pg_error + i64 option \<Rightarrow> i64 option result" where
  "watermark_of r =
     (case r of
        Inr w \<Rightarrow> Inr w
      | Inl e \<Rightarrow> if is_undefined_function e then Inr None else Inl (Database e))"

text \<open>The resume offset of the plan, raised by what the state recorded.\<close>

definition raise_resume :: "state_file option \<Rightarrow> recovery_plan \<Rightarrow> recovery_plan" where
  "raise_resume state plan =
     (case state of
        Some st \<Rightarrow>
          (case resume_offset st of
             Some rec \<Rightarrow>
               plan\<lparr>kafka_resume_offset := Some (case kafka_resume_offset plan of
                      Some v \<Rightarrow> max v (wrap_i64 (rec + 1)) | None \<Rightarrow> wrap_i64 (rec + 1))\<rparr>
           | None \<Rightarrow> plan)
      | None \<Rightarrow> plan)"

text \<open>What the session epoch must exceed: staged files, the watermark, the recorded epoch.\<close>

definition epoch_anchor ::
  "(u64 \<times> u32) option \<Rightarrow> i64 option \<Rightarrow> state_file option \<Rightarrow> (u64 \<times> u32) option" where
  "epoch_anchor newest watermark state =
     (let a1 = (case watermark of
                  None \<Rightarrow> newest
                | Some w \<Rightarrow>
                    (case newest of
                       None \<Rightarrow> Some (decode_serial_seq w)
                     | Some t \<Rightarrow> if decode_serial_seq w > t then Some (decode_serial_seq w) else newest))
      in case state of
           None \<Rightarrow> a1
         | Some st \<Rightarrow>
             (case a1 of
                None \<Rightarrow> Some (max_epoch_used st, 0)
              | Some (e, _) \<Rightarrow> if max_epoch_used st > e then Some (max_epoch_used st, 0) else a1))"

definition backfill_request ::
  "client_config \<Rightarrow> writer_identity \<Rightarrow> string \<Rightarrow> staged_file \<Rightarrow> string \<Rightarrow> i64 \<Rightarrow> notify_request" where
  "backfill_request cfg ident base f identifier sq =
     \<lparr>nr_group = serial_group ident, nr_end_offset = end_offset f, nr_identifier = identifier,
      nr_source_url = base @ ''/'' @ object_key f ident, nr_target = rel_oid ident,
      nr_delimiter = delimiter (csv cfg), nr_upsert = (cfg_stream_mode cfg = Upsert), nr_serial_seq = sq,
      nr_retry_max = (case retry_max cfg of Some r \<Rightarrow> Some r | None \<Rightarrow> Some (- 1))\<rparr>"

fun enqueue_backfill ::
  "client_config \<Rightarrow> writer_identity \<Rightarrow> string \<Rightarrow> bool \<Rightarrow> staged_file list \<Rightarrow> notifier \<Rightarrow> unit result \<times> notifier" where
  "enqueue_backfill cfg ident base up [] n = (Inr (), n)"
| "enqueue_backfill cfg ident base up (f # fs) n =
     (case job_identifier f ident of
        Inl e \<Rightarrow> (Inl e, n)
      | Inr identifier \<Rightarrow>
     (case serial_seq f of
        Inl e \<Rightarrow> (Inl e, n)
      | Inr sq \<Rightarrow>
     (case enqueue up (backfill_request cfg ident base f identifier sq) n of
        (Inl e, n') \<Rightarrow> (Inl e, n')
      | (Inr _, n') \<Rightarrow> enqueue_backfill cfg ident base up fs n')))"

definition session_state ::
  "writer_identity \<Rightarrow> string \<Rightarrow> string \<Rightarrow> string \<Rightarrow> state_file option \<Rightarrow> u64 \<Rightarrow> u64 \<Rightarrow> state_file" where
  "session_state ident database schema_name table_name state epoch now =
     \<lparr>sf_v = STATE_VERSION, resume_offset = Option.bind state resume_offset, max_epoch_used = epoch,
      sf_cluster_id = cluster_id ident, sf_database = database, sf_schema = schema_name,
      sf_table = table_name, sf_writer_id = writer_id ident, updated_at_ms = now\<rparr>"

definition known_at_open :: "staged_file list \<Rightarrow> (i64 \<times> u64) list" where
  "known_at_open fs =
     concat (map (\<lambda>f. case serial_seq f of Inr sq \<Rightarrow> [(sq, epoch_ms f)] | Inl _ \<Rightarrow> []) fs)"

text \<open>From the plan on: the epoch, the state object, the backfill, the writer.\<close>

definition start_session ::
  "'s libs \<Rightarrow> client_config \<Rightarrow> 's operator staging_handle \<Rightarrow> bool \<Rightarrow> table_schema \<Rightarrow> writer_identity \<Rightarrow> string
     \<Rightarrow> string \<times> string \<times> string \<Rightarrow> reading \<Rightarrow> state_file option \<Rightarrow> i64 option \<Rightarrow> recovery_plan \<Rightarrow> notifier \<Rightarrow> 's
     \<Rightarrow> ('s writer \<times> writer_ctx \<times> recovery_plan) run \<times> notifier \<times> 's" where
  "start_session lb cfg h up sch ident uuid names c state watermark plan n s =
     (case wall_clock (machine c) of
        None \<Rightarrow> (Panicked ''clock before epoch'', n, s)
      | Some now \<Rightarrow>
          let epoch = next_epoch now (epoch_anchor (max_staged plan) watermark state);
              new_state = session_state ident (fst names) (fst (snd names)) (snd (snd names)) state epoch now
          in case encode_serial_seq epoch 0 of
               Inl e \<Rightarrow> (Finished_run (Inl e), n, s)
             | Inr _ \<Rightarrow>
          (case write_state (live_store (current h)) (json lb) ident new_state s of
             (Inl e, s') \<Rightarrow> (Finished_run (Inl e), n, s')
           | (Inr _, s') \<Rightarrow>
          (case enqueue_backfill cfg ident (url_base (current h)) up (backfill plan) n of
             (Inl e, n') \<Rightarrow> (Finished_run (Inl e), n', s')
           | (Inr _, n') \<Rightarrow>
               let cx = \<lparr>wx_schema = sch, wx_ident = ident, wx_names = names, wx_cfg = cfg, wx_uuid = uuid\<rparr>;
                   staged = map_option (\<lambda>v. wrap_i64 (v - 1)) (kafka_resume_offset plan)
               in (Finished_run (Inr (writer_new cx h n' s' epoch staged (resume_offset new_state)
                     (known_at_open (backfill plan)) (mono c), cx, plan)), n', s'))))"

definition open_table_locked ::
  "'s libs \<Rightarrow> client_config \<Rightarrow> 's operator staging_handle \<Rightarrow> bool \<Rightarrow> string \<Rightarrow> table_schema \<Rightarrow> writer_identity
     \<Rightarrow> string \<Rightarrow> reading \<Rightarrow> notifier \<Rightarrow> 's
     \<Rightarrow> ('s writer \<times> writer_ctx \<times> recovery_plan) run \<times> notifier \<times> 's" where
  "open_table_locked lb cfg h up table sch ident uuid c n0 s0 =
     (let n = snd (clear_fatal (serial_group ident) n0); oper = live_store (current h)
      in case read_state oper (json lb) ident s0 of
           (Inl e, s1) \<Rightarrow> (Finished_run (Inl e), n, s1)
         | (Inr state, s1) \<Rightarrow>
      (case split_qualified table of
           Inl e \<Rightarrow> (Finished_run (Inl e), n, s1)
         | Inr (schema_name, table_name) \<Rightarrow>
      (case query_database (control lb) s1 of
           (Inl e, s2) \<Rightarrow> (Finished_run (Inl (Database e)), n, s2)
         | (Inr database, s2) \<Rightarrow>
      (case check_state ident database state of
           Inl e \<Rightarrow> (Finished_run (Inl e), n, s2)
         | Inr _ \<Rightarrow>
      (case query_watermark (control lb) (serial_group ident) s2 of (wr, s3) \<Rightarrow>
      (case watermark_of wr of
           Inl e \<Rightarrow> (Finished_run (Inl e), n, s3)
         | Inr watermark \<Rightarrow>
      (case list_staged oper ident s3 of
           (Inl e, s4) \<Rightarrow> (Finished_run (Inl e), n, s4)
         | (Inr (staged, unknown), s4) \<Rightarrow>
      (case plan_recovery staged watermark of
           Inl e \<Rightarrow> (Finished_run (Inl e), n, s4)
         | Inr plan \<Rightarrow>
             start_session lb cfg h up sch ident uuid (database, schema_name, table_name) c state watermark
               (raise_resume state plan) n s4))))))))"

section \<open>open_table\<close>

definition msg_no_pk :: string where
  "msg_no_pk =
     ''upsert mode requires the target table to have a primary key ''
     @ ''(use StreamMode::InsertOnly for tables without one)''"

definition check_mode :: "'s libs \<Rightarrow> client_config \<Rightarrow> table_schema \<Rightarrow> unit result" where
  "check_mode lb cfg sch =
     (if cfg_stream_mode cfg = Upsert then
        if pk sch = [] then Inl (Schema msg_no_pk) else validate_pk_for_dedup (debug_type lb) sch
      else Inr ())"

text \<open>The lease goes back when the open fails, if it is still ours; nobody looks at the result.\<close>

definition open_table ::
  "'s libs \<Rightarrow> 's client \<Rightarrow> catalog_api \<Rightarrow> bool \<Rightarrow> string \<Rightarrow> string \<Rightarrow> string \<Rightarrow> nat \<Rightarrow> (nat \<Rightarrow> reading)
     \<Rightarrow> (nat \<Rightarrow> 's \<Rightarrow> 's) \<Rightarrow> instant \<Rightarrow> reading \<Rightarrow> notifier \<Rightarrow> 's
     \<Rightarrow> ('s writer \<times> writer_ctx \<times> recovery_plan) run \<times> notifier \<times> 's" where
  "open_table lb cl api up table writer uuid fuel clock others started c n s =
     (let cfg = cl_cfg cl; h = cl_staging cl; oper = live_store (current h)
      in case res_bind (validate_writer_id writer) (\<lambda>_.
              res_bind (fetch_table_schema (debug_type lb) api table) (\<lambda>sch.
              res_bind (check_mode lb cfg sch) (\<lambda>_. Inr sch))) of
           Inl e \<Rightarrow> (Finished_run (Inl e), n, s)
         | Inr sch \<Rightarrow>
             let ident = \<lparr>cluster_id = cl_cluster_id cl, db_oid = ts_db_oid sch, rel_oid = ts_rel_oid sch,
                          writer_id = writer\<rparr>
             in case acquire_writer_lease fuel oper (json lb) ident uuid cfg clock others started s of
                  None \<Rightarrow> (Waiting, n, s)
                | Some (Inl e, s1) \<Rightarrow> (Finished_run (Inl e), n, s1)
                | Some (Inr _, s1) \<Rightarrow>
                    (case open_table_locked lb cfg h up table sch ident uuid c n s1 of
                       (Finished_run (Inl e), n', s2) \<Rightarrow>
                         (Finished_run (Inl e), n', drop_lease oper (json lb) ident uuid s2)
                     | r \<Rightarrow> r))"

end
