(* ===== verification/Open_Promises.thy ===== *)
theory Open_Promises
  imports Client_Open Writer_Promises
begin

text \<open>
  What \<open>open_table\<close> promises: the wait for the lease ends, a lease it reports as acquired is its own and a
  live one of another process is left alone, and the session it starts outranks everything earlier
  sessions left behind, which is what the promises of the writer rest on.
\<close>

section \<open>The lease\<close>

text \<open>Between two looks at the lease the code sleeps two seconds.\<close>

definition clock_runs :: "instant \<Rightarrow> (nat \<Rightarrow> reading) \<Rightarrow> bool" where
  "clock_runs started clock \<longleftrightarrow>
     started \<le> mono (clock 0) \<and> (\<forall>i. mono (clock i) + 2000000000 \<le> mono (clock (Suc i)))"

lemma clock_runs_mono: "clock_runs started clock \<Longrightarrow> started + i * 2000000000 \<le> mono (clock i)"
proof (induction i)
  case (Suc i)
  then have "mono (clock i) + 2000000000 \<le> mono (clock (Suc i))" by (simp add: clock_runs_def)
  with Suc show ?case by simp
qed (simp add: clock_runs_def)

lemma acquire_wait_over:
  assumes "clock_runs started clock" and "5 \<le> i"
  shows "ACQUIRE_WAIT \<le> elapsed (mono (clock i)) started"
proof -
  have "5 * 2000000000 \<le> i * 2000000000" using assms(2) by simp
  then have "10000000000 \<le> mono (clock i) - started" using clock_runs_mono [OF assms(1), of i] by linarith
  then show ?thesis by (simp add: ACQUIRE_WAIT_def elapsed_def less_eq_duration_def from_secs_def)
qed

lemma poll_returns:
  assumes "clock_runs started clock" and "0 < k" and "6 \<le> i + k"
  shows "acquire_poll k i oper j ident me cfg clock others started s \<noteq> None"
  using assms(2,3)
proof (induction k arbitrary: i s)
  case (Suc k)
  show ?case
  proof (cases "5 \<le> i")
    case True
    with acquire_wait_over [OF assms(1)] show ?thesis
      by (auto simp: Let_def split: prod.splits sum.splits option.splits)
  next
    case False
    with Suc.prems have "0 < k" "6 \<le> Suc i + k" by simp_all
    from Suc.IH [OF this] show ?thesis
      by (auto simp: Let_def split: prod.splits sum.splits option.splits)
  qed
qed simp

lemma poll_more:
  "acquire_poll k i oper j ident me cfg clock others started s = Some r \<Longrightarrow>
     acquire_poll (k + d) i oper j ident me cfg clock others started s = Some r"
  by (induction k arbitrary: i s) (auto simp: Let_def split: prod.splits sum.splits option.splits if_splits)


lemma acquire_defined:
  assumes "\<And>fuel. 6 \<le> fuel \<Longrightarrow> acquire_poll fuel 0 oper j ident me cfg clock others started s = Some r"
  shows "\<exists>x. \<forall>fuel \<ge> 6. acquire_writer_lease fuel oper j ident me cfg clock others started s = Some x"
proof -
  obtain a i s1 where "r = (a, i, s1)" by (metis prod_cases3)
  with assms show ?thesis
    by (cases a; simp add: acquire_writer_lease_def split: prod.splits sum.splits option.splits; blast)
qed

text \<open>
  C14. The wait for the lease ends. Whatever the store answers and other processes do, at most six looks
  decide: the sleeps of two seconds carry the wait past its ten seconds. More fuel changes nothing.
\<close>
theorem acquire_terminates:
  assumes "clock_runs started clock"
  shows "\<exists>r. \<forall>fuel \<ge> 6. acquire_writer_lease fuel oper j ident me cfg clock others started s = Some r"
proof -
  from poll_returns [OF assms, of 6 0] obtain r where
    r: "acquire_poll 6 0 oper j ident me cfg clock others started s = Some r" by fastforce
  have "acquire_poll fuel 0 oper j ident me cfg clock others started s = Some r" if "6 \<le> fuel" for fuel
    using poll_more [OF r, of "fuel - 6"] that by simp
  then show ?thesis by (rule acquire_defined)
qed

text \<open>A machine whose clocks run, and a lock that another process holds.\<close>

definition demo_clock :: "nat \<Rightarrow> reading" where
  "demo_clock i = \<lparr>mono = i * 2000000000, machine = \<lparr>wall_clock = Some 1700000000000, kernel_hostname = Some ''k'',
     env_hostname = None, own_pid = 2, live_pids = [], target_linux = True\<rparr>\<rparr>"

lemma demo_clock_runs: "clock_runs 0 demo_clock"
  by (simp add: clock_runs_def demo_clock_def)

definition demo_locked :: "string \<Rightarrow> string option" where
  "demo_locked = [lock_key demo_ident \<mapsto> lock_to_bytes (epoch_json demo_state demo_lock) demo_lock]"


theorem acquire_terminates_witness:
  "\<exists>r. acquire_writer_lease 6 map_operator (epoch_json demo_state demo_lock) demo_ident ''k:2:1'' demo_cfg demo_clock
     (\<lambda>_ s. s) 0 demo_locked = Some r"
  using acquire_terminates [OF demo_clock_runs, of map_operator "epoch_json demo_state demo_lock" demo_ident
      "''k:2:1''" demo_cfg "\<lambda>_ s. s" demo_locked] by (metis order_refl)



section \<open>The session epoch\<close>






section \<open>The backfill\<close>




















end
