(* ===== verification/Restart.thy ===== *)
theory Restart
  imports Crash_Recovery Resume_Records Open_Promises
begin

text \<open>
  From one session to the next: the offset that a session records to resume after is the end of a durable
  file, so a restart that trusts the record loses nothing, and a session that opens records nothing beyond
  its staged offset.
\<close>

section \<open>Recorded offsets are ends of durable files\<close>

definition safe_end :: "spool \<Rightarrow> i64 \<Rightarrow> bool" where
  "safe_end a x \<longleftrightarrow> (\<exists>y. sp_init a = Some y \<and> x \<le> y) \<or> (\<exists>i < sp_done a. x = end_offset (fst (sp_sealed a ! i)))"

lemma safe_later:
  assumes "spool_inv a" and "spool_grows a b" and "safe_end a x"
  shows "safe_end b x"
proof -
  from assms(2) obtain zs where b: "sp_sealed b = sp_sealed a @ zs" "sp_done a \<le> sp_done b" "sp_init b = sp_init a"
    by (auto simp: spool_grows_def prefix_def)
  from assms(3) consider y where "sp_init a = Some y" "x \<le> y"
    | i where "i < sp_done a" "x = end_offset (fst (sp_sealed a ! i))" unfolding safe_end_def by blast
  then show ?thesis
  proof cases
    case 2
    with b spool_inv_parts(5) [OF assms(1)] show ?thesis
      unfolding safe_end_def by (intro disjI2 exI [of _ i]) (simp add: nth_append)
  qed (use b in \<open>simp add: safe_end_def\<close>)
qed

lemma records_safe_step:
  assumes "sim cx w a" "spool_inv a" and "writer_allowed cx l w" and "\<forall>x \<in> records cx w. safe_end a x"
  shows "\<forall>x \<in> records cx (writer_step lb cx l w). safe_end (after spool_step (spool_event_of lb cx l w) a) x"
proof
  let ?a = "after spool_step (spool_event_of lb cx l w) a"
  note next' = writer.rel_after [OF assms(1-3), of lb]
  have g: "spool_grows a ?a" by (rule spool.grows_reach [OF next'(3) assms(2)])
  have n: "board_inv (wr_notifier w)" using assms(1) by (simp add: sim_def sim_board_def)
  fix x assume "x \<in> records cx (writer_step lb cx l w)"
  from records_step [OF n assms(3) this] consider "x \<in> records cx w"
    | (new) f where "spool_event_of lb cx l w = Some Landed" "put_task w = PRecord f" "x = end_offset (fm_file (cp_meta f))"
    by blast
  then show "safe_end ?a x"
  proof cases
    case 1
    with assms(4) safe_later [OF assms(2) g] show ?thesis by blast
  next
    case new
    then have "live w = cp_meta f # tl (live w)" by (simp add: live_def put_files_def)
    from sim_head(2) [OF assms(1) this] new show ?thesis
      by (auto simp: safe_end_def intro!: exI [of _ "sp_done a"])
  qed
qed

lemma records_safe:
  assumes "writer_reach lb cx w0 w" and "put_task w0 = PRecv"
    and "sim cx w0 a0" "spool_inv a0" "all_uploaded lb cx w0 w0 a0" "\<forall>x \<in> records cx w0. safe_end a0 x"
  shows "\<exists>a. reach spool_step spool_allowed a0 a \<and> sim cx w a \<and> spool_inv a \<and> all_uploaded lb cx w0 w a
    \<and> (\<forall>x \<in> records cx w. safe_end a x)"
  using assms
proof (induction rule: reach.induct)
  case reach_refl
  then show ?case by (blast intro: reach.reach_refl)
next
  case (reach_step s l)
  then obtain a where a: "reach spool_step spool_allowed a0 a" "sim cx s a" "spool_inv a" "all_uploaded lb cx w0 s a"
    "\<forall>x \<in> records cx s. safe_end a x" by blast
  note next' = writer.rel_after [OF a(2,3) reach_step.hyps(2), of lb]
  from all_uploaded_step [OF reach_step.hyps(1) reach_step.prems(1) reach_step.hyps(2) a(2-4)]
    records_safe_step [OF a(2,3) reach_step.hyps(2) a(5)] next' reach_trans [OF next'(3) a(1)]
  show ?case by blast
qed

text \<open>The bound at the start of a session.\<close>

definition records_bounded :: "writer_ctx \<Rightarrow> 's writer \<Rightarrow> bool" where
  "records_bounded cx w \<longleftrightarrow> (\<forall>x \<in> records cx w. \<exists>y. staged_offset (wr_state w) = Some y \<and> x \<le> y)"

text \<open>A value the session had on record at some time, seen from the end of the run.\<close>

lemma recorded_chain:
  assumes "opened cx w0" and "records_bounded cx w0" and "writer_reach lb cx w0 u" and "writer_reach lb cx u w"
    and "x \<in> records cx u"
  shows "\<exists>a. reach spool_step spool_allowed (spool_of w0) a \<and> sim cx w a \<and> spool_inv a \<and> all_uploaded lb cx w0 w a
    \<and> safe_end a x"
proof -
  have p: "put_task w0 = PRecv" using assms(1) by (auto simp: opened_def writer_new_def)
  have o: "sim cx w0 (spool_of w0)" "spool_inv (spool_of w0)" using opened_sim [OF assms(1)] by simp_all
  have "all_uploaded lb cx w0 w0 (spool_of w0)" by (simp add: all_uploaded_def spool_of_def spool_new_def)
  moreover have "\<forall>x \<in> records cx w0. safe_end (spool_of w0) x"
    using assms(2) by (simp add: records_bounded_def safe_end_def spool_of_def spool_new_def)
  ultimately obtain b where b: "reach spool_step spool_allowed (spool_of w0) b" "sim cx u b" "spool_inv b"
    "all_uploaded lb cx w0 u b" "safe_end b x"
    using records_safe [OF assms(3) p o] assms(5) by blast
  from durable_uploaded [OF assms(4,3) p b(2-4)] obtain a where
    a: "reach spool_step spool_allowed b a" "sim cx w a" "spool_inv a" "all_uploaded lb cx w0 w a" by blast
  have "safe_end a x" by (rule safe_later [OF b(3) spool.grows_reach [OF a(1) b(3)] b(5)])
  with a b(1) show ?thesis by (blast intro: reach_trans)
qed

lemma restart_resumes:
  assumes "opened cx w0" and "records_bounded cx w0" and "writer_reach lb cx w0 w" and "listed lb cx w0 w wm fs"
    and "\<forall>f \<in> set fs. offsets_ok f \<and> end_offset f < i64_max" and "plan_recovery fs wm = Inr p"
    and "\<And>x. Option.bind state resume_offset = Some x \<Longrightarrow> in_i64 x \<and> x < i64_max
      \<and> (\<exists>u. writer_reach lb cx w0 u \<and> writer_reach lb cx u w \<and> x \<in> records cx u)"
    and "kafka_resume_offset (raise_resume state p) = Some r"
  shows "\<exists>a. reach spool_step spool_allowed (spool_of w0) a \<and> sim cx w a \<and> spool_inv a
    \<and> resumes_after a (safe_file wm p) r"
proof (cases "kafka_resume_offset p = Some r")
  case True
  from crash_resumes [OF assms(1,3-6) True] show ?thesis .
next
  case False
  then obtain st x where st: "state = Some st" "resume_offset st = Some x" "r = wrap_i64 (x + 1)"
    using assms(8) by (auto simp: raise_resume_def max_def split: option.splits if_splits)
  then have "Option.bind state resume_offset = Some x" by simp
  note x = assms(7) [OF this]
  then have r: "r = x + 1" using st(3) by (simp add: in_i64_def i64_min_def i64_max_def)
  from x obtain u where "writer_reach lb cx w0 u" "writer_reach lb cx u w" "x \<in> records cx u" by blast
  from recorded_chain [OF assms(1,2) this] obtain a where
    a: "reach spool_step spool_allowed (spool_of w0) a" "sim cx w a" "spool_inv a" "all_uploaded lb cx w0 w a" "safe_end a x"
    by blast
  from a(5) consider y where "sp_init a = Some y" "x \<le> y"
    | (dur) i where "i < sp_done a" "x = end_offset (fst (sp_sealed a ! i))" unfolding safe_end_def by blast
  then have "resumes_after a (safe_file wm p) r"
  proof cases
    case dur
    have "safe_file wm p (fst (sp_sealed a ! j))" if "j \<le> i" for j
      using that dur(1) a(4) uploaded_safe [OF assms(4,6)] by (auto simp: all_uploaded_def)
    moreover have "i < length (sp_sealed a)" using dur(1) spool_inv_parts(5) [OF a(3)] by simp
    ultimately show ?thesis using dur(2) r unfolding resumes_after_def by blast
  qed (use r in \<open>auto simp: resumes_after_def\<close>)
  with a(1-3) show ?thesis by blast
qed

lemma raised_above_listing:
  assumes "plan_recovery fs wm = Inr p" and "\<forall>f \<in> set fs. offsets_ok f \<and> end_offset f < i64_max"
    and "kafka_resume_offset (raise_resume state p) = Some r" and "g \<in> set fs"
  shows "end_offset g < r"
proof -
  from assms(4) have "fs \<noteq> []" by auto
  then obtain v where v: "kafka_resume_offset p = Some v" using planned_offset [OF assms(1,2)] by simp
  from resume_is_max [OF assms(1) v assms(2)] assms(4) have "end_offset g < v" by fastforce
  moreover have "v \<le> r" using assms(3) v by (auto simp: raise_resume_def split: option.splits)
  ultimately show ?thesis by simp
qed

section \<open>Property\<close>

text \<open>
  C3. A crash and a restart lose nothing and repeat nothing. Let the writer stop in any reachable state, let the
  store list files of earlier sessions, files whose upload was begun, and every file whose upload it answered
  unless the server has consumed it, and let the state object hold any resume offset the session ever had on
  record. Call a file safe when the server has consumed it or recovery announces it again, and let the next
  session resume at the offset of the plan, raised by the recorded one. Then a batch accepted above the opening
  offset either starts at or after the resume offset, so the consumer reads it again, or ends before it and is
  in a safe file; no listed file reaches the resume offset; and if the consumer fed every offset from the one
  after the opening offset, then each offset below the resume offset is in exactly one file, and that is safe.
\<close>
theorem restart_loses_nothing:
  assumes "opened cx w0" and "records_bounded cx w0" and "writer_reach lb cx w0 w" and "listed lb cx w0 w wm fs"
    and "\<forall>f \<in> set fs. offsets_ok f \<and> end_offset f < i64_max" and "plan_recovery fs wm = Inr p"
    and "\<And>x. Option.bind state resume_offset = Some x \<Longrightarrow> in_i64 x \<and> x < i64_max
      \<and> (\<exists>u. writer_reach lb cx w0 u \<and> writer_reach lb cx u w \<and> x \<in> records cx u)"
    and "kafka_resume_offset (raise_resume state p) = Some r"
  shows "\<exists>a. reach spool_step spool_allowed (spool_of w0) a \<and> spooled a w
    \<and> (\<forall>s e. (s, e) \<in> set (sp_accepted a) \<and> (case staged_offset (wr_state w0) of None \<Rightarrow> True | Some y \<Rightarrow> y < s)
         \<and> \<not> r \<le> s \<longrightarrow>
         e < r \<and> (\<exists>i < length (sp_sealed a). (s, e) \<in> set (snd (sp_sealed a ! i)) \<and> safe_file wm p (fst (sp_sealed a ! i))))
    \<and> (\<forall>g \<in> set fs. end_offset g < r)
    \<and> (\<forall>x v. fed_from x (sp_accepted a) \<and> (case staged_offset (wr_state w0) of None \<Rightarrow> True | Some y \<Rightarrow> x = y + 1)
         \<and> x \<le> v \<and> v < r \<longrightarrow>
         (\<exists>!i. holds_offset a i v) \<and> (\<forall>i. holds_offset a i v \<longrightarrow> safe_file wm p (fst (sp_sealed a ! i))))"
proof -
  from restart_resumes [OF assms] obtain a where
    a: "reach spool_step spool_allowed (spool_of w0) a" "sim cx w a" "spool_inv a" "resumes_after a (safe_file wm p) r" by blast
  note init = opened_init [OF assms(1) a(1)]
  from resumes_batch [OF a(3,4)] resumes_offset [OF a(3,4)] raised_above_listing [OF assms(6,5,8)]
  show ?thesis using a(1) sim_spooled [OF a(2)] unfolding init by (intro exI [of _ a]) blast
qed

text \<open>
  The demo run after its file was recorded, when the server has loaded the file and the collector has removed
  it: only the state object knows where to resume.
\<close>

lemma demo_recorded_file:
  assumes "sim demo_cx demo_recorded a" "spool_inv a"
  shows "map fst (sp_sealed a) = [demo_staged]"
proof -
  have w: "live demo_recorded = []" "running demo_recorded" "landing demo_recorded = Some demo_payload"
    "put_prev demo_recorded = None"
    by (simp_all add: live_def running_def landing_def put_files_def gzip_files_def render_files_def demo_recorded_def
        record_durable_def Let_def demo_recording_def demo_payload_def demo_waiting_def demo_cut_def demo_writer_def
        writer_new_def)
  with assms(1) have p: "sim_prev (Some demo_payload) None a" "drop (sp_done a) (map fst (sp_sealed a)) = []"
    by (simp_all add: sim_def sim_pipe_def)
  then have d: "sp_done a = 1" "fst (sp_sealed a ! 0) = demo_staged"
    by (auto simp: sim_prev_def prev_at_def Let_def demo_payload_def demo_meta_def split: if_splits)
  with p(2) spool_inv_parts(5) [OF assms(2)] have "length (sp_sealed a) = 1" by simp
  with d show ?thesis by (cases "sp_sealed a") auto
qed

lemma demo_recorded_begun:
  assumes "begun demo_libs demo_cx demo_writer demo_recorded f"
  shows "f = demo_staged"
proof -
  from begun_chain [OF demo_opened assms] obtain a i where
    "sim demo_cx demo_recorded a" "spool_inv a" "i < length (sp_sealed a)" "fst (sp_sealed a ! i) = f" by blast
  with demo_recorded_file [of a] show ?thesis by (cases i; cases "sp_sealed a") auto
qed

theorem restart_loses_nothing_witness:
  "\<exists>p st a. plan_recovery [] (Some 3145728) = Inr p \<and> resume_offset st = Some 9
     \<and> kafka_resume_offset (raise_resume (Some st) p) = Some 10
     \<and> reach spool_step spool_allowed (spool_of demo_writer) a \<and> spooled a demo_recorded"
proof -
  have "consumed (Some 3145728) demo_staged"
    by (simp add: consumed_def serial_of_def demo_staged_def serial_nat_def)
  then have l: "listed demo_libs demo_cx demo_writer demo_recorded (Some 3145728) []"
    using demo_recorded_begun [OF uploaded_begun] unfolding listed_def by auto
  have b: "records_bounded demo_cx demo_writer"
    by (simp add: records_bounded_def records_def demo_writer_def writer_new_def writer_state_new_def
        notifier_spawn_def Notify_Queue.pending_def)
  have "\<exists>p. plan_recovery [] (Some 3145728) = Inr p \<and> kafka_resume_offset p = None"
    by (simp add: plan_recovery_def max_list_def Let_def)
  then obtain p where p: "plan_recovery [] (Some 3145728) = Inr p" "kafka_resume_offset p = None" by blast
  let ?st = "writer_state_file demo_cx 3 (Some 9) 7"
  have "9 \<in> records demo_cx demo_recorded"
    by (simp add: records_def demo_recorded_def record_durable_def Let_def pending_enqueue file_request_def
        demo_meta_def demo_staged_def)
  then have rec: "in_i64 x \<and> x < i64_max \<and> (\<exists>u. writer_reach demo_libs demo_cx demo_writer u
      \<and> writer_reach demo_libs demo_cx u demo_recorded \<and> x \<in> records demo_cx u)"
    if "Option.bind (Some ?st) resume_offset = Some x" for x
  proof -
    from that have "x = 9" by (simp add: writer_state_file_def)
    then show ?thesis
      using \<open>9 \<in> records demo_cx demo_recorded\<close> demo_reaches(3)
      by (auto simp: in_i64_def i64_min_def i64_max_def intro!: exI [of _ demo_recorded] reach_refl)
  qed
  have r: "kafka_resume_offset (raise_resume (Some ?st) p) = Some 10"
    using p(2) by (simp add: raise_resume_def writer_state_file_def in_i64_def i64_min_def i64_max_def)
  have "\<forall>f \<in> set []. offsets_ok f \<and> end_offset f < i64_max" by simp
  from restart_loses_nothing [OF demo_opened b demo_reaches(3) l this p(1) rec r]
  obtain a where "reach spool_step spool_allowed (spool_of demo_writer) a" "spooled a demo_recorded" by blast
  moreover have "resume_offset ?st = Some 9" by (simp add: writer_state_file_def)
  ultimately show ?thesis using p(1) r by blast
qed

section \<open>The start of a session\<close>





end
