(* ===== verification/Render_Types.thy ===== *)
theory Render_Types
  imports Client_Open Writer_Demo
begin

text \<open>
  The types of a stream fit together: what \<open>fetch_table_schema\<close> and \<open>check_mode\<close> let \<open>open_table\<close> start with,
  and \<open>append\<close> takes in, the render stage never fails on. An unrenderable file would stop the stream for
  good, so the checks at the two doors have to be enough.
\<close>

section \<open>Rows\<close>

lemma bind_supported: "is_supported_type (array_type a) \<Longrightarrow> is_ok (bind_col dbg a c)"
proof (cases a)
  case (TimestampArray u tz vs)
  then show "is_supported_type (array_type a) \<Longrightarrow> ?thesis" by (cases u) (simp_all add: is_supported_type_def)
qed (simp_all add: is_supported_type_def)

definition fits :: "arrow_schema \<Rightarrow> record_batch \<Rightarrow> bool" where
  "fits sch b \<longleftrightarrow> batch_ok b \<and> schema_compatible (batch_schema b) sch"

lemma fits_types: "fits sch b \<Longrightarrow> map array_type (columns b) = map field_type sch"
  by (auto simp: fits_def batch_ok_def schema_compatible_def list_all_length intro: nth_equalityI)

lemma fits_column:
  assumes "fits sch b" and "i < length sch"
  shows "i < length (columns b)" and "array_type (columns b ! i) = field_type (sch ! i)"
    and "array_len (columns b ! i) = num_rows b"
proof -
  show i: "i < length (columns b)" using fits_types [OF assms(1)] assms(2) by (metis length_map)
  show "array_type (columns b ! i) = field_type (sch ! i)"
    using fits_types [OF assms(1)] assms(2) i by (metis nth_map)
  show "array_len (columns b ! i) = num_rows b" using assms(1) i by (simp add: fits_def batch_ok_def)
qed

lemma format_fits:
  assumes "fits sch b" and "\<forall>f \<in> set sch. is_supported_type (field_type f)"
  shows "is_ok (format_rows dbg ff delim b rows)"
proof -
  have "is_supported_type (array_type a)" if "a \<in> set (columns b)" for a
  proof -
    from that have "array_type a \<in> set (map field_type sch)"
      using fits_types [OF assms(1)] by (metis image_eqI set_map)
    with assms(2) show ?thesis by auto
  qed
  then have "is_ok (res_all (\<lambda>(a, f). bind_col dbg a (field_name f)) (zip (columns b) (batch_schema b)))"
    using bind_supported by (intro res_all_ok) (auto dest!: set_zip_leftD)
  then show ?thesis by (auto simp: format_rows_def is_ok_iff)
qed

lemma format_files_fit:
  "\<forall>p \<in> set ps. fits sch (fst p) \<Longrightarrow> \<forall>f \<in> set sch. is_supported_type (field_type f) \<Longrightarrow>
     \<exists>body. format_files lb delim ps = Inr (body, \<Sum>p \<leftarrow> ps. length (snd p))"
proof (induction ps)
  case (Cons p ps)
  then obtain body where "format_files lb delim ps = Inr (body, \<Sum>p \<leftarrow> ps. length (snd p))" by auto
  moreover obtain out where "format_rows (debug_type lb) (float_text lb) delim (fst p) (snd p) = Inr out"
    using format_fits [of sch "fst p"] Cons.prems is_ok_iff by (metis list.set_intros(1))
  ultimately show ?case by (cases p) simp
qed simp

section \<open>Keys\<close>

definition keys_fit :: "arrow_schema \<Rightarrow> nat list \<Rightarrow> bool" where
  "keys_fit sch is \<longleftrightarrow> (\<forall>i \<in> set is. i < length sch \<and> is_supported_pk_type (field_type (sch ! i)))"

lemma key_fits:
  assumes "fits sch b" and "keys_fit sch is" and "row < num_rows b"
  shows "is_ok (pk_key dbg b is row)"
proof -
  have "is_ok (pk_part dbg b row i)" if "i \<in> set is" for i
    using pk_part_enc [of b i row dbg] fits_column [OF assms(1)] assms(2,3) that by (auto simp: keys_fit_def)
  then have "is_ok (res_all (pk_part dbg b row) is)" by (simp add: res_all_ok)
  then show ?thesis by (auto simp: pk_key_def is_ok_iff)
qed

lemma scan_rows_fit:
  assumes "fits sch b" and "keys_fit sch is"
  shows "\<forall>row \<in> set rows. row < num_rows b \<Longrightarrow> is_ok (scan_rows dbg is bi b rows m)"
proof (induction rows arbitrary: m)
  case (Cons row rows)
  then obtain key where "pk_key dbg b is row = Inr key" using key_fits [OF assms, of row dbg] by (auto simp: is_ok_iff)
  with Cons show ?case by simp
qed simp

lemma scan_batches_fit:
  assumes "keys_fit sch is"
  shows "\<forall>b \<in> set bs. fits sch b \<Longrightarrow> is_ok (scan_batches dbg is bi bs m)"
proof (induction bs arbitrary: bi m)
  case (Cons b bs)
  then obtain m' where "scan_rows dbg is bi b [0..<num_rows b] m = Inr m'"
    using scan_rows_fit [OF _ assms, of b "[0..<num_rows b]" dbg bi m] by (auto simp: is_ok_iff)
  with Cons show ?case by simp
qed simp

lemma dedup_fits:
  assumes "keys_fit sch is" and "\<forall>b \<in> set bs. fits sch b"
  shows "\<exists>keep. dedup_last_wins dbg bs is = Inr keep \<and> length keep = length bs"
  using scan_batches_fit [OF assms, of dbg 0 "[]"] by (auto simp: dedup_last_wins_def is_ok_iff keep_rows_def)

section \<open>Schemas\<close>

lemma fetched_validated: "fetch_table_schema dbg api table = Inr sch \<Longrightarrow> schema_validate dbg sch = Inr ()"
  by (auto simp: fetch_table_schema_def Let_def res_simps split: if_splits prod.splits)

lemma checked_keys:
  assumes "schema_validate dbg sch = Inr ()" and "validate_pk_for_dedup dbg sch = Inr ()"
  shows "\<exists>is. pk_indices sch = Inr is \<and> keys_fit (arrow sch) is"
proof -
  obtain "is" where "is": "pk_indices sch = Inr is" "check_pk dbg (arrow sch) is = Inr ()"
    using assms(2) by (auto simp: validate_pk_for_dedup_def res_simps)
  with pk_indices_Inr [OF "is"(1)] show ?thesis
    by (auto simp: check_pk_Inr keys_fit_def in_set_conv_nth)
qed

section \<open>Property\<close>

text \<open>
  C20. Batches that \<open>append\<close> accepts always render. With a schema as \<open>fetch_table_schema\<close> returns it and
  \<open>check_mode\<close> accepts it, an attempt on the blocking pool that is not cut short gives a file whatever the
  values, NULL keys included: its first line is the header, and without upsert every row is counted.
\<close>
theorem accepted_batches_render:
  assumes "fetch_table_schema (debug_type lb) api table = Inr (wx_schema cx)"
    and "check_mode lb (wx_cfg cx) (wx_schema cx) = Inr ()"
    and "\<forall>b \<in> set bs. batch_ok b \<and> schema_compatible (batch_schema b) (arrow (wx_schema cx))"
  shows "\<exists>body n. render_once lb cx None bs
       = Inr (header (delimiter (csv (wx_cfg cx))) (map field_name (arrow (wx_schema cx))) @ body, n)
     \<and> (cfg_stream_mode (wx_cfg cx) \<noteq> Upsert \<longrightarrow> n = sum_list (map num_rows bs))"
proof -
  let ?sch = "wx_schema cx" and ?d = "delimiter (csv (wx_cfg cx))"
  note v = fetched_validated [OF assms(1)]
  then have sup: "\<forall>f \<in> set (arrow ?sch). is_supported_type (field_type f)" by (simp add: schema_validate_Inr)
  have fit: "\<forall>b \<in> set bs. fits (arrow ?sch) b" using assms(3) by (simp add: fits_def)
  have files: "\<exists>body. format_files lb ?d (zip bs keep) = Inr (body, \<Sum>p \<leftarrow> zip bs keep. length (snd p))" for keep
    using fit sup by (intro format_files_fit) (auto dest: set_zip_leftD)
  show ?thesis
  proof (cases "cfg_stream_mode (wx_cfg cx) = Upsert")
    case True
    with assms(2) have "validate_pk_for_dedup (debug_type lb) ?sch = Inr ()"
      by (simp add: check_mode_def split: if_splits)
    from checked_keys [OF v this] obtain "is" where "is": "pk_indices ?sch = Inr is" "keys_fit (arrow ?sch) is" by blast
    from dedup_fits [OF "is"(2) fit] obtain keep where "dedup_last_wins (debug_type lb) bs is = Inr keep" by blast
    with True "is"(1) files [of keep] show ?thesis by (auto simp: render_once_def render_def)
  next
    case False
    have "(\<Sum>p \<leftarrow> zip bs (map (\<lambda>b. [0..<num_rows b]) bs). length (snd p)) = sum_list (map num_rows bs)"
      by (induction bs) simp_all
    with False files [of "map (\<lambda>b. [0..<num_rows b]) bs"] show ?thesis
      by (auto simp: render_once_def render_def)
  qed
qed


definition typed_api :: catalog_api where
  "typed_api = \<lparr>query_columns = (\<lambda>s t. Inr [\<lparr>cr_name = ''id'', cr_type = ''bigint'', cr_not_null = True,
     cr_rel_oid = 7, cr_db_oid = 5\<rparr>]), query_pk = (\<lambda>s t. Inr [''id''])\<rparr>"

definition typed_cx :: writer_ctx where
  "typed_cx = demo_cx\<lparr>wx_schema := \<lparr>arrow = [\<lparr>field_name = ''id'', field_type = Int64, nullable = False\<rparr>],
     pk = [''id''], ts_db_oid = 5, ts_rel_oid = 7\<rparr>, wx_cfg := demo_cfg\<lparr>cfg_stream_mode := Upsert\<rparr>\<rparr>"

theorem accepted_batches_render_witness:
  "is_ok (render_once demo_libs typed_cx None [demo_row, demo_row])"
proof -
  have f: "fetch_table_schema (debug_type demo_libs) typed_api ''t'' = Inr (wx_schema typed_cx)"
    by (simp add: fetch_table_schema_def typed_api_def typed_cx_def split_qualified_def lift_pg_def column_field_def
        pg_type_to_arrow_def timestamp_type_def plain_type_def schema_validate_def is_supported_type_def
        pk_indices_def)
  have c: "check_mode demo_libs (wx_cfg typed_cx) (wx_schema typed_cx) = Inr ()"
    by (simp add: check_mode_def typed_cx_def validate_pk_for_dedup_def pk_indices_def is_supported_pk_type_def
        is_supported_type_def)
  have b: "\<forall>b \<in> set [demo_row, demo_row]. batch_ok b
      \<and> schema_compatible (batch_schema b) (arrow (wx_schema typed_cx))"
    by (simp add: batch_ok_def schema_compatible_def demo_row_def typed_cx_def array_len_def)
  from accepted_batches_render [OF f c b] show ?thesis by (auto simp: is_ok_iff)
qed

end
