(* ===== verification/Fault_Points.thy ===== *)
theory Fault_Points
  imports Staging_Store
begin

text \<open>
  The fault-injection points of a \<open>failpoints\<close> build (\<open>src/failpoints.rs\<close>; in a published build the macros
  expand to nothing and the other theories model that one). The registry is the crate \<open>fail\<close>: \<open>ev name\<close> is
  what \<open>fail::eval\<close> finds there, \<open>None\<close> for a point that does not return and \<open>Some arg\<close> for one armed as
  \<open>return\<close> or \<open>return(arg)\<close>. The Debug text \<open>dbg\<close> of the argument is the standard library's.
\<close>

section \<open>The points\<close>

datatype effect =
    Passes
  | Injected string "string option"
  | Aborts
  | Panics string
  | Waits u64

definition act :: "string \<Rightarrow> string option \<Rightarrow> effect" where
  "act name arg = (if arg = Some ''abort'' then Aborts else Injected name arg)"

definition failpoint :: "(string \<Rightarrow> string option option) \<Rightarrow> string \<Rightarrow> effect" where
  "failpoint ev name = (case ev name of None \<Rightarrow> Passes | Some arg \<Rightarrow> act name arg)"

definition delay_point ::
  "(string option \<Rightarrow> string) \<Rightarrow> (string \<Rightarrow> string option option) \<Rightarrow> string \<Rightarrow> effect" where
  "delay_point dbg ev name =
     (case ev name of
        None \<Rightarrow> Passes
      | Some arg \<Rightarrow>
          (case Option.bind arg parse_u64 of
             Some millis \<Rightarrow> Waits millis
           | None \<Rightarrow> Panics (''failpoint `'' @ name
               @ ''` is a delay point: arm it as `return(<millis>)`, got '' @ dbg arg)))"

definition crash_point ::
  "(string option \<Rightarrow> string) \<Rightarrow> (string \<Rightarrow> string option option) \<Rightarrow> string \<Rightarrow> effect" where
  "crash_point dbg ev name =
     (case ev name of
        None \<Rightarrow> Passes
      | Some arg \<Rightarrow>
          if arg = Some ''abort'' then Aborts
          else Panics (''failpoint `'' @ name
            @ ''` is a crash point: it only accepts `return(abort)`, got '' @ dbg arg))"

text \<open>The text of \<open>Error::Injected\<close>.\<close>

definition injected_text :: "string \<Rightarrow> string option \<Rightarrow> string" where
  "injected_text point arg =
     ''injected failure at `'' @ point @ ''`'' @ (case arg of Some a \<Rightarrow> '' ('' @ a @ '')'' | None \<Rightarrow> [])"

text \<open>
  \<open>testing::Armed\<close>: arming writes the registry of the process, dropping the guard removes the point; \<open>cfg\<close> is
  the parser of \<open>fail\<close>'s action syntax, whose error panics.
\<close>

definition armed ::
  "(string \<Rightarrow> string + 'act) \<Rightarrow> string \<Rightarrow> string \<Rightarrow> (string \<rightharpoonup> 'act) \<Rightarrow> string + (string \<rightharpoonup> 'act)" where
  "armed cfg point action reg =
     (case cfg action of
        Inl e \<Rightarrow> Inl (''arm failpoint `'' @ point @ ''` as `'' @ action @ ''`: '' @ e)
      | Inr a \<Rightarrow> Inr (reg(point \<mapsto> a)))"

definition disarmed :: "string \<Rightarrow> (string \<rightharpoonup> 'act) \<Rightarrow> (string \<rightharpoonup> 'act)" where
  "disarmed point reg = reg(point := None)"

lemma armed_then_disarmed:
  "armed cfg p how reg = Inr reg' \<Longrightarrow> reg p = None \<Longrightarrow> disarmed p reg' = reg"
  by (auto simp: armed_def disarmed_def split: sum.splits)

lemma armed_only: "armed cfg p how reg = Inr reg' \<Longrightarrow> q \<noteq> p \<Longrightarrow> reg' q = reg q"
  by (auto simp: armed_def split: sum.splits)

section \<open>The instrumented writes of the store\<close>

text \<open>How a call ends: it returns, possibly with the injected error, or the process is killed, or it panics.\<close>

datatype 'a ending = Returns "(string \<times> string option) + 'a" | Killed | Panicked string

definition at_point :: "effect \<Rightarrow> ('s \<Rightarrow> 'a ending \<times> 's) \<Rightarrow> 's \<Rightarrow> 'a ending \<times> 's" where
  "at_point f k s =
     (case f of
        Passes \<Rightarrow> k s
      | Injected p a \<Rightarrow> (Returns (Inl (p, a)), s)
      | Aborts \<Rightarrow> (Killed, s)
      | Panics m \<Rightarrow> (Panicked m, s)
      | Waits _ \<Rightarrow> k s)"

text \<open>A write between a \<open>failpoint!\<close> before and a \<open>crash_point!\<close> after, as \<open>put\<close> and \<open>write_state\<close> have them.\<close>

definition write_points ::
  "effect \<Rightarrow> effect \<Rightarrow> ('s \<Rightarrow> unit result \<times> 's) \<Rightarrow> 's \<Rightarrow> unit result ending \<times> 's" where
  "write_points pre post wr =
     at_point pre (\<lambda>s. case wr s of
         (Inl e, s') \<Rightarrow> (Returns (Inr (Inl e)), s')
       | (Inr u, s') \<Rightarrow> at_point post (\<lambda>s. (Returns (Inr (Inr u)), s)) s')"

definition put_points ::
  "(string option \<Rightarrow> string) \<Rightarrow> (string \<Rightarrow> string option option) \<Rightarrow> 's operator \<Rightarrow> string \<Rightarrow> string \<Rightarrow> 's
     \<Rightarrow> unit result ending \<times> 's" where
  "put_points dbg ev oper key bytes =
     write_points (failpoint ev ''staging::put::before'') (crash_point dbg ev ''staging::put::after'')
       (put oper key bytes)"

definition write_state_points ::
  "(string option \<Rightarrow> string) \<Rightarrow> (string \<Rightarrow> string option option) \<Rightarrow> 's operator \<Rightarrow> json_api \<Rightarrow> writer_identity
     \<Rightarrow> state_file \<Rightarrow> 's \<Rightarrow> unit result ending \<times> 's" where
  "write_state_points dbg ev oper j ident st =
     write_points (failpoint ev ''staging::write_state::before'') (crash_point dbg ev ''staging::write_state::after'')
       (write_state oper j ident st)"

text \<open>With the points inert the instrumented write is the write of the published build.\<close>

lemma inert_write:
  "write_points Passes Passes wr s = (case wr s of (r, s') \<Rightarrow> (Returns (Inr r), s'))"
  by (auto simp: write_points_def at_point_def split: prod.splits sum.splits)

lemma inert_points:
  assumes "\<And>name. ev name = None"
  shows "put_points dbg ev oper key bytes s = (case put oper key bytes s of (r, s') \<Rightarrow> (Returns (Inr r), s'))"
    and "write_state_points dbg ev oper j ident st s
      = (case write_state oper j ident st s of (r, s') \<Rightarrow> (Returns (Inr r), s'))"
  by (simp_all add: put_points_def write_state_points_def failpoint_def crash_point_def assms inert_write)

text \<open>
  What a test may conclude from the way a \<open>put\<close> ended: an injected failure left the store alone; a process
  killed at the point after the write has written; and no ending leaves anything but the object or the
  old store.
\<close>

lemma put_point_endings:
  assumes "store_laws oper obj" and "put_points dbg ev oper key bytes s = (r, s')"
  shows "r = Returns (Inl x) \<Longrightarrow> s' = s"
    and "r = Killed \<Longrightarrow> ev ''staging::put::before'' = None \<Longrightarrow> obj s' = (obj s)(key \<mapsto> bytes)"
    and "r = Returns (Inr (Inr ())) \<Longrightarrow> obj s' = (obj s)(key \<mapsto> bytes)"
    and "obj s' = (obj s)(key \<mapsto> bytes) \<or> obj s' = obj s"
proof -
  have law: "obj s2 = (obj s)(key \<mapsto> bytes) \<or> (\<not> is_ok q \<and> obj s2 = obj s)" if "put oper key bytes s = (q, s2)" for q s2
  proof -
    obtain q' s3 where w: "op_write oper key bytes s = (q', s3)" by fastforce
    with assms(1) have "obj s3 = (obj s)(key \<mapsto> bytes) \<or> (\<not> is_ok q' \<and> obj s3 = obj s)"
      unfolding store_laws_def by blast
    with that w show ?thesis by (auto simp: put_def lift_storage_def is_ok_iff split: sum.splits)
  qed
  obtain q s2 where p: "put oper key bytes s = (q, s2)" by fastforce
  note ends = assms(2) [unfolded put_points_def write_points_def at_point_def p]
  show "s' = s" if "r = Returns (Inl x)"
    using that ends by (auto simp: failpoint_def act_def crash_point_def split: effect.splits option.splits sum.splits if_splits)
  show "obj s' = (obj s)(key \<mapsto> bytes)" if "r = Killed" "ev ''staging::put::before'' = None"
    using that ends law [OF p] by (auto simp: failpoint_def is_ok_iff split: effect.splits sum.splits)
  show "obj s' = (obj s)(key \<mapsto> bytes)" if "r = Returns (Inr (Inr ()))"
    using that ends law [OF p] by (auto simp: is_ok_iff split: effect.splits sum.splits)
  show "obj s' = (obj s)(key \<mapsto> bytes) \<or> obj s' = obj s"
    using ends law [OF p] by (auto split: effect.splits sum.splits)
qed

end
