(* ===== verification/Spec2Isabelle.thy ===== *)
theory Spec2Isabelle
  imports Csv_Values Partition_Consumer Staged_Stays Writer_Drain Writer_Stops Restart Render_Types Fault_Points
begin

text \<open>
  A verification development for \<open>relyt-ingest\<close>, the Rust SDK under \<open>src/src\<close> that turns Arrow batches
  into CSV objects in an object store and hands them to a Relyt server as serialised load jobs. An
  application feeds one writer per (table, writer id) from one Kafka partition; what it needs from the SDK is
  that the offset it commits is durable, that files are loaded in order and each once, and that a restart
  takes up where the last session stopped.

  \<^bold>\<open>How the parts work together\<close>

  \<open>Client::connect\<close> checks the configuration and resolves the staging location, which the master hands out
  or the customer names. \<open>Client::open_table\<close> reads the schema of the table, takes the writer lease, lists
  the staged files, asks the server for its watermark, picks an epoch above all of them, records it and
  starts a writer. \<open>append\<close> buffers batches; a buffer that is large or old enough is cut into a file, which
  three tasks render, compress and upload one after the other; a landed file moves the staged offset and is
  queued to the notifier, whose loop submits it to the server. A ticker cuts aged buffers and writes the
  state object, a heartbeat renews the lease and fences the writer that lost it, a collector deletes old
  files, a sampler measures the lag.

  \<^bold>\<open>Data and pure components\<close>

  \<^item> \<open>Ingest_Prelude\<close>: machine integers (\<open>u32\<close>, \<open>u64\<close> as words, \<open>i64\<close> as an integer with its wrap written
    out), results as sums, durations, the text functions of the standard library on UTF-8 bytes, and the
    locales of the development: encodings that keep an order, guarded machines with an invariant and a
    growth relation, and simulations, where every concrete step is one abstract event or none. Every locale
    is interpreted on the model of the code.
  \<^item> \<open>Ingest_Text\<close>: characters of UTF-8 text, white space, trimming, splitting.
  \<^item> \<open>Ingest_Error\<close> (\<open>error.rs\<close>): every error variant with its text.
  \<^item> \<open>Naming_Keys\<close> (\<open>naming.rs\<close>): serial sequences, identities, object keys, names of staged files.
  \<^item> \<open>Recovery\<close> (\<open>recovery.rs\<close>): what a restart computes from the listing, and the next epoch.
  \<^item> \<open>Config_Rules\<close> (\<open>config.rs\<close>): tunables with their ranges, staging checks, endpoint classification,
    Debug output and the masking of passwords.
  \<^item> \<open>Arrow_Data\<close>, \<open>Csv_Format\<close> (\<open>csv.rs\<close>): arrays, batches and the CSV writer; \<open>Csv_Roundtrip\<close> is a reader of
    the dialect that gets its cells back, \<open>Csv_Values\<close> shows that dates, decimals and timestamps are exact.
  \<^item> \<open>Dedup_Rows\<close> (\<open>dedup.rs\<close>): the key bytes and the pass that keeps the last row of a key.
  \<^item> \<open>Table_Schema\<close> (\<open>schema.rs\<close>): PostgreSQL types, schema checks, the schema fetch.
  \<^item> \<open>Staging_Store\<close> (\<open>staging.rs\<close>, \<open>state.rs\<close>, \<open>lock.rs\<close>): the store operations, the state and lock objects.
  \<^item> \<open>Managed_Staging\<close> (\<open>client.rs\<close>): \<open>connect\<close>, the location the master hands out, its refresh.
  \<^item> \<open>Alarm\<close> (\<open>alarm.rs\<close>): the alarm line of a stopped stream.
  \<^item> \<open>Notify_Queue\<close> (\<open>notify.rs\<close>): job arguments, the reading of an answer, queues, loops and the board.

  \<^bold>\<open>The writer\<close> (\<open>table.rs\<close>)

  \<^item> \<open>Writer_State\<close>: the locked state of a writer and every operation on it that awaits nothing (\<open>append\<close>
    under the lock, \<open>seal\<close>, \<open>unbuffer\<close>, the progress of the pipeline, rendering, \<open>put_once\<close>).
  \<^item> \<open>Staging_Gc\<close>: \<open>gc_pass\<close>.
  \<^item> \<open>Writer_Machine\<close>: the tasks. A state of \<open>writer\<close> is the shared state with the program counter of every
    task; an event of \<open>writer_step\<close> runs one task from one await to the next, with the clock reading, the
    outcome of a race and the panic of a blocking task in the event. Other processes act by \<open>World\<close>, and the
    client's refresh of managed staging by \<open>Refresh\<close>.
  \<^item> \<open>Client_Open\<close> (\<open>client.rs\<close>): \<open>open_table\<close>, from the schema fetch to the writer.
  \<^item> \<open>Fault_Points\<close> (\<open>failpoints.rs\<close>): the points of a test build, and what an instrumented write may leave.
  \<^item> \<open>Writer_Demo\<close>: one run on concrete libraries, from which the witnesses are taken.

  \<^bold>\<open>What is shown of the writer\<close>

  \<^item> \<open>Spool_Spec\<close> is the abstract specification: ranges accepted, cut into files and landed in order.
    \<open>Writer_Refinement\<close> names the spool event that each step of the machine is (\<open>spool_event_of\<close>) and shows
    that the machine simulates the spool, event by event.
  \<^item> \<open>Writer_Promises\<close> draws the promises from the simulation: the refinement over every reachable state, the
    commit gate, the silent tripwire.
  \<^item> \<open>Writer_Announce\<close>: a file is announced after its upload and in order. \<open>Writer_Barrier\<close>: \<open>flush\<close> and \<open>close\<close>
    are barriers. \<open>Writer_Stops\<close>: a stopped writer stays stopped, and its alarms are few and in order.
  \<^item> \<open>Writer_Ledger\<close> carries beside machine and spool a ledger of the batches of every file cut: the batches a
    file of the pipeline renders from are those of its entry, a durable entry is stored, an append that
    returned Ok is in the buffer or in an entry. \<open>Writer_Delivery\<close> concludes: what is uploaded is what was
    sealed, what \<open>flush\<close> has answered for is in the store, and a stored file reads back to its rows.
  \<^item> \<open>Partition_Consumer\<close> (\<open>examples/kafka_partition_writer.rs\<close> and the two other examples): the consume loops as
    clients of the machine. The one that commits commits only what is delivered, and its \<open>expect\<close> and
    \<open>assert!\<close> never fail; the ones that only append have every batch delivered after their last \<open>flush\<close>.
  \<^item> \<open>Writer_Drain\<close>: with services that answer, a count of turns empties the pipeline and \<open>flush\<close> returns.
  \<^item> \<open>Crash_Recovery\<close>: whatever moment a session ends at, the listing of the store and the recovery plan lose
    no accepted batch and repeat none. \<open>Resume_Records\<close> bounds the offsets that a session writes into its
    state object to resume after, \<open>Spool_Handover\<close> says where the offsets of a spool lie and what it means to
    take up after it, and \<open>Restart\<close> extends the result to the plan that \<open>open_table\<close> raises by the recorded
    offset: every offset below the resume offset is in exactly one file that the server has or gets. It also
    shows that a session starts within the bound that this rests on.
  \<^item> \<open>Gc_Safety\<close>: what the collector may delete. \<open>Staged_Stays\<close> goes through every step of the machine for the
    staged objects it may change: an object that \<open>flush\<close> has answered for stays, unchanged, until a collector
    finds it consumed. \<open>Open_Promises\<close>: the lease and the session epoch, which
    discharges the assumption \<open>opened\<close> the promises of the writer start from. \<open>Render_Types\<close>: what the two
    doors let in always renders.

  \<^bold>\<open>Parameters and what is assumed of them\<close>

  Code that is not in the repository is an argument: the object store (\<open>operator\<close>, with \<open>store_laws\<close>: a write
  that answers Ok has replaced its object, one that fails may have, reads change nothing; \<open>lawful\<close> asks this of
  every store a refresh may build), the JSON of the two records (\<open>json_state_law\<close>, \<open>json_lock_law\<close>: parsing what was printed), the master's queries (\<open>control_api\<close>,
  \<open>catalog_api\<close>), gzip, the text of floats, Debug text and memory size of Arrow. Each law is a hypothesis of
  the property that needs it, and the witnesses discharge it on a map that stands for the store.

  \<^bold>\<open>Bounds\<close>

  Recursion is structural or has a measure, except the wait for the lease, which takes fuel: six looks are
  enough because the code sleeps two seconds between looks and gives up after ten, and more fuel changes
  nothing. The writer has no bound on the length of its runs: properties are over every reachable state.

  \<^bold>\<open>Limits of the model\<close>

  The epoch of a session is below \<open>2^43\<close> milliseconds and seqs below \<open>2^20\<close>, as the code checks. Lengths and
  counts of type \<open>usize\<close> are natural numbers. A blocked receiver and the wake-up order of tokio are not
  modelled: an event may run any task that can move. A file that was sent to a render stage which has exited
  stays in \<open>seal_queue\<close>, where the code drops it with the channel. A sequence of requests of one task
  with nothing of the shared state between them is one event (\<open>Writer_Machine\<close>).

  \<^bold>\<open>Not modelled\<close>

  Log lines and the three millisecond timings that only feed them; the fault points at other places than the
  two writes of the store, since the theories model the published build, where the macros expand to nothing;
  timers, which decide when an event comes and not what it does; the HTTP, PostgreSQL and TLS clients;
  \<open>lib.rs\<close>, which re-exports; the tests and the benches; the environment variables of the examples. What is
  left of the implementation's lines is the unit tests in its files, documentation comments, and accessors
  that return a field.
\<close>

end
